(* ===== verification/Prelude.thy ===== *)
theory Prelude
  imports Main "HOL-Library.Word"
begin

text \<open>
  The vocabulary every component of the development shares: C pointers, the kinds of
  undefined behaviour, the result type of a C function, reads and writes through a pointer,
  and the byte-copy operations.

  A C function is a HOL function into \<open>'a res\<close>:
  \<^item> \<open>None\<close>: the call does not return (a loop that never ends);
  \<^item> \<open>Some (Inl e)\<close>: the execution reaches undefined behaviour of kind \<open>e\<close>
    (a null dereference, a use after free, a read of memory no one has written);
  \<^item> \<open>Some (Inr x)\<close>: the call returns \<open>x\<close>.
  The value \<open>x\<close> is a pair of the C return value and the new state. An error the C code
  reports itself (return value -1 and an error code) is an ordinary return.
\<close>

named_theorems exec_simps \<open>symbolic execution of a model: loads, stores, binds\<close>

section \<open>Results\<close>

datatype ub =
    NullDeref       \<comment> \<open>a null pointer is dereferenced\<close>
  | UseAfterFree    \<comment> \<open>a pointer to a released object is dereferenced\<close>
  | DoubleFree      \<comment> \<open>a released object is passed to \<open>free\<close> again\<close>
  | UninitRead      \<comment> \<open>a pointer that was never written is inspected\<close>
  | OutOfBounds     \<comment> \<open>an array is accessed outside its bounds\<close>
  | Aborted         \<comment> \<open>an assertion of the program fails and it calls \<open>abort\<close> or \<open>exit\<close>\<close>

type_synonym 'a res = "(ub + 'a) option"

abbreviation ret :: "'a \<Rightarrow> 'a res" where
  "ret x \<equiv> Some (Inr x)"

abbreviation fail :: "ub \<Rightarrow> 'a res" where
  "fail e \<equiv> Some (Inl e)"

abbreviation diverges :: "'a res \<Rightarrow> bool" where
  "diverges m \<equiv> m = None"

definition bindR :: "'a res \<Rightarrow> ('a \<Rightarrow> 'b res) \<Rightarrow> 'b res" where
  "bindR m f = Option.bind m (\<lambda>r. case r of Inl e \<Rightarrow> Some (Inl e) | Inr x \<Rightarrow> f x)"

lemma bindR_simps [simp, exec_simps]:
  "bindR (ret x) f = f x"
  "bindR (fail e) f = fail e"
  "bindR None f = None"
  by (simp_all add: bindR_def)

lemma bindR_assoc: "bindR (bindR m f) g = bindR m (\<lambda>x. bindR (f x) g)"
  by (cases m) (auto simp: bindR_def split: sum.split)

lemma bindR_eq_ret: "bindR m f = ret y \<longleftrightarrow> (\<exists>x. m = ret x \<and> f x = ret y)"
  by (cases m) (auto simp: bindR_def split: sum.split)

lemma bindR_mono [partial_function_mono]:
  assumes "mono_option B" and "\<And>y. mono_option (\<lambda>f. C y f)"
  shows "mono_option (\<lambda>f. bindR (B f) (\<lambda>y. C y f))"
proof -
  have "mono_option (\<lambda>f. case r of Inl e \<Rightarrow> Some (Inl e) | Inr x \<Rightarrow> C x f)" for r
  proof (cases r)
    case (Inl e)
    then show ?thesis by (simp add: option.const_mono)
  next
    case (Inr x)
    with assms(2) show ?thesis by simp
  qed
  with assms(1) show ?thesis
    unfolding bindR_def by (intro bind_mono)
qed

section \<open>Pointers and heaps\<close>

text \<open>
  Every kind of object has a heap of its own, a map from addresses to objects. \<open>Junk\<close> is
  the content of a pointer cell that was allocated and never written.
\<close>

datatype ptr = Null | Ptr nat | Junk

definition is_null :: "ptr \<Rightarrow> bool res" where
  "is_null p = (case p of Null \<Rightarrow> ret True | Ptr a \<Rightarrow> ret False | Junk \<Rightarrow> fail UninitRead)"

definition load :: "(nat \<rightharpoonup> 'a) \<Rightarrow> ptr \<Rightarrow> 'a res" where
  "load h p = (case p of
      Null \<Rightarrow> fail NullDeref
    | Junk \<Rightarrow> fail UninitRead
    | Ptr a \<Rightarrow> (case h a of None \<Rightarrow> fail UseAfterFree | Some x \<Rightarrow> ret x))"

definition store :: "(nat \<rightharpoonup> 'a) \<Rightarrow> ptr \<Rightarrow> ('a \<Rightarrow> 'a) \<Rightarrow> (nat \<rightharpoonup> 'a) res" where
  "store h p f = (case p of
      Null \<Rightarrow> fail NullDeref
    | Junk \<Rightarrow> fail UninitRead
    | Ptr a \<Rightarrow> (case h a of None \<Rightarrow> fail UseAfterFree | Some x \<Rightarrow> ret (h(a \<mapsto> f x))))"

definition release :: "(nat \<rightharpoonup> 'a) \<Rightarrow> ptr \<Rightarrow> (nat \<rightharpoonup> 'a) res" where
  "release h p = (case p of
      Null \<Rightarrow> ret h
    | Junk \<Rightarrow> fail UninitRead
    | Ptr a \<Rightarrow> (case h a of None \<Rightarrow> fail DoubleFree | Some x \<Rightarrow> ret (h(a := None))))"

lemma is_null_simps [simp, exec_simps]:
  "is_null Null = ret True"
  "is_null (Ptr a) = ret False"
  "is_null Junk = fail UninitRead"
  by (simp_all add: is_null_def)

lemma load_simps [simp, exec_simps]:
  "load h Null = fail NullDeref"
  "load h Junk = fail UninitRead"
  "h a = Some x \<Longrightarrow> load h (Ptr a) = ret x"
  "h a = None \<Longrightarrow> load h (Ptr a) = fail UseAfterFree"
  by (simp_all add: load_def)

lemma store_simps [simp, exec_simps]:
  "store h Null f = fail NullDeref"
  "store h Junk f = fail UninitRead"
  "h a = Some x \<Longrightarrow> store h (Ptr a) f = ret (h(a \<mapsto> f x))"
  "h a = None \<Longrightarrow> store h (Ptr a) f = fail UseAfterFree"
  by (simp_all add: store_def)

lemma release_simps [simp, exec_simps]:
  "release h Null = ret h"
  "release h Junk = fail UninitRead"
  "h a = Some x \<Longrightarrow> release h (Ptr a) = ret (h(a := None))"
  "h a = None \<Longrightarrow> release h (Ptr a) = fail DoubleFree"
  by (simp_all add: release_def)

lemma load_eq_ret: "load h p = ret x \<longleftrightarrow> (\<exists>a. p = Ptr a \<and> h a = Some x)"
  by (cases p) (auto simp: load_def split: option.split)

text \<open>
  Removing a list of addresses from a heap.
\<close>

definition drop_addrs :: "nat list \<Rightarrow> (nat \<rightharpoonup> 'a) \<Rightarrow> (nat \<rightharpoonup> 'a)" where
  "drop_addrs as h = h |` (- set as)"

lemma drop_addrs_Nil [simp]: "drop_addrs [] h = h"
  by (rule ext) (simp add: drop_addrs_def restrict_map_def)

lemma drop_addrs_Cons: "drop_addrs (a # as) h = drop_addrs as (h(a := None))"
  by (rule ext) (simp add: drop_addrs_def restrict_map_def)

lemma drop_addrs_apply [simp]: "drop_addrs as h a = (if a \<in> set as then None else h a)"
  by (simp add: drop_addrs_def restrict_map_def)

section \<open>Overwriting a part of a sequence\<close>

text \<open>\<open>splice_at o w xs\<close> writes \<open>w\<close> over \<open>xs\<close> from position \<open>o\<close> on, as \<open>memcpy\<close> does.\<close>

definition splice_at :: "nat \<Rightarrow> 'a list \<Rightarrow> 'a list \<Rightarrow> 'a list" where
  "splice_at i w xs = take i xs @ w @ drop (i + length w) xs"

lemma length_splice_at [simp]:
  "i + length w \<le> length xs \<Longrightarrow> length (splice_at i w xs) = length xs"
  by (simp add: splice_at_def)

lemma length_splice_at_max:
  "i \<le> length xs \<Longrightarrow> length (splice_at i w xs) = max (length xs) (i + length w)"
  by (simp add: splice_at_def)

lemma splice_at_Nil [simp]: "splice_at i [] xs = xs"
  by (simp add: splice_at_def)

lemma take_splice_at_before: "i \<le> length xs \<Longrightarrow> take i (splice_at i w xs) = take i xs"
  by (simp add: splice_at_def)

lemma drop_splice_at: "i \<le> length xs \<Longrightarrow> drop i (splice_at i w xs) = w @ drop (i + length w) xs"
  by (simp add: splice_at_def)

lemma take_drop_splice_at: "i \<le> length xs \<Longrightarrow> take (length w) (drop i (splice_at i w xs)) = w"
  by (simp add: splice_at_def)

lemma splice_at_append_left:
  "i + length w \<le> length xs \<Longrightarrow> splice_at i w (xs @ ys) = splice_at i w xs @ ys"
  by (simp add: splice_at_def)

lemma splice_at_append_right:
  "length xs \<le> i \<Longrightarrow> splice_at i w (xs @ ys) = xs @ splice_at (i - length xs) w ys"
  by (simp add: splice_at_def)

lemma splice_at_split:
  assumes "i + length v = length xs"
  shows "splice_at i (v @ w) (xs @ ys) = splice_at i v xs @ splice_at 0 w ys"
  using assms by (simp add: splice_at_def flip: assms)

lemma splice_glue:
  assumes "length B \<le> m" "length B < m \<Longrightarrow> R = []" "\<not> (m \<le> off \<and> length B = m)"
    and "i = min off (length B)" "i + length W1 \<le> m" "W2 \<noteq> [] \<Longrightarrow> i + length W1 = m"
  shows "splice_at (min off (length B + length R)) (W1 @ W2) (B @ R) = splice_at i W1 B @ splice_at 0 W2 R"
proof (cases "length B < m")
  case True
  then show ?thesis
    using assms by (cases "W2 = []") (auto simp: splice_at_def)
next
  case False
  with assms have B: "length B = m" "off < m" "i = off" by auto
  show ?thesis
  proof (cases "W2 = []")
    case True
    with B assms show ?thesis by (simp add: splice_at_append_left)
  next
    case False
    with B assms show ?thesis by (simp add: splice_at_split)
  qed
qed


lemma take_splice_at:
  assumes "i \<le> m" "m \<le> length xs" "i + length w \<le> length xs"
  shows "take (max (i + length w) m) (splice_at i w xs) = splice_at i w (take m xs)"
proof (cases "m \<le> i + length w")
  case True
  with assms show ?thesis by (simp add: splice_at_def max_def)
next
  case False
  with assms have "take (max (i + length w) m) (splice_at i w xs) =
      take i xs @ w @ take (m - (i + length w)) (drop (i + length w) xs)"
    by (simp add: splice_at_def max_def)
  also have "\<dots> = splice_at i w (take m xs)"
    using assms False by (simp add: splice_at_def drop_take)
  finally show ?thesis .
qed

lemma map_splice_at: "map f (splice_at i w xs) = splice_at i (map f w) (map f xs)"
  by (simp add: splice_at_def take_map drop_map)

lemma set_splice_at_subset: "set (splice_at i w xs) \<subseteq> set w \<union> set xs"
  by (auto simp: splice_at_def dest: in_set_takeD in_set_dropD)

section \<open>64-bit sizes\<close>

type_synonym byte = "8 word"
type_synonym size_t = "64 word"

text \<open>
  \<open>size_t\<close> values convert to \<open>long long\<close> and \<open>ssize_t\<close> by reading the same 64 bits as two's
  complement, which is \<open>sint\<close>.
\<close>

lemma sint_size_small:
  fixes w :: size_t
  assumes "unat w < 2 ^ 63"
  shows "sint w = int (unat w)"
proof -
  have "uint w < 2 ^ 63"
    using assms by (metis uint_nat of_nat_less_iff of_nat_numeral of_nat_power)
  moreover have "- (2 ^ 63) \<le> uint w"
    by (rule order_trans [of _ 0]) simp_all
  ultimately have "signed_take_bit 63 (uint w) = uint w"
    by (intro signed_take_bit_int_eq_self) auto
  then show ?thesis
    by (simp add: sint_uint)
qed

section \<open>Index ranges\<close>

lemma upto_map_int: "[0..int n - 1] = map int [0..<n]"
proof (induction n)
  case (Suc n)
  have "[0..int (Suc n) - 1] = [0..int n - 1] @ [int n]"
    using upto_rec2 [of 0 "int n"] by simp
  with Suc show ?case by simp
qed simp

end
