(* ===== verification/Linked_List.thy ===== *)
theory Linked_List
  imports Prelude
begin

text \<open>
  Doubly linked lists in a heap. The file blocks and the files of userfs.c, the coroutine
  list of libcoro.c and the task queue of thread_pool.c are all of this shape: nodes with a
  \<open>next\<close> and a \<open>prev\<close> pointer, linked by hand. The theory defines when a ghost list of
  addresses describes such a chain, and proves once what pushing at the front, appending,
  cutting and unlinking do to it. The locale \<open>dnode\<close> states what the proofs need of a node
  type; every component interprets it on its own record.
\<close>

section \<open>Chains\<close>

text \<open>
  \<open>chain nx pv h bk p us q\<close>: starting at \<open>p\<close>, following \<open>nx\<close> visits exactly the addresses
  \<open>us\<close> and ends at \<open>q\<close>; the \<open>pv\<close> field of the first node is \<open>bk\<close> and that of every other
  node points to its predecessor.
\<close>

fun chain :: "('a \<Rightarrow> ptr) \<Rightarrow> ('a \<Rightarrow> ptr) \<Rightarrow> (nat \<rightharpoonup> 'a) \<Rightarrow> ptr \<Rightarrow> ptr \<Rightarrow> nat list \<Rightarrow> ptr \<Rightarrow> bool" where
  "chain nx pv h bk p [] q \<longleftrightarrow> p = q"
| "chain nx pv h bk p (a # us) q \<longleftrightarrow>
     p = Ptr a \<and> (\<exists>x. h a = Some x \<and> pv x = bk \<and> chain nx pv h (Ptr a) (nx x) us q)"

text \<open>The pointer to the last node of a chain, \<open>bk\<close> when the chain is empty.\<close>

definition last_ptr :: "ptr \<Rightarrow> nat list \<Rightarrow> ptr" where
  "last_ptr bk us = (if us = [] then bk else Ptr (last us))"

lemma last_ptr_simps [simp]:
  "last_ptr bk [] = bk"
  "last_ptr bk (a # us) = last_ptr (Ptr a) us"
  "last_ptr bk (us @ a # vs) = last_ptr (Ptr a) vs"
  by (auto simp: last_ptr_def)

lemma last_ptr_ne: "us \<noteq> [] \<Longrightarrow> last_ptr bk us = Ptr (last us)"
  by (simp add: last_ptr_def)

text \<open>The pointer to the first node of a chain that ends at \<open>q\<close>.\<close>

definition head_ptr :: "nat list \<Rightarrow> ptr \<Rightarrow> ptr" where
  "head_ptr us q = (case us of [] \<Rightarrow> q | a # _ \<Rightarrow> Ptr a)"

lemma head_ptr_simps [simp]:
  "head_ptr [] q = q"
  "head_ptr (a # us) q = Ptr a"
  by (simp_all add: head_ptr_def)

lemma chain_head: "chain nx pv h bk p us q \<Longrightarrow> p = head_ptr us q"
  by (cases us) auto

lemma chain_append:
  "chain nx pv h bk p (us @ vs) q \<longleftrightarrow>
     (\<exists>m. chain nx pv h bk p us m \<and> chain nx pv h (last_ptr bk us) m vs q)"
  by (induction us arbitrary: bk p) auto

lemma chain_alloc: "chain nx pv h bk p us q \<Longrightarrow> a \<in> set us \<Longrightarrow> \<exists>x. h a = Some x"
  by (induction us arbitrary: bk p) auto

lemma chain_subset_dom: "chain nx pv h bk p us q \<Longrightarrow> set us \<subseteq> dom h"
  by (auto dest: chain_alloc)

text \<open>A chain depends only on the links of its own nodes.\<close>

lemma chain_cong:
  assumes "chain nx pv h bk p us q"
    and "\<And>a x. a \<in> set us \<Longrightarrow> h a = Some x \<Longrightarrow> \<exists>y. h' a = Some y \<and> nx y = nx x \<and> pv y = pv x"
  shows "chain nx pv h' bk p us q"
  using assms
proof (induction us arbitrary: bk p)
  case (Cons a us)
  from Cons.prems(1) obtain x where x: "p = Ptr a" "h a = Some x" "pv x = bk"
    "chain nx pv h (Ptr a) (nx x) us q" by auto
  from Cons.prems(2) [of a x] x obtain y where y: "h' a = Some y" "nx y = nx x" "pv y = pv x"
    by auto
  have "chain nx pv h' (Ptr a) (nx x) us q"
    by (rule Cons.IH [OF x(4)]) (use Cons.prems(2) in auto)
  with x y show ?case by simp
qed simp

lemma chain_frame:
  "chain nx pv h bk p us q \<Longrightarrow> (\<And>a. a \<in> set us \<Longrightarrow> h' a = h a) \<Longrightarrow> chain nx pv h' bk p us q"
  by (erule chain_cong) auto

lemma chain_upd_other [simp]:
  "b \<notin> set us \<Longrightarrow> chain nx pv (h(b := v)) bk p us q \<longleftrightarrow> chain nx pv h bk p us q"
  by (induction us arbitrary: bk p) auto

lemma chain_drop_other:
  "set us \<inter> set vs = {} \<Longrightarrow> chain nx pv h bk p us q \<Longrightarrow> chain nx pv (drop_addrs vs h) bk p us q"
  by (erule chain_frame) auto

lemma chain_same_links:
  assumes "h b = Some x" "nx y = nx x" "pv y = pv x"
  shows "chain nx pv (h(b \<mapsto> y)) bk p us q \<longleftrightarrow> chain nx pv h bk p us q"
  using assms by (induction us arbitrary: bk p) auto

text \<open>A chain that ends in null is acyclic, and its addresses are determined.\<close>

lemma chain_unique:
  "chain nx pv h bk p us Null \<Longrightarrow> chain nx pv h bk' p vs Null \<Longrightarrow> us = vs"
proof (induction us arbitrary: bk bk' p vs)
  case Nil
  then show ?case by (cases vs) auto
next
  case (Cons a us)
  from Cons.prems(1) obtain x where x: "p = Ptr a" "h a = Some x"
    "chain nx pv h (Ptr a) (nx x) us Null" by auto
  with Cons.prems(2) obtain vs' where "vs = a # vs'" "chain nx pv h (Ptr a) (nx x) vs' Null"
    by (cases vs) auto
  with Cons.IH x(3) show ?case by blast
qed

lemma chain_hd_notin_tl:
  assumes "chain nx pv h bk p (a # us) Null"
  shows "a \<notin> set us"
proof
  assume "a \<in> set us"
  then obtain xs ys where us: "us = xs @ a # ys"
    by (auto simp: in_set_conv_decomp)
  from assms obtain x where x: "h a = Some x" "chain nx pv h (Ptr a) (nx x) us Null"
    by auto
  from x us have "chain nx pv h (Ptr a) (nx x) ys Null"
    by (auto simp: chain_append)
  with x(2) have "ys = us"
    by (rule chain_unique [rotated])
  with us show False by simp
qed

lemma chain_distinct: "chain nx pv h bk p us Null \<Longrightarrow> distinct us"
proof (induction us arbitrary: bk p)
  case (Cons a us)
  from chain_hd_notin_tl [OF Cons.prems] Cons show ?case by auto
qed simp

lemma chain_last_next:
  "chain nx pv h bk p us q \<Longrightarrow> us \<noteq> [] \<Longrightarrow> \<exists>x. h (last us) = Some x \<and> nx x = q"
  by (induction us arbitrary: bk p) auto

lemma chain_next_head:
  assumes "chain nx pv h bk p (us @ a # vs) Null" "h a = Some x"
  shows "nx x = head_ptr vs Null"
  using assms by (auto simp: chain_append dest: chain_head)

section \<open>Nodes\<close>

text \<open>
  What the list operations use of a node: its two links can be written, and writing one
  leaves the other alone.
\<close>

locale dnode =
  fixes nx pv :: "'a \<Rightarrow> ptr"
    and set_nx set_pv :: "ptr \<Rightarrow> 'a \<Rightarrow> 'a"
  assumes nx_set_nx: "nx (set_nx p x) = p"
    and nx_set_pv: "nx (set_pv p x) = nx x"
    and pv_set_nx: "pv (set_nx p x) = pv x"
    and pv_set_pv: "pv (set_pv p x) = p"
begin

lemmas links = nx_set_nx nx_set_pv pv_set_nx pv_set_pv

text \<open>Replacing the last link.\<close>

lemma set_last_next:
  assumes "chain nx pv h bk p (us @ [a]) q" "a \<notin> set us" "h a = Some x"
  shows "chain nx pv (h(a \<mapsto> set_nx q' x)) bk p (us @ [a]) q'"
  using assms by (auto simp: chain_append links)

text \<open>Replacing the back link of the first node.\<close>

lemma set_first_prev:
  assumes "chain nx pv h bk p (a # us) q" "a \<notin> set us" "h a = Some x"
  shows "chain nx pv (h(a \<mapsto> set_pv bk' x)) bk' p (a # us) q"
  using assms by (auto simp: links)

text \<open>Pushing a new node in front of a list.\<close>

lemma push_front_empty:
  assumes "h' n = Some y" "nx y = Null" "pv y = bk"
  shows "chain nx pv h' bk (Ptr n) [n] Null"
  using assms by simp

lemma push_front:
  assumes ch: "chain nx pv h bk p (a # us) Null" and n: "n \<notin> set (a # us)"
    and x: "h a = Some x" and y: "nx y = Ptr a" "pv y = bk'"
  shows "chain nx pv (h(n \<mapsto> y, a \<mapsto> set_pv (Ptr n) x)) bk' (Ptr n) (n # a # us) Null"
proof -
  have a: "a \<notin> set us"
    using ch by (rule chain_hd_notin_tl)
  have "chain nx pv (h(a \<mapsto> set_pv (Ptr n) x)) (Ptr n) p (a # us) Null"
    by (rule set_first_prev [OF ch a x])
  moreover have "p = Ptr a" using ch by simp
  ultimately have "chain nx pv (h(n \<mapsto> y, a \<mapsto> set_pv (Ptr n) x)) (Ptr n) (Ptr a) (a # us) Null"
    using n by (auto elim: chain_frame)
  with n y show ?thesis by auto
qed

text \<open>Appending a new node at the end of a nonempty list.\<close>

lemma append_node:
  assumes ch: "chain nx pv h bk p (us @ [a]) Null" and n: "n \<notin> set (us @ [a])"
    and x: "h a = Some x" and y: "nx y = Null" "pv y = Ptr a"
  shows "chain nx pv (h(n \<mapsto> y, a \<mapsto> set_nx (Ptr n) x)) bk p (us @ [a, n]) Null"
proof -
  have a: "a \<notin> set us"
    using chain_distinct [OF ch] by simp
  have "chain nx pv (h(a \<mapsto> set_nx (Ptr n) x)) bk p (us @ [a]) (Ptr n)"
    by (rule set_last_next [OF ch a x])
  then have "chain nx pv (h(n \<mapsto> y, a \<mapsto> set_nx (Ptr n) x)) bk p (us @ [a]) (Ptr n)"
    by (rule chain_frame) (use n in auto)
  with n y have "chain nx pv (h(n \<mapsto> y, a \<mapsto> set_nx (Ptr n) x)) bk p ((us @ [a]) @ [n]) Null"
    by (subst chain_append) auto
  then show ?thesis by simp
qed

text \<open>
  Unlinking a node: the successor of the predecessor and the predecessor of the successor
  are redirected. The four shapes of the neighbourhood are one lemma each, so that a proof
  about C code that branches on them picks the one it is in.
\<close>

lemma unlink_first_last:
  assumes "chain nx pv h bk p [a] Null" "h a = Some x"
  shows "nx x = Null \<and> pv x = bk"
  using assms by simp

lemma unlink_first:
  assumes ch: "chain nx pv h bk p (a # b # vs) Null" and y: "h b = Some y" and x: "h a = Some x"
  shows "nx x = Ptr b" "chain nx pv (h(b \<mapsto> set_pv bk y)) bk (Ptr b) (b # vs) Null"
proof -
  from ch x have ch': "chain nx pv h (Ptr a) (Ptr b) (b # vs) Null" and nx: "nx x = Ptr b"
    by auto
  show "nx x = Ptr b" by (rule nx)
  show "chain nx pv (h(b \<mapsto> set_pv bk y)) bk (Ptr b) (b # vs) Null"
    by (rule set_first_prev [OF ch' chain_hd_notin_tl [OF ch'] y])
qed

lemma unlink_last:
  assumes ch: "chain nx pv h bk p (us @ [c, a]) Null" and z: "h c = Some z" and x: "h a = Some x"
  shows "pv x = Ptr c" "nx x = Null" "chain nx pv (h(c \<mapsto> set_nx Null z)) bk p (us @ [c]) Null"
proof -
  from ch have ch': "chain nx pv h bk p ((us @ [c]) @ [a]) Null" by simp
  then have 1: "chain nx pv h bk p (us @ [c]) (Ptr a)" and "pv x = Ptr c \<and> nx x = Null"
    using x by (auto simp: chain_append)
  then show "pv x = Ptr c" "nx x = Null" by auto
  have "c \<notin> set us"
    using chain_distinct [OF ch] by simp
  from set_last_next [OF 1 this z]
  show "chain nx pv (h(c \<mapsto> set_nx Null z)) bk p (us @ [c]) Null" .
qed

lemma unlink_middle:
  assumes ch: "chain nx pv h bk p (us @ [c, a, b] @ vs) Null"
    and z: "h c = Some z" and x: "h a = Some x" and y: "h b = Some y"
  shows "pv x = Ptr c" "nx x = Ptr b"
    "chain nx pv (h(c \<mapsto> set_nx (Ptr b) z, b \<mapsto> set_pv (Ptr c) y)) bk p (us @ [c, b] @ vs) Null"
proof -
  have d: "distinct (us @ [c, a, b] @ vs)"
    by (rule chain_distinct [OF ch])
  from ch x have 1: "chain nx pv h bk p (us @ [c]) (Ptr a)"
    and 2: "pv x = Ptr c" "nx x = Ptr b"
    and 3: "chain nx pv h (Ptr a) (Ptr b) (b # vs) Null"
    by (auto simp: chain_append)
  show "pv x = Ptr c" "nx x = Ptr b" by (rule 2)+
  have "chain nx pv (h(c \<mapsto> set_nx (Ptr b) z)) bk p (us @ [c]) (Ptr b)"
    using 1 d z by (intro set_last_next) auto
  then have "chain nx pv (h(c \<mapsto> set_nx (Ptr b) z, b \<mapsto> set_pv (Ptr c) y)) bk p (us @ [c]) (Ptr b)"
    by (rule chain_frame) (use d in auto)
  moreover have "chain nx pv (h(b \<mapsto> set_pv (Ptr c) y)) (Ptr c) (Ptr b) (b # vs) Null"
    using 3 d y by (intro set_first_prev) auto
  then have "chain nx pv (h(c \<mapsto> set_nx (Ptr b) z, b \<mapsto> set_pv (Ptr c) y)) (Ptr c) (Ptr b) (b # vs) Null"
    by (rule chain_frame) (use d in auto)
  ultimately have
    "chain nx pv (h(c \<mapsto> set_nx (Ptr b) z, b \<mapsto> set_pv (Ptr c) y)) bk p ((us @ [c]) @ b # vs) Null"
    by (subst chain_append) auto
  then show "chain nx pv (h(c \<mapsto> set_nx (Ptr b) z, b \<mapsto> set_pv (Ptr c) y)) bk p (us @ [c, b] @ vs) Null"
    by simp
qed

text \<open>Cutting a list after a node.\<close>

lemma cut_after:
  assumes ch: "chain nx pv h bk p ((us @ [a]) @ vs) Null" and x: "h a = Some x"
  shows "chain nx pv (h(a \<mapsto> set_nx Null x)) bk p (us @ [a]) Null"
    and "chain nx pv (h(a \<mapsto> set_nx Null x)) (Ptr a) (nx x) vs Null"
proof -
  have d: "distinct (us @ [a] @ vs)"
    using chain_distinct [OF ch] by simp
  from ch x have 1: "chain nx pv h bk p (us @ [a]) (nx x)"
    and 2: "chain nx pv h (Ptr a) (nx x) vs Null"
    by (auto simp: chain_append)
  show "chain nx pv (h(a \<mapsto> set_nx Null x)) bk p (us @ [a]) Null"
    using 1 d x by (intro set_last_next) auto
  show "chain nx pv (h(a \<mapsto> set_nx Null x)) (Ptr a) (nx x) vs Null"
    using 2 d by auto
qed

end

section \<open>Unlinking as a function\<close>

text \<open>
  The effect of unlinking the node \<open>x\<close> on the heap, whatever its neighbours are: code that
  redirects both neighbours, in either order, computes it.
\<close>

definition unlink_heap :: "('a \<Rightarrow> ptr) \<Rightarrow> ('a \<Rightarrow> ptr) \<Rightarrow> (ptr \<Rightarrow> 'a \<Rightarrow> 'a) \<Rightarrow> (ptr \<Rightarrow> 'a \<Rightarrow> 'a)
    \<Rightarrow> 'a \<Rightarrow> (nat \<rightharpoonup> 'a) \<Rightarrow> (nat \<rightharpoonup> 'a)" where
  "unlink_heap nx pv set_nx set_pv x h =
     (let h = (case pv x of Ptr c \<Rightarrow> h(c \<mapsto> set_nx (nx x) (the (h c))) | _ \<Rightarrow> h)
      in case nx x of Ptr b \<Rightarrow> h(b \<mapsto> set_pv (pv x) (the (h b))) | _ \<Rightarrow> h)"

context dnode
begin

lemma unlink_ok:
  assumes ch: "chain nx pv h Null p (us @ a # vs) Null" and x: "h a = Some x"
  shows "chain nx pv (unlink_heap nx pv set_nx set_pv x h) Null (if us = [] then nx x else p) (us @ vs) Null"
    and "pv x = last_ptr Null us" and "nx x = head_ptr vs Null"
    and "us \<noteq> [] \<Longrightarrow> \<exists>y. h (last us) = Some y" and "vs \<noteq> [] \<Longrightarrow> \<exists>y. h (hd vs) = Some y"
proof -
  have alloc: "\<exists>y. h b = Some y" if "b \<in> set (us @ a # vs)" for b
    using chain_alloc [OF ch that] .
  show "us \<noteq> [] \<Longrightarrow> \<exists>y. h (last us) = Some y" "vs \<noteq> [] \<Longrightarrow> \<exists>y. h (hd vs) = Some y"
    by (rule alloc; simp)+
  show pv: "pv x = last_ptr Null us" and nx: "nx x = head_ptr vs Null"
    using ch x by (auto simp: chain_append dest: chain_head)
  note d = chain_distinct [OF ch]
  show "chain nx pv (unlink_heap nx pv set_nx set_pv x h) Null (if us = [] then nx x else p) (us @ vs) Null"
  proof (cases us rule: rev_cases)
    case Nil
    show ?thesis
    proof (cases vs)
      case Nil2: Nil
      with Nil pv nx show ?thesis by (simp add: unlink_heap_def)
    next
      case (Cons b vs')
      then obtain y where y: "h b = Some y" using alloc by auto
      from unlink_first (2) [of h Null p a b vs' y x] ch Nil Cons y x pv nx show ?thesis
        by (simp add: unlink_heap_def)
    qed
  next
    case (snoc us' c)
    then obtain z where z: "h c = Some z" using alloc by auto
    show ?thesis
    proof (cases vs)
      case Nil
      from unlink_last (3) [of h Null p us' c a z x] ch snoc Nil z x pv nx show ?thesis
        by (simp add: unlink_heap_def)
    next
      case (Cons b vs')
      then obtain y where y: "h b = Some y" using alloc by auto
      have "b \<noteq> c" using d snoc Cons by auto
      with unlink_middle (3) [of h Null p us' c a b vs' z x y] ch snoc Cons y z x pv nx show ?thesis
        by (simp add: unlink_heap_def Let_def)
    qed
  qed
qed

end

end
