(* ===== verification/Ufs_Model.thy ===== *)
theory Ufs_Model
  imports Linked_List
begin

unbundle bit_operations_syntax

text \<open>
  The in-memory file system of homework03/userfs.c, statement by statement. Blocks, files and
  descriptors live in three heaps; pointers, the doubly linked lists and the explicit
  \<open>malloc\<close> and \<open>free\<close> calls of the C code are kept, so that aliasing (several descriptors on
  one file), dangling pointers and leaks are facts of the model and not assumptions on it.

  Abstractions: a block's \<open>memory\<close> buffer and a file's \<open>name\<close> have one owner and live and die
  with it, so they are fields holding the content (an unwritten byte is \<open>None\<close>); \<open>malloc\<close>
  does not fail and does not reuse addresses; \<open>int\<close> and \<open>ssize_t\<close> variables, none of which
  wraps before the memory is exhausted, are \<open>int\<close>; \<open>size_t\<close> variables are 64-bit words. The
  content of a pointer cell that \<open>malloc\<close> returned and nobody wrote is the field \<open>heap_fill\<close>:
  \<open>Null\<close> when the allocator hands out zeroed pages, \<open>Junk\<close> otherwise.
\<close>

section \<open>Constants and helpers\<close>

definition c_min :: "int \<Rightarrow> int \<Rightarrow> int" where
  "c_min a b = (if a < b then a else b)"

definition c_max :: "int \<Rightarrow> int \<Rightarrow> int" where
  "c_max a b = (if a > b then a else b)"

abbreviation BLOCK_SIZE :: "'a::numeral" where
  "BLOCK_SIZE \<equiv> 512"

definition MAX_FILE_SIZE :: size_t where
  "MAX_FILE_SIZE = 1024 * 1024 * 100"

datatype ufs_error_code =
    UFS_ERR_NO_ERR
  | UFS_ERR_NO_FILE
  | UFS_ERR_NO_MEM
  | UFS_ERR_NOT_IMPLEMENTED
  | UFS_ERR_NO_PERMISSION

type_synonym flags = "32 word"

definition UFS_CREATE :: flags where "UFS_CREATE = 1"
definition UFS_READ_ONLY :: flags where "UFS_READ_ONLY = 2"
definition UFS_WRITE_ONLY :: flags where "UFS_WRITE_ONLY = 4"
definition UFS_READ_WRITE :: flags where "UFS_READ_WRITE = 8"

lemmas open_flags_defs = UFS_CREATE_def UFS_READ_ONLY_def UFS_WRITE_ONLY_def UFS_READ_WRITE_def

definition is_permitted :: "flags \<Rightarrow> flags \<Rightarrow> bool" where
  "is_permitted flags flag \<longleftrightarrow> flags AND flag = flag"

section \<open>State\<close>

record block =
  memory :: "byte option list"
  occupied :: int
  b_next :: ptr
  b_prev :: ptr

record ufs_file =
  block_list :: ptr
  last_block :: ptr
  refs :: int
  f_name :: string
  f_next :: ptr
  f_prev :: ptr
  bytes_left :: size_t
  in_list :: bool

record filedesc =
  fd_file :: ptr
  is_occupied :: bool
  fd_offset :: int
  can_read :: bool
  can_write :: bool

datatype fd_array = FdNull | FdArray "ptr list" | FdFreed

record ufs =
  error_code :: ufs_error_code
  file_list :: ptr
  file_descriptors :: fd_array
  fd_count :: int
  fd_capacity :: int
  blocks :: "nat \<rightharpoonup> block"
  files :: "nat \<rightharpoonup> ufs_file"
  filedescs :: "nat \<rightharpoonup> filedesc"
  next_addr :: nat
  heap_fill :: ptr

definition ufs_init :: "ptr \<Rightarrow> ufs" where
  "ufs_init fill = \<lparr>error_code = UFS_ERR_NO_ERR, file_list = Null, file_descriptors = FdNull,
     fd_count = 0, fd_capacity = 0, blocks = Map.empty, files = Map.empty,
     filedescs = Map.empty, next_addr = 0, heap_fill = fill\<rparr>"

definition ufs_errno :: "ufs \<Rightarrow> ufs_error_code" where
  "ufs_errno s = error_code s"

text \<open>A call that fails sets the error code and returns -1.\<close>

abbreviation ufs_fail :: "ufs_error_code \<Rightarrow> ufs \<Rightarrow> (int \<times> ufs) res" where
  "ufs_fail e s \<equiv> ret (-1, s\<lparr>error_code := e\<rparr>)"

section \<open>Memory\<close>

definition malloc_block :: "block \<Rightarrow> ufs \<Rightarrow> ptr \<times> ufs" where
  "malloc_block x s =
     (Ptr (next_addr s), s\<lparr>blocks := (blocks s)(next_addr s \<mapsto> x), next_addr := Suc (next_addr s)\<rparr>)"

definition malloc_file :: "ufs_file \<Rightarrow> ufs \<Rightarrow> ptr \<times> ufs" where
  "malloc_file x s =
     (Ptr (next_addr s), s\<lparr>files := (files s)(next_addr s \<mapsto> x), next_addr := Suc (next_addr s)\<rparr>)"

definition malloc_filedesc :: "filedesc \<Rightarrow> ufs \<Rightarrow> ptr \<times> ufs" where
  "malloc_filedesc x s =
     (Ptr (next_addr s),
      s\<lparr>filedescs := (filedescs s)(next_addr s \<mapsto> x), next_addr := Suc (next_addr s)\<rparr>)"

definition upd_block :: "ptr \<Rightarrow> (block \<Rightarrow> block) \<Rightarrow> ufs \<Rightarrow> ufs res" where
  "upd_block p f s = bindR (store (blocks s) p f) (\<lambda>h. ret (s\<lparr>blocks := h\<rparr>))"

definition upd_file :: "ptr \<Rightarrow> (ufs_file \<Rightarrow> ufs_file) \<Rightarrow> ufs \<Rightarrow> ufs res" where
  "upd_file p f s = bindR (store (files s) p f) (\<lambda>h. ret (s\<lparr>files := h\<rparr>))"

definition upd_filedesc :: "ptr \<Rightarrow> (filedesc \<Rightarrow> filedesc) \<Rightarrow> ufs \<Rightarrow> ufs res" where
  "upd_filedesc p f s = bindR (store (filedescs s) p f) (\<lambda>h. ret (s\<lparr>filedescs := h\<rparr>))"

definition free_block :: "ptr \<Rightarrow> ufs \<Rightarrow> ufs res" where
  "free_block p s = bindR (release (blocks s) p) (\<lambda>h. ret (s\<lparr>blocks := h\<rparr>))"

definition free_file :: "ptr \<Rightarrow> ufs \<Rightarrow> ufs res" where
  "free_file p s = bindR (release (files s) p) (\<lambda>h. ret (s\<lparr>files := h\<rparr>))"

definition free_filedesc :: "ptr \<Rightarrow> ufs \<Rightarrow> ufs res" where
  "free_filedesc p s = bindR (release (filedescs s) p) (\<lambda>h. ret (s\<lparr>filedescs := h\<rparr>))"

text \<open>\<open>memcpy\<close> into and out of a block's buffer, with the bounds of both sides.\<close>

definition mem_put :: "byte option list \<Rightarrow> int \<Rightarrow> byte list \<Rightarrow> int \<Rightarrow> int \<Rightarrow> byte option list res" where
  "mem_put mem i src j n =
     (if 0 \<le> n \<and> 0 \<le> i \<and> i + n \<le> int (length mem) \<and> 0 \<le> j \<and> j + n \<le> int (length src)
      then ret (splice_at (nat i) (map Some (take (nat n) (drop (nat j) src))) mem)
      else fail OutOfBounds)"

definition mem_get :: "byte option list \<Rightarrow> int \<Rightarrow> int \<Rightarrow> byte option list res" where
  "mem_get mem i n =
     (if 0 \<le> n \<and> 0 \<le> i \<and> i + n \<le> int (length mem)
      then ret (take (nat n) (drop (nat i) mem))
      else fail OutOfBounds)"

text \<open>The descriptor array.\<close>

definition fd_read :: "ufs \<Rightarrow> int \<Rightarrow> ptr res" where
  "fd_read s i = (case file_descriptors s of
      FdNull \<Rightarrow> fail NullDeref
    | FdFreed \<Rightarrow> fail UseAfterFree
    | FdArray xs \<Rightarrow> if 0 \<le> i \<and> i < int (length xs) then ret (xs ! nat i) else fail OutOfBounds)"

definition fd_write :: "ufs \<Rightarrow> int \<Rightarrow> ptr \<Rightarrow> ufs res" where
  "fd_write s i p = (case file_descriptors s of
      FdNull \<Rightarrow> fail NullDeref
    | FdFreed \<Rightarrow> fail UseAfterFree
    | FdArray xs \<Rightarrow>
        if 0 \<le> i \<and> i < int (length xs)
        then ret (s\<lparr>file_descriptors := FdArray (xs[nat i := p])\<rparr>) else fail OutOfBounds)"

section \<open>Internal functions\<close>

partial_function (option) search_from :: "string \<Rightarrow> ufs \<Rightarrow> ptr \<Rightarrow> ptr res" where
  "search_from filename s f =
     bindR (is_null f) (\<lambda>z.
     if z then ret Null
     else bindR (load (files s) f) (\<lambda>fi.
       if f_name fi = filename then ret f else search_from filename s (f_next fi)))"

definition search_file :: "string \<Rightarrow> ufs \<Rightarrow> ptr res" where
  "search_file filename s = search_from filename s (file_list s)"

partial_function (option) last_file_from :: "ufs \<Rightarrow> ptr \<Rightarrow> ptr res" where
  "last_file_from s f =
     bindR (load (files s) f) (\<lambda>fi.
     bindR (is_null (f_next fi)) (\<lambda>z.
     if z then ret f else last_file_from s (f_next fi)))"

definition append_file :: "ptr \<Rightarrow> ufs \<Rightarrow> ufs res" where
  "append_file new_file s =
     bindR (is_null (file_list s)) (\<lambda>z.
     if z then ret (s\<lparr>file_list := new_file\<rparr>)
     else bindR (last_file_from s (file_list s)) (\<lambda>f.
       bindR (upd_file f (\<lambda>x. x\<lparr>f_next := new_file\<rparr>) s) (\<lambda>s.
       upd_file new_file (\<lambda>x. x\<lparr>f_prev := f\<rparr>) s)))"

fun find_free_fd :: "ufs \<Rightarrow> int list \<Rightarrow> int res" where
  "find_free_fd s [] = ret (-1)"
| "find_free_fd s (i # is) =
     bindR (fd_read s i) (\<lambda>p.
     bindR (is_null p) (\<lambda>z.
     if z then ret i else find_free_fd s is))"

definition get_fd :: "ufs \<Rightarrow> (int \<times> ufs) res" where
  "get_fd s =
     bindR (case file_descriptors s of
        FdNull \<Rightarrow>
          ret (0, s\<lparr>fd_capacity := 10, file_descriptors := FdArray (replicate 10 (heap_fill s))\<rparr>)
      | FdFreed \<Rightarrow> fail UseAfterFree
      | FdArray xs \<Rightarrow>
          if fd_count s = fd_capacity s
          then ret (fd_count s, s\<lparr>fd_capacity := fd_capacity s * 2,
                 file_descriptors := FdArray (xs @ replicate (length xs) (heap_fill s))\<rparr>)
          else bindR (find_free_fd s [0..fd_capacity s - 1]) (\<lambda>fd. ret (fd, s)))
     (\<lambda>(fd, s). ret (fd, s\<lparr>fd_count := fd_count s + 1\<rparr>))"

definition create_block :: "ptr \<Rightarrow> ufs \<Rightarrow> (ptr \<times> ufs) res" where
  "create_block f s =
     bindR (is_null f) (\<lambda>z.
     if z then ret (Null, s)
     else
       let (new_block, s) = malloc_block \<lparr>memory = replicate BLOCK_SIZE None, occupied = 0,
             b_next = Null, b_prev = heap_fill s\<rparr> s
       in bindR (load (files s) f) (\<lambda>fi.
          bindR (is_null (last_block fi)) (\<lambda>e.
          if e
          then bindR (upd_file f (\<lambda>x. x\<lparr>block_list := new_block, last_block := new_block\<rparr>) s)
                 (\<lambda>s. ret (new_block, s))
          else bindR (upd_block (last_block fi) (\<lambda>x. x\<lparr>b_next := new_block\<rparr>) s) (\<lambda>s.
               bindR (upd_block new_block (\<lambda>x. x\<lparr>b_prev := last_block fi\<rparr>) s) (\<lambda>s.
               bindR (upd_file f (\<lambda>x. x\<lparr>last_block := new_block\<rparr>) s) (\<lambda>s.
               ret (new_block, s)))))))"

definition is_valid_fd :: "ufs \<Rightarrow> int \<Rightarrow> bool res" where
  "is_valid_fd s fd =
     (if fd < 0 \<or> fd \<ge> fd_capacity s then ret False
      else bindR (fd_read s fd) (\<lambda>p.
           bindR (is_null p) (\<lambda>z.
           if z then ret False
           else bindR (load (filedescs s) p) (\<lambda>d.
                bindR (is_null (fd_file d)) (\<lambda>zf.
                ret (\<not> (zf \<or> is_occupied d = False)))))))"

partial_function (option) free_blocks :: "ufs \<Rightarrow> ptr \<Rightarrow> ufs res" where
  "free_blocks s block =
     bindR (is_null block) (\<lambda>z.
     if z then ret s
     else bindR (load (blocks s) block) (\<lambda>b.
          bindR (free_block block s) (\<lambda>s.
          free_blocks s (b_next b))))"

definition free_file_memory :: "ptr \<Rightarrow> ufs \<Rightarrow> ufs res" where
  "free_file_memory f s =
     bindR (load (files s) f) (\<lambda>fi.
     bindR (free_blocks s (block_list fi)) (\<lambda>s.
     upd_file f (\<lambda>x. x\<lparr>bytes_left := MAX_FILE_SIZE, block_list := Null, last_block := Null\<rparr>) s))"

section \<open>Interface functions\<close>

definition open_can_read :: "flags \<Rightarrow> bool" where
  "open_can_read flags \<longleftrightarrow> flags = 0 \<or> is_permitted flags UFS_CREATE
     \<or> is_permitted flags UFS_READ_ONLY \<or> is_permitted flags UFS_READ_WRITE"

definition open_can_write :: "flags \<Rightarrow> bool" where
  "open_can_write flags \<longleftrightarrow> flags = 0 \<or> is_permitted flags UFS_CREATE
     \<or> is_permitted flags UFS_WRITE_ONLY \<or> is_permitted flags UFS_READ_WRITE"

definition open_fd :: "ptr \<Rightarrow> flags \<Rightarrow> ufs \<Rightarrow> (int \<times> ufs) res" where
  "open_fd f flags s =
     bindR (upd_file f (\<lambda>x. x\<lparr>refs := refs x + 1\<rparr>) s) (\<lambda>s.
     bindR (get_fd s) (\<lambda>(fd, s).
     let (d, s) = malloc_filedesc \<lparr>fd_file = f, is_occupied = True, fd_offset = 0,
           can_read = open_can_read flags, can_write = open_can_write flags\<rparr> s
     in bindR (fd_write s fd d) (\<lambda>s. ret (fd, s))))"

definition ufs_open :: "string \<Rightarrow> flags \<Rightarrow> ufs \<Rightarrow> (int \<times> ufs) res" where
  "ufs_open filename flags s =
     bindR (search_file filename s) (\<lambda>f.
     bindR (is_null f) (\<lambda>z.
     if z then
       if is_permitted flags UFS_CREATE
       then let (f, s) = malloc_file \<lparr>block_list = Null, last_block = Null, refs = 0,
                  f_name = filename, f_next = Null, f_prev = Null,
                  bytes_left = MAX_FILE_SIZE, in_list = True\<rparr> s
            in bindR (append_file f s) (\<lambda>s. open_fd f flags s)
       else ufs_fail UFS_ERR_NO_FILE s
     else open_fd f flags s))"

partial_function (option) write_loop ::
  "ptr \<Rightarrow> byte list \<Rightarrow> ufs \<Rightarrow> ptr \<Rightarrow> int \<Rightarrow> int \<Rightarrow> size_t \<Rightarrow> (int \<times> ufs) res" where
  "write_loop f buf s block offset buf_offset sz =
     (if sz = 0 then ret (buf_offset, s)
      else bindR (is_null block) (\<lambda>z.
           bindR (if z then bindR (create_block f s) (\<lambda>(b, s). ret (b, 0, s))
                  else ret (block, offset, s)) (\<lambda>(block, offset, s).
           bindR (load (blocks s) block) (\<lambda>b.
           let block_offset = c_min offset (occupied b) in
           if block_offset = BLOCK_SIZE
           then write_loop f buf s (b_next b) (offset - BLOCK_SIZE) buf_offset sz
           else
             let write_bytes = c_min (sint sz) (BLOCK_SIZE - block_offset) in
             bindR (mem_put (memory b) block_offset buf buf_offset write_bytes) (\<lambda>mem.
             bindR (upd_block block (\<lambda>x. x\<lparr>memory := mem,
                      occupied := c_max (block_offset + write_bytes) (occupied x)\<rparr>) s) (\<lambda>s.
             write_loop f buf s (b_next b) 0 (buf_offset + write_bytes)
               (sz - word_of_int write_bytes)))))))"

partial_function (option) last_block_from :: "ufs \<Rightarrow> ptr \<Rightarrow> ptr res" where
  "last_block_from s block =
     bindR (load (blocks s) block) (\<lambda>b.
     bindR (is_null (b_next b)) (\<lambda>z.
     if z then ret block else last_block_from s (b_next b)))"

definition ufs_write :: "int \<Rightarrow> byte list \<Rightarrow> size_t \<Rightarrow> ufs \<Rightarrow> (int \<times> ufs) res" where
  "ufs_write fd buf sz s =
     bindR (is_valid_fd s fd) (\<lambda>v.
     if v = False then ufs_fail UFS_ERR_NO_FILE s
     else bindR (fd_read s fd) (\<lambda>dp.
       bindR (load (filedescs s) dp) (\<lambda>d.
       if can_write d = False then ufs_fail UFS_ERR_NO_PERMISSION s
       else
         let f = fd_file d in
         bindR (load (files s) f) (\<lambda>fi.
         if sz > bytes_left fi then ufs_fail UFS_ERR_NO_MEM s
         else
           bindR (write_loop f buf s (block_list fi) (fd_offset d) 0 sz) (\<lambda>(buf_offset, s).
           bindR (load (files s) f) (\<lambda>fi.
           bindR (last_block_from s (block_list fi)) (\<lambda>block.
           bindR (upd_filedesc dp (\<lambda>x. x\<lparr>fd_offset := fd_offset x + buf_offset\<rparr>) s) (\<lambda>s.
           bindR (upd_file f (\<lambda>x. x\<lparr>bytes_left := bytes_left x - word_of_int buf_offset,
                                     last_block := block\<rparr>) s) (\<lambda>s.
           ret (buf_offset, s))))))))))"

partial_function (option) read_loop ::
  "ufs \<Rightarrow> ptr \<Rightarrow> int \<Rightarrow> int \<Rightarrow> byte option list \<Rightarrow> size_t \<Rightarrow> (int \<times> byte option list) res" where
  "read_loop s block offset bytes_read buf sz =
     bindR (is_null block) (\<lambda>z.
     if z \<or> sz = 0 then ret (bytes_read, buf)
     else bindR (load (blocks s) block) (\<lambda>b.
       let block_offset = c_min offset BLOCK_SIZE in
       if block_offset = BLOCK_SIZE
       then read_loop s (b_next b) (offset - BLOCK_SIZE) bytes_read buf sz
       else
         let bytes_to_read = c_min (occupied b - block_offset) (sint sz) in
         if bytes_to_read < 0 then ret (bytes_read, buf)
         else bindR (mem_get (memory b) block_offset bytes_to_read) (\<lambda>bytes.
              read_loop s (b_next b) 0 (bytes_read + bytes_to_read) (buf @ bytes)
                (sz - word_of_int bytes_to_read))))"

definition ufs_read :: "int \<Rightarrow> size_t \<Rightarrow> ufs \<Rightarrow> (int \<times> byte option list \<times> ufs) res" where
  "ufs_read fd sz s =
     bindR (is_valid_fd s fd) (\<lambda>v.
     if v = False then ret (-1, [], s\<lparr>error_code := UFS_ERR_NO_FILE\<rparr>)
     else bindR (fd_read s fd) (\<lambda>dp.
       bindR (load (filedescs s) dp) (\<lambda>d.
       if can_read d = False then ret (-1, [], s\<lparr>error_code := UFS_ERR_NO_PERMISSION\<rparr>)
       else
         bindR (load (files s) (fd_file d)) (\<lambda>fi.
         bindR (read_loop s (block_list fi) (fd_offset d) 0 [] sz) (\<lambda>(bytes_read, buf).
         bindR (upd_filedesc dp (\<lambda>x. x\<lparr>fd_offset := fd_offset x + bytes_read\<rparr>) s) (\<lambda>s.
         ret (bytes_read, buf, s)))))))"

definition ufs_close :: "int \<Rightarrow> ufs \<Rightarrow> (int \<times> ufs) res" where
  "ufs_close fd s =
     bindR (is_valid_fd s fd) (\<lambda>v.
     if v = False then ufs_fail UFS_ERR_NO_FILE s
     else bindR (fd_read s fd) (\<lambda>dp.
       bindR (load (filedescs s) dp) (\<lambda>d.
       let f = fd_file d in
       bindR (upd_file f (\<lambda>x. x\<lparr>refs := refs x - 1\<rparr>) s) (\<lambda>s.
       bindR (load (files s) f) (\<lambda>fi.
       bindR (if refs fi = 0 \<and> in_list fi = False
              then bindR (free_file_memory f s) (\<lambda>s. free_file f s)
              else ret s) (\<lambda>s.
       bindR (free_filedesc dp s) (\<lambda>s.
       bindR (fd_write s fd Null) (\<lambda>s.
       ret (0, s\<lparr>fd_count := fd_count s - 1\<rparr>)))))))))"

definition ufs_delete :: "string \<Rightarrow> ufs \<Rightarrow> (int \<times> ufs) res" where
  "ufs_delete filename s =
     bindR (search_file filename s) (\<lambda>f.
     bindR (is_null f) (\<lambda>z.
     if z then ufs_fail UFS_ERR_NO_FILE s
     else bindR (load (files s) f) (\<lambda>fi.
       let prev_file = f_prev fi; next_file = f_next fi in
       bindR (is_null prev_file) (\<lambda>zp.
       bindR (is_null next_file) (\<lambda>zn.
       bindR (if zp
              then
                let s = s\<lparr>file_list := next_file\<rparr> in
                if zn then ret s else upd_file next_file (\<lambda>x. x\<lparr>f_prev := Null\<rparr>) s
              else
                bindR (upd_file prev_file (\<lambda>x. x\<lparr>f_next := next_file\<rparr>) s) (\<lambda>s.
                if zn then ret s else upd_file next_file (\<lambda>x. x\<lparr>f_prev := prev_file\<rparr>) s)) (\<lambda>s.
       bindR (upd_file f (\<lambda>x. x\<lparr>in_list := False\<rparr>) s) (\<lambda>s.
       bindR (load (files s) f) (\<lambda>fi.
       bindR (if refs fi = 0
              then bindR (free_file_memory f s) (\<lambda>s. free_file f s)
              else ret s) (\<lambda>s.
       ret (0, s))))))))))"

partial_function (option) resize_loop :: "ptr \<Rightarrow> ufs \<Rightarrow> ptr \<Rightarrow> size_t \<Rightarrow> (ptr \<times> ufs) res" where
  "resize_loop f s block new_size =
     (if new_size = 0 then ret (block, s)
      else bindR (is_null block) (\<lambda>z.
        if z then
          bindR (create_block f s) (\<lambda>(block, s).
          bindR (load (blocks s) block) (\<lambda>b.
          resize_loop f s (b_next b) (new_size - BLOCK_SIZE)))
        else bindR (load (blocks s) block) (\<lambda>b.
          if new_size \<ge> BLOCK_SIZE then resize_loop f s (b_next b) (new_size - BLOCK_SIZE)
          else if new_size < word_of_int (occupied b) then
            bindR (mem_get (memory b) 0 (uint new_size)) (\<lambda>kept.
            bindR (upd_block block (\<lambda>x. x\<lparr>memory := kept @ replicate (BLOCK_SIZE - unat new_size) None,
                     occupied := uint new_size\<rparr>) s) (\<lambda>s.
            resize_loop f s (b_next b) 0))
          else resize_loop f s (b_next b) new_size)))"

partial_function (option) recount :: "ptr \<Rightarrow> ufs \<Rightarrow> ptr \<Rightarrow> size_t \<Rightarrow> (size_t \<times> ufs) res" where
  "recount f s block new_file_size =
     bindR (is_null block) (\<lambda>z.
     if z then ret (new_file_size, s)
     else bindR (load (blocks s) block) (\<lambda>b.
          bindR (upd_file f (\<lambda>x. x\<lparr>last_block := block\<rparr>) s) (\<lambda>s.
          recount f s (b_next b) (new_file_size + word_of_int (occupied b)))))"

definition ufs_resize :: "int \<Rightarrow> size_t \<Rightarrow> ufs \<Rightarrow> (int \<times> ufs) res" where
  "ufs_resize fd new_size s =
     bindR (is_valid_fd s fd) (\<lambda>v.
     if v = False then ufs_fail UFS_ERR_NO_FILE s
     else bindR (fd_read s fd) (\<lambda>dp.
       bindR (load (filedescs s) dp) (\<lambda>d.
       if can_write d = False then ufs_fail UFS_ERR_NO_PERMISSION s
       else if new_size > MAX_FILE_SIZE then ufs_fail UFS_ERR_NO_MEM s
       else
         let f = fd_file d in
         bindR (load (files s) f) (\<lambda>fi.
         bindR (resize_loop f s (block_list fi) new_size) (\<lambda>(block, s).
         bindR (bindR (is_null block) (\<lambda>z.
                if z then ret s
                else bindR (load (blocks s) block) (\<lambda>b.
                  bindR (is_null (b_prev b)) (\<lambda>zp.
                  if zp then ret s
                  else bindR (upd_file f (\<lambda>x. x\<lparr>last_block := b_prev b\<rparr>) s) (\<lambda>s.
                       upd_block (b_prev b) (\<lambda>x. x\<lparr>b_next := Null\<rparr>) s))))) (\<lambda>s.
         bindR (free_blocks s block) (\<lambda>s.
         bindR (load (files s) f) (\<lambda>fi.
         bindR (recount f s (block_list fi) 0) (\<lambda>(new_file_size, s).
         bindR (upd_file f (\<lambda>x. x\<lparr>bytes_left := MAX_FILE_SIZE - new_file_size\<rparr>) s) (\<lambda>s.
         ret (0, s)))))))))))"

partial_function (option) destroy_files :: "ufs \<Rightarrow> ptr \<Rightarrow> ufs res" where
  "destroy_files s f =
     bindR (is_null f) (\<lambda>z.
     if z then ret s
     else bindR (load (files s) f) (\<lambda>fi.
          bindR (free_file_memory f s) (\<lambda>s.
          bindR (free_file f s) (\<lambda>s.
          destroy_files s (f_next fi)))))"

fun destroy_fds :: "ufs \<Rightarrow> int list \<Rightarrow> ufs res" where
  "destroy_fds s [] = ret s"
| "destroy_fds s (i # is) =
     bindR (fd_read s i) (\<lambda>dp.
     bindR (is_null dp) (\<lambda>z.
     if z then destroy_fds s is
     else bindR (load (filedescs s) dp) (\<lambda>d.
       bindR (is_null (fd_file d)) (\<lambda>zf.
       bindR (if zf then ret s
              else bindR (load (files s) (fd_file d)) (\<lambda>fi.
                   if in_list fi = False
                   then bindR (free_file_memory (fd_file d) s) (\<lambda>s. free_file (fd_file d) s)
                   else ret s)) (\<lambda>s.
       bindR (free_filedesc dp s) (\<lambda>s.
       bindR (fd_write s i Null) (\<lambda>s.
       destroy_fds s is)))))))"

definition ufs_destroy :: "ufs \<Rightarrow> ufs res" where
  "ufs_destroy s =
     bindR (destroy_files s (file_list s)) (\<lambda>s.
     bindR (destroy_fds s [0..fd_capacity s - 1]) (\<lambda>s.
     bindR (free_file (file_list s) s) (\<lambda>s.
     case file_descriptors s of
       FdNull \<Rightarrow> ret s
     | FdArray xs \<Rightarrow> ret (s\<lparr>file_descriptors := FdFreed\<rparr>)
     | FdFreed \<Rightarrow> fail DoubleFree)))"

text \<open>The loops evaluate by their unfolding equations.\<close>

lemmas loop_unfolds [code] =
  search_from.simps
  last_file_from.simps
  free_blocks.simps
  write_loop.simps
  last_block_from.simps
  read_loop.simps
  resize_loop.simps
  recount.simps
  destroy_files.simps

end
