(* ===== verification/Ufs_Blocks.thy ===== *)
theory Ufs_Blocks
  imports Ufs_Model
begin

text \<open>
  One file's block list: what a chain of blocks contains, which chains the code builds, and
  what the loops over them (\<open>create_block\<close>, the read, write, resize, recount and free loops)
  do, on every chain the code can build.
\<close>

interpretation blk: dnode b_next b_prev "\<lambda>p b. b\<lparr>b_next := p\<rparr>" "\<lambda>p b. b\<lparr>b_prev := p\<rparr>"
  by unfold_locales simp_all

section \<open>The bytes of a chain\<close>

abbreviation block_at :: "ufs \<Rightarrow> nat \<Rightarrow> block" where
  "block_at s a \<equiv> the (blocks s a)"

text \<open>A block holds the first \<open>occupied\<close> bytes of its buffer.\<close>

definition block_bytes :: "block \<Rightarrow> byte list" where
  "block_bytes b = map the (take (nat (occupied b)) (memory b))"

definition bytes_of :: "ufs \<Rightarrow> nat list \<Rightarrow> byte list" where
  "bytes_of s bs = concat (map (\<lambda>a. block_bytes (block_at s a)) bs)"

definition wf_block :: "block \<Rightarrow> bool" where
  "wf_block b \<longleftrightarrow> length (memory b) = BLOCK_SIZE \<and> 0 \<le> occupied b \<and> occupied b \<le> BLOCK_SIZE
     \<and> None \<notin> set (take (nat (occupied b)) (memory b))"

text \<open>
  The chains the code builds: full blocks, then at most one partly filled block, then empty
  blocks (a resize to a larger size appends empty blocks).
\<close>

fun packed :: "block list \<Rightarrow> bool" where
  "packed [] \<longleftrightarrow> True"
| "packed (b # bs) \<longleftrightarrow> wf_block b \<and> (occupied b < BLOCK_SIZE \<longrightarrow> (\<forall>c \<in> set bs. occupied c = 0))
     \<and> packed bs"

abbreviation packed_at :: "ufs \<Rightarrow> nat list \<Rightarrow> bool" where
  "packed_at s bs \<equiv> packed (map (block_at s) bs)"

lemma bytes_of_simps [simp]:
  "bytes_of s [] = []"
  "bytes_of s (a # bs) = block_bytes (block_at s a) @ bytes_of s bs"
  "bytes_of s (as @ bs) = bytes_of s as @ bytes_of s bs"
  by (simp_all add: bytes_of_def)

lemma length_block_bytes: "wf_block b \<Longrightarrow> length (block_bytes b) = nat (occupied b)"
  by (auto simp: block_bytes_def wf_block_def)

lemma block_bytes_empty: "occupied b = 0 \<Longrightarrow> block_bytes b = []"
  by (simp add: block_bytes_def)

lemma map_Some_block_bytes:
  "wf_block b \<Longrightarrow> map Some (block_bytes b) = take (nat (occupied b)) (memory b)"
  unfolding block_bytes_def wf_block_def map_map
  by (rule map_idI) (metis comp_apply option.exhaust_sel)

lemma bytes_of_cong: "(\<And>a. a \<in> set bs \<Longrightarrow> blocks s a = blocks s' a) \<Longrightarrow> bytes_of s bs = bytes_of s' bs"
  unfolding bytes_of_def by (metis (mono_tags, lifting) map_eq_conv)

lemma packed_at_cong:
  "(\<And>a. a \<in> set bs \<Longrightarrow> blocks s a = blocks s' a) \<Longrightarrow> packed_at s bs \<longleftrightarrow> packed_at s' bs"
  by (metis (mono_tags, lifting) map_eq_conv)

lemma packed_wf: "packed bs \<Longrightarrow> b \<in> set bs \<Longrightarrow> wf_block b"
  by (induction bs) auto

lemma packed_append:
  "packed (as @ bs) \<longleftrightarrow> packed as \<and> packed bs
     \<and> ((\<exists>a \<in> set as. occupied a < BLOCK_SIZE) \<longrightarrow> (\<forall>c \<in> set bs. occupied c = 0))"
proof (induction as)
  case (Cons a as)
  then show ?case by (simp add: ball_Un) blast
qed simp

lemma bytes_of_empty: "\<forall>a \<in> set bs. occupied (block_at s a) = 0 \<Longrightarrow> bytes_of s bs = []"
  by (induction bs) (auto simp: block_bytes_empty)

lemma bytes_of_partial:
  "packed_at s (a # bs) \<Longrightarrow> occupied (block_at s a) < BLOCK_SIZE \<Longrightarrow> bytes_of s bs = []"
  by (rule bytes_of_empty) simp

section \<open>Sizes\<close>

text \<open>The loops count \<open>size_t\<close> words down; below \<open>2 ^ 63\<close> the words behave like naturals.\<close>

lemma size_of_nat:
  assumes "k < 2 ^ 63"
  shows "sint (word_of_nat k :: size_t) = int k" "unat (word_of_nat k :: size_t) = k"
    "(word_of_nat k :: size_t) = 0 \<longleftrightarrow> k = 0"
proof -
  show u: "unat (word_of_nat k :: size_t) = k"
    using assms by (simp add: unat_of_nat)
  show "sint (word_of_nat k :: size_t) = int k"
    using assms u by (simp add: sint_size_small)
  show "(word_of_nat k :: size_t) = 0 \<longleftrightarrow> k = 0"
  proof
    assume "(word_of_nat k :: size_t) = 0"
    then have "unat (word_of_nat k :: size_t) = 0" by (simp only: unat_0)
    with u show "k = 0" by simp
  qed simp
qed

lemma size_of_nat_diff:
  "j \<le> k \<Longrightarrow> (word_of_nat k :: size_t) - word_of_int (int j) = word_of_nat (k - j)"
  by (simp add: of_nat_diff)

lemma c_min_eq: "c_min a b = min a b"
  by (simp add: c_min_def min_def)

lemma c_max_eq: "c_max a b = max a b"
  by (simp add: c_max_def max_def)

section \<open>Reading\<close>

lemma mem_get_block:
  assumes "wf_block b" "i + n \<le> nat (occupied b)"
  shows "mem_get (memory b) (int i) (int n) = ret (map Some (take n (drop i (block_bytes b))))"
proof -
  have "take n (drop i (memory b)) = take n (drop i (take (nat (occupied b)) (memory b)))"
    using assms(2) by (simp add: take_drop min_def)
  also have "\<dots> = map Some (take n (drop i (block_bytes b)))"
    using assms(1) by (simp add: map_Some_block_bytes flip: take_map drop_map)
  finally show ?thesis
    using assms by (auto simp: mem_get_def wf_block_def)
qed

lemma read_loop_ok:
  assumes "chain b_next b_prev (blocks s) bk p bs Null" "packed_at s bs" "k < 2 ^ 63"
  shows "read_loop s p (int off) n buf (word_of_nat k) =
    ret (n + int (length (take k (drop off (bytes_of s bs)))),
         buf @ map Some (take k (drop off (bytes_of s bs))))"
  using assms
proof (induction bs arbitrary: bk p off n buf k)
  case Nil
  then show ?case by (subst read_loop.simps) simp
next
  case (Cons a bs)
  from Cons.prems(1) obtain b where p: "p = Ptr a" and b: "blocks s a = Some b"
    and ch: "chain b_next b_prev (blocks s) (Ptr a) (b_next b) bs Null" by auto
  from Cons.prems(2) b have wf: "wf_block b" and pk: "packed_at s bs"
    and empty: "occupied b < BLOCK_SIZE \<Longrightarrow> bytes_of s bs = []"
    using bytes_of_partial [OF Cons.prems(2)] by auto
  note len = length_block_bytes [OF wf]
  have occ: "0 \<le> occupied b" "occupied b \<le> BLOCK_SIZE" using wf by (auto simp: wf_block_def)
  note IH = Cons.IH [OF ch pk]
  note sz = size_of_nat [OF Cons.prems(3)]
  show ?case
  proof (cases "k = 0")
    case True
    then show ?thesis by (subst read_loop.simps) (simp add: p)
  next
    case k: False
    show ?thesis
    proof (cases "off \<ge> BLOCK_SIZE")
      case True
      have "drop off (block_bytes b @ bytes_of s bs) = drop (off - BLOCK_SIZE) (bytes_of s bs)"
        using True len occ empty by (cases "occupied b < BLOCK_SIZE") auto
      then show ?thesis
        using True k sz p b IH [OF Cons.prems(3), of "off - BLOCK_SIZE"]
        by (subst read_loop.simps) (simp add: c_min_eq Let_def of_nat_diff)
    next
      case off: False
      show ?thesis
      proof (cases "off \<le> nat (occupied b)")
        case False
        then have "occupied b < int off" by linarith
        then show ?thesis
          using False off k sz p b len empty occ
          by (subst read_loop.simps) (simp add: c_min_eq Let_def)
      next
        case True
        let ?n = "min (nat (occupied b) - off) k"
        have n: "c_min (occupied b - c_min (int off) BLOCK_SIZE) (sint (word_of_nat k :: size_t)) = int ?n"
          using True off occ sz by (simp add: c_min_eq)
        have out: "take k (drop off (block_bytes b @ bytes_of s bs)) =
            take ?n (drop off (block_bytes b)) @ take (k - ?n) (bytes_of s bs)"
          using True len by (simp add: min_def)
        have mg: "mem_get (memory b) (int off) (int ?n) =
            ret (map Some (take ?n (drop off (block_bytes b))))"
          by (rule mem_get_block [OF wf]) (use True in simp)
        have "read_loop s p (int off) n buf (word_of_nat k) =
            read_loop s (b_next b) (int 0) (n + int ?n)
              (buf @ map Some (take ?n (drop off (block_bytes b)))) (word_of_nat (k - ?n))"
          using off k sz p b n mg size_of_nat_diff [of ?n k]
          by (subst read_loop.simps) (simp add: Let_def c_min_eq)
        also have "\<dots> = ret (n + int ?n + int (length (take (k - ?n) (bytes_of s bs))),
            (buf @ map Some (take ?n (drop off (block_bytes b)))) @
              map Some (take (k - ?n) (bytes_of s bs)))"
          using IH [of "k - ?n" 0] Cons.prems(3) by simp
        finally show ?thesis
          using b out len True by simp
      qed
    qed
  qed
qed

text \<open>
  A size of \<open>2 ^ 63\<close> or more is negative as a \<open>long long\<close>: the comparison \<open>bytes_to_read < 0\<close>
  then stops the loop at once, whatever the file holds.
\<close>

lemma read_loop_huge:
  assumes "chain b_next b_prev (blocks s) bk p bs Null" "sint sz < 0"
  shows "read_loop s p (int off) n buf sz = ret (n, buf)"
  using assms
proof (induction bs arbitrary: bk p off)
  case Nil
  then show ?case by (subst read_loop.simps) simp
next
  case (Cons a bs)
  from Cons.prems(1) obtain b where p: "p = Ptr a" and b: "blocks s a = Some b"
    and ch: "chain b_next b_prev (blocks s) (Ptr a) (b_next b) bs Null" by auto
  have "sz \<noteq> 0" using Cons.prems(2) by auto
  then show ?case
    using p b Cons.IH [OF ch Cons.prems(2), of "off - BLOCK_SIZE"] Cons.prems(2)
    by (subst read_loop.simps) (auto simp: c_min_def Let_def of_nat_diff)
qed

section \<open>One file and its blocks\<close>

definition fresh :: "ufs \<Rightarrow> bool" where
  "fresh s \<longleftrightarrow> (\<forall>a \<ge> next_addr s. blocks s a = None \<and> files s a = None \<and> filedescs s a = None)"

text \<open>The object at \<open>f\<close> is a file whose block list is the chain \<open>bs\<close>.\<close>

definition file_links :: "ufs \<Rightarrow> nat \<Rightarrow> nat list \<Rightarrow> bool" where
  "file_links s f bs \<longleftrightarrow>
     (\<exists>fi. files s f = Some fi
       \<and> chain b_next b_prev (blocks s) (heap_fill s) (block_list fi) bs Null
       \<and> last_block fi = last_ptr Null bs)"

definition file_at :: "ufs \<Rightarrow> nat \<Rightarrow> nat list \<Rightarrow> bool" where
  "file_at s f bs \<longleftrightarrow> packed_at s bs \<and> file_links s f bs"

lemmas file_at_defs = file_at_def file_links_def

text \<open>
  \<open>file_step s s' f bs ns\<close>: the step from \<open>s\<close> to \<open>s'\<close> changes nothing but the links and blocks
  of the file \<open>f\<close>: it writes at most to the blocks \<open>bs\<close> and to newly allocated blocks \<open>ns\<close>.
\<close>

definition file_step :: "ufs \<Rightarrow> ufs \<Rightarrow> nat \<Rightarrow> nat list \<Rightarrow> nat list \<Rightarrow> bool" where
  "file_step s s' f bs ns \<longleftrightarrow>
     (\<exists>fi p q. files s f = Some fi \<and>
        s' = s\<lparr>blocks := blocks s', next_addr := next_addr s',
               files := (files s)(f \<mapsto> fi\<lparr>block_list := p, last_block := q\<rparr>)\<rparr>)
     \<and> (\<forall>a. a \<notin> set bs \<union> set ns \<longrightarrow> blocks s' a = blocks s a)
     \<and> (\<forall>n \<in> set ns. next_addr s \<le> n \<and> n < next_addr s')
     \<and> next_addr s \<le> next_addr s'"

lemma file_stepI:
  assumes "files s f = Some fi"
    "s' = s\<lparr>blocks := h, next_addr := m, files := (files s)(f \<mapsto> fi')\<rparr>"
    "fi' = fi\<lparr>block_list := p, last_block := q\<rparr>"
    "\<And>a. a \<notin> set bs \<Longrightarrow> a \<notin> set ns \<Longrightarrow> h a = blocks s a"
    "\<And>n. n \<in> set ns \<Longrightarrow> next_addr s \<le> n \<and> n < m" "next_addr s \<le> m"
  shows "file_step s s' f bs ns"
  using assms unfolding file_step_def by auto

lemma file_step_trans:
  assumes "file_step s s1 f bs ns" "file_step s1 s2 f bs' ns'" "set bs' \<subseteq> set bs \<union> set ns"
  shows "file_step s s2 f bs (ns @ ns')"
proof -
  from assms(1) obtain fi p q where 1: "files s f = Some fi"
    "s1 = s\<lparr>blocks := blocks s1, next_addr := next_addr s1,
            files := (files s)(f \<mapsto> fi\<lparr>block_list := p, last_block := q\<rparr>)\<rparr>"
    by (auto simp: file_step_def)
  from assms(2) obtain fi' p' q' where 2: "files s1 f = Some fi'"
    "s2 = s1\<lparr>blocks := blocks s2, next_addr := next_addr s2,
            files := (files s1)(f \<mapsto> fi'\<lparr>block_list := p', last_block := q'\<rparr>)\<rparr>"
    by (auto simp: file_step_def)
  have fs: "files s1 = (files s)(f \<mapsto> fi\<lparr>block_list := p, last_block := q\<rparr>)"
    by (subst 1(2)) simp
  have "s2 = s\<lparr>blocks := blocks s2, next_addr := next_addr s2,
            files := (files s)(f \<mapsto> fi\<lparr>block_list := p', last_block := q'\<rparr>)\<rparr>"
  proof -
    have upd: "s1\<lparr>blocks := B, next_addr := N, files := F\<rparr> = s\<lparr>blocks := B, next_addr := N, files := F\<rparr>"
      for B N F by (subst 1(2)) simp
    have "fi' = fi\<lparr>block_list := p, last_block := q\<rparr>"
      using 2(1) fs by simp
    with 2(2) show ?thesis unfolding upd fs by simp
  qed
  then show ?thesis
    using assms 1(1) unfolding file_step_def by fastforce
qed

lemma file_step_frame:
  assumes "file_step s s' f bs ns"
  shows "filedescs s' = filedescs s" "file_list s' = file_list s" "heap_fill s' = heap_fill s"
    "file_descriptors s' = file_descriptors s" "fd_count s' = fd_count s"
    "fd_capacity s' = fd_capacity s" "error_code s' = error_code s"
    "g \<noteq> f \<Longrightarrow> files s' g = files s g"
    "a \<notin> set bs \<Longrightarrow> a \<notin> set ns \<Longrightarrow> blocks s' a = blocks s a"
    "next_addr s \<le> next_addr s'"
proof -
  from assms obtain fi p q where s': "s' = s\<lparr>blocks := blocks s', next_addr := next_addr s',
            files := (files s)(f \<mapsto> fi\<lparr>block_list := p, last_block := q\<rparr>)\<rparr>"
    by (auto simp: file_step_def)
  show "filedescs s' = filedescs s" "file_list s' = file_list s" "heap_fill s' = heap_fill s"
    "file_descriptors s' = file_descriptors s" "fd_count s' = fd_count s"
    "fd_capacity s' = fd_capacity s" "error_code s' = error_code s"
    "g \<noteq> f \<Longrightarrow> files s' g = files s g"
    by (subst s', simp)+
  show "a \<notin> set bs \<Longrightarrow> a \<notin> set ns \<Longrightarrow> blocks s' a = blocks s a" "next_addr s \<le> next_addr s'"
    using assms by (auto simp: file_step_def)
qed

lemma file_step_file:
  assumes "file_step s s' f bs ns"
  obtains fi p q where "files s f = Some fi" "files s' f = Some (fi\<lparr>block_list := p, last_block := q\<rparr>)"
proof -
  from assms obtain fi p q where fi: "files s f = Some fi" and
    s': "s' = s\<lparr>blocks := blocks s', next_addr := next_addr s',
            files := (files s)(f \<mapsto> fi\<lparr>block_list := p, last_block := q\<rparr>)\<rparr>"
    by (auto simp: file_step_def)
  have "files s' f = Some (fi\<lparr>block_list := p, last_block := q\<rparr>)"
    by (subst s') simp
  with fi that show ?thesis by blast
qed

lemma file_at_alloc: "file_at s f bs \<Longrightarrow> a \<in> set bs \<Longrightarrow> \<exists>b. blocks s a = Some b \<and> wf_block b"
  unfolding file_at_defs using packed_wf by (fastforce dest: chain_alloc)

lemma file_at_distinct: "file_at s f bs \<Longrightarrow> distinct bs"
  by (auto simp: file_at_defs dest: chain_distinct)

lemma fresh_notin: "fresh s \<Longrightarrow> file_at s f bs \<Longrightarrow> a \<in> set bs \<Longrightarrow> a < next_addr s"
  by (metis file_at_alloc fresh_def linorder_not_le option.discI)

lemma fresh_step:
  assumes "fresh s" "file_step s s' f bs ns" "file_at s f bs'" "set bs \<subseteq> set bs'"
  shows "fresh s'"
  unfolding fresh_def
proof (intro allI impI)
  fix a assume a: "next_addr s' \<le> a"
  have le: "next_addr s \<le> a"
    using a file_step_frame(10) [OF assms(2)] by simp
  with assms(1) have s: "blocks s a = None" "files s a = None" "filedescs s a = None"
    by (auto simp: fresh_def)
  have "a \<notin> set bs" using fresh_notin [OF assms(1,3)] assms(4) le by fastforce
  moreover have "a \<notin> set ns" using assms(2) a by (auto simp: file_step_def)
  ultimately have "blocks s' a = None" using file_step_frame(9) [OF assms(2)] s by simp
  moreover have "a \<noteq> f" using s assms(3) by (auto simp: file_at_defs)
  ultimately show "blocks s' a = None \<and> files s' a = None \<and> filedescs s' a = None"
    using s file_step_frame(1,8) [OF assms(2)] by simp
qed

section \<open>Creating a block\<close>

definition empty_block :: "block \<Rightarrow> bool" where
  "empty_block b \<longleftrightarrow> length (memory b) = BLOCK_SIZE \<and> occupied b = 0"

lemma packed_snoc_empty:
  "packed bs \<Longrightarrow> empty_block b \<Longrightarrow> packed (bs @ [b])"
  by (auto simp: packed_append wf_block_def empty_block_def)

lemma create_block_ok:
  assumes at: "file_at s f bs" and fr: "fresh s"
  defines "n \<equiv> next_addr s"
  shows "\<exists>s'. create_block (Ptr f) s = ret (Ptr n, s') \<and> file_at s' f (bs @ [n])
    \<and> file_step s s' f bs [n] \<and> fresh s' \<and> n \<notin> set bs
    \<and> (\<forall>a \<in> set bs. block_bytes (block_at s' a) = block_bytes (block_at s a)
          \<and> occupied (block_at s' a) = occupied (block_at s a))
    \<and> empty_block (block_at s' n)"
proof -
  from at obtain fi where fi: "files s f = Some fi"
    and ch: "chain b_next b_prev (blocks s) (heap_fill s) (block_list fi) bs Null"
    and last: "last_block fi = last_ptr Null bs" and pk: "packed_at s bs"
    by (auto simp: file_at_defs)
  have n: "n \<notin> set bs" using fresh_notin [OF fr at] n_def by blast
  let ?new = "\<lparr>memory = replicate BLOCK_SIZE None, occupied = 0, b_next = Null, b_prev = heap_fill s\<rparr>"
  show ?thesis
  proof (cases bs rule: rev_cases)
    case Nil
    let ?s = "s\<lparr>blocks := (blocks s)(n \<mapsto> ?new), next_addr := Suc n,
      files := (files s)(f \<mapsto> fi\<lparr>block_list := Ptr n, last_block := Ptr n\<rparr>)\<rparr>"
    have "create_block (Ptr f) s = ret (Ptr n, ?s)"
      using fi last Nil
      by (simp add: create_block_def malloc_block_def upd_file_def n_def)
    moreover have "file_at ?s f [n]"
      by (simp add: file_at_defs wf_block_def)
    moreover have step: "file_step s ?s f bs [n]"
      using fi by (auto simp: file_step_def n_def)
    moreover have "fresh ?s"
      by (rule fresh_step [OF fr step at]) simp
    ultimately show ?thesis
      using Nil by (auto simp: empty_block_def)
  next
    case (snoc bs' l)
    from at snoc obtain lb where lb: "blocks s l = Some lb" using file_at_alloc by fastforce
    let ?bl = "(blocks s)(n \<mapsto> ?new\<lparr>b_prev := Ptr l\<rparr>, l \<mapsto> lb\<lparr>b_next := Ptr n\<rparr>)"
    let ?s = "s\<lparr>blocks := ?bl, next_addr := Suc n, files := (files s)(f \<mapsto> fi\<lparr>last_block := Ptr n\<rparr>)\<rparr>"
    have ln: "l \<noteq> n" using n snoc by auto
    have create: "create_block (Ptr f) s = ret (Ptr n, ?s)"
      using fi last snoc lb ln
      by (simp add: create_block_def malloc_block_def upd_file_def upd_block_def n_def fun_upd_twist)
    have chain': "chain b_next b_prev ?bl (heap_fill s) (block_list fi) (bs' @ [l, n]) Null"
      by (rule blk.append_node) (use ch snoc n lb in auto)
    have dist: "l \<notin> set bs'" using file_at_distinct [OF at] snoc by simp
    have "map (block_at ?s) (bs @ [n]) =
        map (block_at s) bs' @ [lb\<lparr>b_next := Ptr n\<rparr>] @ [?new\<lparr>b_prev := Ptr l\<rparr>]"
      using dist n snoc ln by auto
    moreover have "packed (map (block_at s) bs' @ [lb\<lparr>b_next := Ptr n\<rparr>] @ [?new\<lparr>b_prev := Ptr l\<rparr>])"
      using pk snoc lb by (auto simp: packed_append wf_block_def)
    ultimately have "packed_at ?s (bs @ [n])"
      by (simp only:)
    with chain' have "file_at ?s f (bs @ [n])"
      using snoc by (simp add: file_at_defs)
    moreover have step: "file_step s ?s f bs [n]"
      by (rule file_stepI [OF fi refl, where p = "block_list fi" and q = "Ptr n"]) (use snoc in \<open>auto simp: n_def\<close>)
    moreover have "fresh ?s"
      by (rule fresh_step [OF fr step at]) simp
    moreover have "\<forall>a \<in> set bs. block_bytes (block_at ?s a) = block_bytes (block_at s a)
          \<and> occupied (block_at ?s a) = occupied (block_at s a)"
      using lb n snoc ln by (auto simp: block_bytes_def)
    ultimately show ?thesis
      using create n ln by (auto simp: empty_block_def)
  qed
qed

lemma file_at_next: "file_at s f (ds @ a # bs) \<Longrightarrow> blocks s a = Some b \<Longrightarrow> b_next b = head_ptr bs Null"
  unfolding file_at_defs by (blast dest: chain_next_head)

lemma file_step_refl: "file_at s f bs \<Longrightarrow> file_step s s f us []"
proof -
  assume "file_at s f bs"
  then obtain fi where fi: "files s f = Some fi" by (auto simp: file_at_defs)
  show ?thesis
    by (rule file_stepI [OF fi, where h = "blocks s" and m = "next_addr s"
          and p = "block_list fi" and q = "last_block fi"]) (use fi in \<open>auto simp: fun_upd_idem\<close>)
qed

end
