(* ===== verification/Ufs_Write.thy ===== *)
theory Ufs_Write
  imports Ufs_Blocks
begin

text \<open>
  The write loop of \<open>ufs_write\<close>: on every file the code can build it returns, stays inside its
  buffers, keeps the chain well formed and splices the new bytes into the old ones.
\<close>

section \<open>One block\<close>

lemma mem_put_block:
  assumes wf: "wf_block b" and i: "i \<le> nat (occupied b)" and w: "i + w \<le> BLOCK_SIZE" "j + w \<le> length buf"
  shows "\<exists>mem. mem_put (memory b) (int i) buf (int j) (int w) = ret mem \<and>
      wf_block (b\<lparr>memory := mem, occupied := max (int (i + w)) (occupied b)\<rparr>) \<and>
      block_bytes (b\<lparr>memory := mem, occupied := max (int (i + w)) (occupied b)\<rparr>) =
        splice_at i (take w (drop j buf)) (block_bytes b)"
proof -
  let ?W = "take w (drop j buf)"
  let ?o = "nat (occupied b)"
  let ?mem = "splice_at i (map Some ?W) (memory b)"
  have len: "length (memory b) = BLOCK_SIZE" "?o \<le> BLOCK_SIZE" "0 \<le> occupied b" "length ?W = w"
    and init: "None \<notin> set (take ?o (memory b))"
    using wf w by (auto simp: wf_block_def)
  have mp: "mem_put (memory b) (int i) buf (int j) (int w) = ret ?mem"
    using w len by (simp add: mem_put_def)
  have o: "nat (max (int (i + w)) (occupied b)) = max (i + w) ?o" using len by auto
  have take_mem: "take (max (i + w) ?o) ?mem = splice_at i (map Some ?W) (take ?o (memory b))"
    using take_splice_at [of i ?o "memory b" "map Some ?W"] i w len by simp
  have "None \<notin> set (splice_at i (map Some ?W) (take ?o (memory b)))"
    using set_splice_at_subset [of i "map Some ?W" "take ?o (memory b)"] init by auto
  moreover have "length ?mem = BLOCK_SIZE" using len w by simp
  moreover have "occupied b \<le> BLOCK_SIZE" using len by simp
  ultimately have "wf_block (b\<lparr>memory := ?mem, occupied := max (int (i + w)) (occupied b)\<rparr>)"
    using w(1) unfolding wf_block_def by (simp add: o take_mem del: of_nat_add)
  moreover have "block_bytes (b\<lparr>memory := ?mem, occupied := max (int (i + w)) (occupied b)\<rparr>) =
      splice_at i ?W (block_bytes b)"
    unfolding block_bytes_def by (simp add: o take_mem map_splice_at comp_def del: of_nat_add)
  ultimately show ?thesis using mp by blast
qed

lemma write_block_at:
  assumes at: "file_at s f (ds @ a # bs)" and b: "blocks s a = Some b"
    and pk: "packed (map (block_at s) ds @ b\<lparr>memory := mem, occupied := n\<rparr> # map (block_at s) bs)"
  defines "s' \<equiv> s\<lparr>blocks := (blocks s)(a \<mapsto> b\<lparr>memory := mem, occupied := n\<rparr>)\<rparr>"
  shows "file_at s' f (ds @ a # bs)" "file_step s s' f [a] []"
proof -
  from at obtain fi where fi: "files s f = Some fi"
    and ch: "chain b_next b_prev (blocks s) (heap_fill s) (block_list fi) (ds @ a # bs) Null"
    and last: "last_block fi = last_ptr Null (ds @ a # bs)"
    by (auto simp: file_at_defs)
  have d: "a \<notin> set ds" "a \<notin> set bs"
    using file_at_distinct [OF at] by auto
  have "map (block_at s') (ds @ a # bs) =
      map (block_at s) ds @ b\<lparr>memory := mem, occupied := n\<rparr> # map (block_at s) bs"
    using d by (auto simp: s'_def)
  with pk have "packed_at s' (ds @ a # bs)" by (simp only:)
  moreover have "chain b_next b_prev (blocks s') (heap_fill s') (block_list fi) (ds @ a # bs) Null"
    using ch b by (simp add: s'_def chain_same_links)
  ultimately show "file_at s' f (ds @ a # bs)"
    using fi last by (simp add: file_at_defs s'_def)
  show "file_step s s' f [a] []"
    by (rule file_stepI [OF fi, where p = "block_list fi" and q = "last_block fi"
          and h = "blocks s'" and m = "next_addr s"])
      (use fi in \<open>auto simp: s'_def fun_upd_idem\<close>)
qed

lemma write_step:
  assumes at: "file_at s f (ds @ a # bs)" and full: "\<forall>d \<in> set ds. occupied (block_at s d) = BLOCK_SIZE"
    and k: "0 < k" "k < 2 ^ 63" "j + k \<le> length buf" and b: "blocks s a = Some b"
    and stop: "\<not> (BLOCK_SIZE \<le> off \<and> occupied b = BLOCK_SIZE)"
  defines "i \<equiv> min off (nat (occupied b))" and "w \<equiv> min k (BLOCK_SIZE - min off (nat (occupied b)))"
  shows "\<exists>s'. write_loop (Ptr f) buf s (Ptr a) (int off) (int j) (word_of_nat k) =
      write_loop (Ptr f) buf s' (b_next b) 0 (int (j + w)) (word_of_nat (k - w))
    \<and> file_at s' f (ds @ a # bs) \<and> file_step s s' f [a] []
    \<and> block_bytes (block_at s' a) = splice_at i (take w (drop j buf)) (block_bytes b)
    \<and> 0 < w \<and> w \<le> k \<and> i + w \<le> BLOCK_SIZE
    \<and> (w < k \<longrightarrow> occupied (block_at s' a) = BLOCK_SIZE \<and> i + w = BLOCK_SIZE)"
proof -
  have pk: "packed_at s (ds @ a # bs)" using at by (simp add: file_at_defs)
  then have wf: "wf_block b" and pks: "packed_at s bs" "packed_at s ds"
    and empty: "occupied b < BLOCK_SIZE \<Longrightarrow> \<forall>c \<in> set bs. occupied (block_at s c) = 0"
    using b by (auto simp: packed_append)
  have occ: "0 \<le> occupied b" "occupied b \<le> BLOCK_SIZE" using wf by (auto simp: wf_block_def)
  have i: "i \<le> nat (occupied b)" "i < BLOCK_SIZE" using stop occ by (auto simp: i_def)
  have w: "0 < w" "w \<le> k" "i + w \<le> BLOCK_SIZE" "w < k \<Longrightarrow> i + w = BLOCK_SIZE"
  proof -
    have "w = min k (BLOCK_SIZE - i)" by (simp add: w_def i_def)
    with i k show "0 < w" "w \<le> k" "i + w \<le> BLOCK_SIZE" "w < k \<Longrightarrow> i + w = BLOCK_SIZE"
      by (auto simp: min_def)
  qed
  have bo: "c_min (int off) (occupied b) = int i" using occ by (simp add: c_min_eq i_def)
  have wb: "c_min (sint (word_of_nat k :: size_t)) (BLOCK_SIZE - int i) = int w"
    using size_of_nat(1) [OF k(2)] i by (simp add: c_min_eq w_def i_def)
  obtain mem where mem: "mem_put (memory b) (int i) buf (int j) (int w) = ret mem" and
    new: "wf_block (b\<lparr>memory := mem, occupied := max (int (i + w)) (occupied b)\<rparr>)"
      "block_bytes (b\<lparr>memory := mem, occupied := max (int (i + w)) (occupied b)\<rparr>) =
         splice_at i (take w (drop j buf)) (block_bytes b)"
    using mem_put_block [OF wf i(1) w(3), of j buf] k(3) w(2) by auto
  let ?b = "b\<lparr>memory := mem, occupied := max (int (i + w)) (occupied b)\<rparr>"
  let ?s = "s\<lparr>blocks := (blocks s)(a \<mapsto> ?b)\<rparr>"
  have "occupied ?b < BLOCK_SIZE \<Longrightarrow> occupied b < BLOCK_SIZE" by simp
  then have "packed (map (block_at s) ds @ ?b # map (block_at s) bs)"
    using full pks new(1) empty by (auto simp: packed_append)
  note at' = write_block_at [OF at b this]
  have sz: "(word_of_nat k :: size_t) \<noteq> 0"
    using size_of_nat(3) [OF k(2)] k(1) by simp
  have "write_loop (Ptr f) buf s (Ptr a) (int off) (int j) (word_of_nat k) =
      write_loop (Ptr f) buf ?s (b_next b) 0 (int (j + w)) (word_of_nat (k - w))"
    using sz b bo wb i mem w(2) size_of_nat_diff [of w k]
    by (subst write_loop.simps) (simp add: Let_def upd_block_def c_max_eq)
  then show ?thesis
    using at' new(2) w occ by (intro exI [of _ ?s]) auto
qed

section \<open>The loop\<close>

lemma write_loop_create:
  assumes "create_block (Ptr f) s = ret (b, s1)" "sz \<noteq> 0" "b = Ptr n"
  shows "write_loop (Ptr f) buf s Null off j sz = write_loop (Ptr f) buf s1 b 0 j sz"
  using assms by (subst write_loop.simps, subst (2) write_loop.simps) simp

text \<open>
  What the write loop does from the position \<open>bs\<close> of the block list on, the blocks \<open>ds\<close> before
  it being full: it returns with all \<open>k\<close> bytes written, and the chain from there on holds its
  old bytes with the new ones spliced in at offset \<open>off\<close>, or at its end when \<open>off\<close> is beyond it.
\<close>

definition writes :: "nat \<Rightarrow> byte list \<Rightarrow> ufs \<Rightarrow> nat list \<Rightarrow> nat list \<Rightarrow> ptr \<Rightarrow> nat \<Rightarrow> nat \<Rightarrow> nat \<Rightarrow> bool" where
  "writes f buf s ds bs p off j k \<longleftrightarrow>
     (\<exists>s' ns. write_loop (Ptr f) buf s p (int off) (int j) (word_of_nat k) = ret (int (j + k), s')
    \<and> file_step s s' f (ds @ bs) ns \<and> file_at s' f (ds @ bs @ ns) \<and> fresh s'
    \<and> (\<forall>d \<in> set ds. block_bytes (block_at s' d) = block_bytes (block_at s d))
    \<and> bytes_of s' (bs @ ns) =
        splice_at (min off (length (bytes_of s bs))) (take k (drop j buf)) (bytes_of s bs))"

lemma writes_nothing:
  assumes "file_at s f (ds @ bs)" "fresh s"
  shows "writes f buf s ds bs p off j 0"
proof -
  have "write_loop (Ptr f) buf s p (int off) (int j) (word_of_nat 0) = ret (int (j + 0), s)"
    by (subst write_loop.simps) simp
  then show ?thesis
    unfolding writes_def using file_step_refl [OF assms(1)] assms
    by (intro exI [of _ s] exI [of _ "[]"]) simp
qed

lemma take_split_drop: "w \<le> k \<Longrightarrow> take k (drop j xs) = take w (drop j xs) @ take (k - w) (drop (j + w) xs)"
  by (metis add.commute add_diff_inverse_nat drop_drop linorder_not_le take_add)

lemma writes_past_end:
  assumes at: "file_at s f ds" and fr: "fresh s" and k: "0 < k" "k < 2 ^ 63" "j + k \<le> length buf"
    and full: "\<forall>d \<in> set ds. occupied (block_at s d) = BLOCK_SIZE"
    and IH: "\<And>s n w. file_at s f (ds @ [n]) \<Longrightarrow> fresh s \<Longrightarrow> 0 < w \<Longrightarrow> w \<le> k \<Longrightarrow>
      0 < k - w \<longrightarrow> (\<forall>d \<in> set (ds @ [n]). occupied (block_at s d) = BLOCK_SIZE) \<Longrightarrow>
      writes f buf s (ds @ [n]) [] Null 0 (j + w) (k - w)"
  shows "writes f buf s ds [] Null off j k"
proof -
  define n where "n = next_addr s"
  obtain s1 where cr: "create_block (Ptr f) s = ret (Ptr n, s1)" and at1: "file_at s1 f (ds @ [n])"
    and st1: "file_step s s1 f ds [n]" and fr1: "fresh s1" and n: "n \<notin> set ds"
    and keep1: "\<forall>a \<in> set ds. block_bytes (block_at s1 a) = block_bytes (block_at s a)
      \<and> occupied (block_at s1 a) = occupied (block_at s a)"
    and e1: "empty_block (block_at s1 n)"
    using create_block_ok [OF at fr] unfolding n_def by auto
  obtain b where b: "blocks s1 n = Some b" using file_at_alloc [OF at1, of n] by auto
  have occ: "occupied b = 0" using e1 b by (simp add: empty_block_def)
  let ?w = "min k BLOCK_SIZE"
  have full1: "\<forall>d \<in> set ds. occupied (block_at s1 d) = BLOCK_SIZE" using keep1 full by simp
  obtain s2 where wl: "write_loop (Ptr f) buf s1 (Ptr n) (int 0) (int j) (word_of_nat k) =
        write_loop (Ptr f) buf s2 (b_next b) 0 (int (j + ?w)) (word_of_nat (k - ?w))"
    and at2: "file_at s2 f (ds @ [n])" and st2: "file_step s1 s2 f [n] []"
    and b2: "block_bytes (block_at s2 n) = splice_at 0 (take ?w (drop j buf)) (block_bytes b)"
    and w: "?w < k \<longrightarrow> occupied (block_at s2 n) = BLOCK_SIZE"
    using write_step [of s1 f ds n "[]" k j buf b 0] at1 full1 k b occ by auto
  have keep2: "blocks s2 d = blocks s1 d" if "d \<in> set ds" for d
    using file_step_frame(9) [OF st2, of d] n that by (cases "d = n") auto
  have fr2: "fresh s2" by (rule fresh_step [OF fr1 st2 at1]) simp
  have next_b: "b_next b = Null" using file_at_next [of s1 f ds n "[]" b] at1 b by simp
  have "writes f buf s2 (ds @ [n]) [] Null 0 (j + ?w) (k - ?w)"
    by (rule IH [OF at2 fr2]) (use k full1 keep2 w in auto)
  then obtain s' ns where wl': "write_loop (Ptr f) buf s2 Null 0 (int (j + ?w)) (word_of_nat (k - ?w)) =
        ret (int (j + k), s')"
    and st': "file_step s2 s' f (ds @ [n]) ns" and at': "file_at s' f (ds @ n # ns)" and fr': "fresh s'"
    and keep': "\<forall>d \<in> set (ds @ [n]). block_bytes (block_at s' d) = block_bytes (block_at s2 d)"
    and by': "bytes_of s' ns = take (k - ?w) (drop (j + ?w) buf)"
    by (auto simp: writes_def splice_at_def)
  have "write_loop (Ptr f) buf s Null (int off) (int j) (word_of_nat k) = ret (int (j + k), s')"
    using write_loop_create [OF cr, of "word_of_nat k" n] size_of_nat(3) [OF k(2)] k(1) wl wl' next_b
    by simp
  moreover have "file_step s s' f ds (n # ns)"
    using file_step_trans [OF file_step_trans [OF st1 st2] st'] by simp
  moreover have "bytes_of s' (n # ns) = take k (drop j buf)"
    using keep' b2 by' occ take_split_drop [of ?w k j buf] by (simp add: block_bytes_empty splice_at_def)
  ultimately show ?thesis
    using at' fr' keep' keep2 keep1
    unfolding writes_def by (intro exI [of _ s'] exI [of _ "n # ns"]) (simp add: splice_at_def)
qed

lemma writes_skip:
  assumes at: "file_at s f (ds @ a # bs)" and b: "blocks s a = Some b"
    and skip: "BLOCK_SIZE \<le> off" "occupied b = BLOCK_SIZE" and k: "0 < k" "k < 2 ^ 63"
    and IH: "writes f buf s (ds @ [a]) bs (head_ptr bs Null) (off - BLOCK_SIZE) j k"
  shows "writes f buf s ds (a # bs) (Ptr a) off j k"
proof -
  have "length (block_bytes b) = BLOCK_SIZE"
    using file_at_alloc [OF at, of a] b skip by (simp add: length_block_bytes)
  moreover have "write_loop (Ptr f) buf s (Ptr a) (int off) (int j) (word_of_nat k) =
      write_loop (Ptr f) buf s (head_ptr bs Null) (int (off - BLOCK_SIZE)) (int j) (word_of_nat k)"
    using skip b size_of_nat(3) [OF k(2)] k(1) file_at_next [OF at b]
    by (subst write_loop.simps) (simp add: c_min_eq Let_def of_nat_diff)
  ultimately show ?thesis
    using IH b skip unfolding writes_def
    by (elim ex_forward) (auto simp: splice_at_append_right min_def)
qed

lemma writes_block:
  assumes at: "file_at s f (ds @ a # bs)" and fr: "fresh s" and b: "blocks s a = Some b"
    and stop: "\<not> (BLOCK_SIZE \<le> off \<and> occupied b = BLOCK_SIZE)"
    and k: "0 < k" "k < 2 ^ 63" "j + k \<le> length buf"
    and full: "\<forall>d \<in> set ds. occupied (block_at s d) = BLOCK_SIZE"
    and IH: "\<And>s w. file_at s f ((ds @ [a]) @ bs) \<Longrightarrow> fresh s \<Longrightarrow> 0 < w \<Longrightarrow> w \<le> k \<Longrightarrow>
      0 < k - w \<longrightarrow> (\<forall>d \<in> set (ds @ [a]). occupied (block_at s d) = BLOCK_SIZE) \<Longrightarrow>
      writes f buf s (ds @ [a]) bs (head_ptr bs Null) 0 (j + w) (k - w)"
  shows "writes f buf s ds (a # bs) (Ptr a) off j k"
proof -
  have wf: "wf_block b" using file_at_alloc [OF at, of a] b by auto
  have d: "a \<notin> set ds" "a \<notin> set bs" using file_at_distinct [OF at] by auto
  have occ: "occupied b \<le> BLOCK_SIZE" "length (block_bytes b) = nat (occupied b)"
    using wf length_block_bytes by (auto simp: wf_block_def)
  have partial: "occupied b < BLOCK_SIZE \<Longrightarrow> bytes_of s bs = []"
    using at b by (auto simp: file_at_defs packed_append intro: bytes_of_empty)
  define i where "i = min off (nat (occupied b))"
  define w where "w = min k (BLOCK_SIZE - min off (nat (occupied b)))"
  let ?w1 = "take w (drop j buf)" and ?w2 = "take (k - w) (drop (j + w) buf)"
  obtain s1 where wl: "write_loop (Ptr f) buf s (Ptr a) (int off) (int j) (word_of_nat k) =
        write_loop (Ptr f) buf s1 (b_next b) 0 (int (j + w)) (word_of_nat (k - w))"
    and at1: "file_at s1 f (ds @ a # bs)" and st1: "file_step s s1 f [a] []"
    and b1: "block_bytes (block_at s1 a) = splice_at i ?w1 (block_bytes b)"
    and w: "0 < w" "w \<le> k" "i + w \<le> BLOCK_SIZE"
      "w < k \<longrightarrow> occupied (block_at s1 a) = BLOCK_SIZE \<and> i + w = BLOCK_SIZE"
    using write_step [OF at full k b stop] unfolding i_def w_def by blast
  have keep1: "blocks s1 c = blocks s c" if "c \<noteq> a" for c
    using file_step_frame(9) [OF st1] that by auto
  have fr1: "fresh s1" by (rule fresh_step [OF fr st1 at]) simp
  have rest1: "bytes_of s1 bs = bytes_of s bs"
    by (rule bytes_of_cong) (use keep1 d in metis)
  have "0 < k - w \<longrightarrow> (\<forall>c \<in> set (ds @ [a]). occupied (block_at s1 c) = BLOCK_SIZE)"
  proof (intro impI ballI)
    fix c assume "0 < k - w" "c \<in> set (ds @ [a])"
    with full w(4) keep1 show "occupied (block_at s1 c) = BLOCK_SIZE"
      by (cases "c = a") auto
  qed
  with at1 fr1 w(1,2) have "writes f buf s1 (ds @ [a]) bs (head_ptr bs Null) 0 (j + w) (k - w)"
    by (intro IH) simp_all
  then obtain s' ns where wl': "write_loop (Ptr f) buf s1 (b_next b) 0 (int (j + w)) (word_of_nat (k - w)) =
        ret (int (j + k), s')"
    and st': "file_step s1 s' f (ds @ a # bs) ns" and at': "file_at s' f (ds @ a # bs @ ns)"
    and fr': "fresh s'"
    and keep': "\<forall>c \<in> set (ds @ [a]). block_bytes (block_at s' c) = block_bytes (block_at s1 c)"
    and by': "bytes_of s' (bs @ ns) = splice_at 0 ?w2 (bytes_of s bs)"
    using rest1 w(2) file_at_next [OF at b] by (auto simp: writes_def)
  have glue: "splice_at (min off (length (bytes_of s (a # bs)))) (take k (drop j buf)) (bytes_of s (a # bs)) =
      splice_at i ?w1 (block_bytes b) @ splice_at 0 ?w2 (bytes_of s bs)"
  proof -
    have "length ?w1 = w" using w(2) k(3) by simp
    moreover have "w < k" if "?w2 \<noteq> []" using that by auto
    ultimately have "splice_at (min off (length (block_bytes b) + length (bytes_of s bs)))
        (?w1 @ ?w2) (block_bytes b @ bytes_of s bs) =
      splice_at i ?w1 (block_bytes b) @ splice_at 0 ?w2 (bytes_of s bs)"
      using occ partial stop w(3,4) by (intro splice_glue [where m = BLOCK_SIZE]) (auto simp: i_def)
    with b take_split_drop [OF w(2), of j buf] show ?thesis by simp
  qed
  have "file_step s s1 f (ds @ a # bs) []"
    using st1 unfolding file_step_def by auto
  from file_step_trans [OF this st'] have "file_step s s' f (ds @ a # bs) ns" by simp
  moreover have "\<forall>c \<in> set ds. block_bytes (block_at s' c) = block_bytes (block_at s c)"
  proof
    fix c assume "c \<in> set ds"
    with keep' keep1 d show "block_bytes (block_at s' c) = block_bytes (block_at s c)"
      by (cases "c = a") auto
  qed
  ultimately show ?thesis
    unfolding writes_def glue using wl wl' at' fr' keep' b1 by'
    by (intro exI [of _ s'] exI [of _ ns]) simp
qed

lemma write_loop_ok:
  assumes "file_at s f (ds @ bs)" "fresh s" "p = head_ptr bs Null"
    "0 < k \<longrightarrow> (\<forall>d \<in> set ds. occupied (block_at s d) = BLOCK_SIZE)"
    "k < 2 ^ 63" "j + k \<le> length buf"
  shows "writes f buf s ds bs p off j k"
  using assms
proof (induction "k + length bs" arbitrary: s ds bs p off j k rule: less_induct)
  case less
  show ?case
  proof (cases "k = 0")
    case True
    with less.prems show ?thesis by (auto intro: writes_nothing)
  next
    case k: False
    show ?thesis
    proof (cases bs)
      case Nil
      have "writes f buf s1 (ds @ [n]) [] Null 0 (j + w) (k - w)"
        if "file_at s1 f (ds @ [n])" "fresh s1" "0 < w" "w \<le> k"
          "0 < k - w \<longrightarrow> (\<forall>d \<in> set (ds @ [n]). occupied (block_at s1 d) = BLOCK_SIZE)" for s1 n w
        by (rule less.hyps) (use that Nil less.prems k in auto)
      with Nil less.prems k writes_past_end [of s f ds k j buf off] show ?thesis
        by simp
    next
      case (Cons a bs')
      then obtain b where b: "blocks s a = Some b"
        using file_at_alloc [OF less.prems(1), of a] by auto
      show ?thesis
      proof (cases "BLOCK_SIZE \<le> off \<and> occupied b = BLOCK_SIZE")
        case True
        have "writes f buf s (ds @ [a]) bs' (head_ptr bs' Null) (off - BLOCK_SIZE) j k"
          by (rule less.hyps) (use Cons less.prems b True in auto)
        with Cons less.prems b True k show ?thesis
          by (auto intro: writes_skip)
      next
        case False
        have "writes f buf s1 (ds @ [a]) bs' (head_ptr bs' Null) 0 (j + w) (k - w)"
          if "file_at s1 f ((ds @ [a]) @ bs')" "fresh s1" "0 < w" "w \<le> k"
            "0 < k - w \<longrightarrow> (\<forall>d \<in> set (ds @ [a]). occupied (block_at s1 d) = BLOCK_SIZE)" for s1 w
          by (rule less.hyps) (use that Cons less.prems in auto)
        with Cons less.prems b False k writes_block [of s f ds a bs' b off k j buf] show ?thesis
          by simp
      qed
    qed
  qed
qed

end
