(* ===== verification/Ufs_Resize.thy ===== *)
theory Ufs_Resize
  imports Ufs_Blocks
begin

text \<open>
  The remaining loops over a block list: releasing a chain, finding its last block, recounting
  its bytes, and the loop of \<open>ufs_resize\<close>. The last one returns for a new size that is a
  multiple of the block size or smaller than the file, and for no other.
\<close>

section \<open>Releasing, finding the end, recounting\<close>

lemma free_blocks_ok:
  "chain b_next b_prev (blocks s) bk p bs Null \<Longrightarrow>
    free_blocks s p = ret (s\<lparr>blocks := drop_addrs bs (blocks s)\<rparr>)"
proof (induction bs arbitrary: s bk p)
  case Nil
  then show ?case by (subst free_blocks.simps) simp
next
  case (Cons a bs)
  from Cons.prems obtain b where p: "p = Ptr a" and b: "blocks s a = Some b"
    and ch: "chain b_next b_prev (blocks s) (Ptr a) (b_next b) bs Null" by auto
  have "a \<notin> set bs" using Cons.prems by (rule chain_hd_notin_tl)
  with ch have "chain b_next b_prev (blocks (s\<lparr>blocks := (blocks s)(a := None)\<rparr>)) (Ptr a) (b_next b) bs Null"
    by simp
  from Cons.IH [OF this] p b show ?case
    by (subst free_blocks.simps) (simp add: free_block_def drop_addrs_Cons fun_upd_def del: drop_addrs_apply)
qed

lemma last_block_from_ok:
  "chain b_next b_prev (blocks s) bk p bs Null \<Longrightarrow> bs \<noteq> [] \<Longrightarrow> last_block_from s p = ret (Ptr (last bs))"
proof (induction bs arbitrary: bk p)
  case (Cons a bs)
  from Cons.prems(1) obtain b where "p = Ptr a" "blocks s a = Some b"
    "chain b_next b_prev (blocks s) (Ptr a) (b_next b) bs Null" by auto
  then show ?case
    using Cons.IH by (subst last_block_from.simps) (cases bs; auto)
qed simp

lemma recount_ok:
  assumes "chain b_next b_prev (blocks s) bk p bs Null" "\<forall>a \<in> set bs. wf_block (block_at s a)"
    "files s f = Some fi"
  shows "recount (Ptr f) s p n = ret (n + word_of_nat (length (bytes_of s bs)),
    s\<lparr>files := (files s)(f \<mapsto> fi\<lparr>last_block := last_ptr (last_block fi) bs\<rparr>)\<rparr>)"
  using assms
proof (induction bs arbitrary: s bk p n fi)
  case Nil
  then show ?case by (subst recount.simps) (simp add: fun_upd_idem)
next
  case (Cons a bs)
  from Cons.prems(1) obtain b where p: "p = Ptr a" and b: "blocks s a = Some b"
    and ch: "chain b_next b_prev (blocks s) (Ptr a) (b_next b) bs Null" by auto
  let ?s = "s\<lparr>files := (files s)(f \<mapsto> fi\<lparr>last_block := Ptr a\<rparr>)\<rparr>"
  have "wf_block b" using Cons.prems(2) b by auto
  then have len: "word_of_int (occupied b) = (word_of_nat (length (block_bytes b)) :: size_t)"
    by (simp add: length_block_bytes wf_block_def)
  have "recount (Ptr f) ?s (b_next b) (n + word_of_int (occupied b)) =
      ret (n + word_of_int (occupied b) + word_of_nat (length (bytes_of ?s bs)),
        ?s\<lparr>files := (files ?s)(f \<mapsto> (fi\<lparr>last_block := Ptr a\<rparr>)
             \<lparr>last_block := last_ptr (last_block (fi\<lparr>last_block := Ptr a\<rparr>)) bs\<rparr>)\<rparr>)"
    by (rule Cons.IH) (use ch Cons.prems in auto)
  moreover have "bytes_of ?s bs = bytes_of s bs"
    by (rule bytes_of_cong) simp
  ultimately show ?case
    using p b Cons.prems(3) len by (subst recount.simps) (simp add: upd_file_def)
qed

section \<open>The resize loop\<close>

text \<open>
  From the position \<open>bs\<close> on, the loop returns the first block to be dropped: it splits the
  chain, extended by new blocks \<open>ns\<close>, into a kept part with the first \<open>k\<close> bytes and a rest.
\<close>

definition resizes :: "nat \<Rightarrow> ufs \<Rightarrow> nat list \<Rightarrow> nat list \<Rightarrow> ptr \<Rightarrow> nat \<Rightarrow> bool" where
  "resizes f s ds bs p k \<longleftrightarrow>
     (\<exists>s' ns bs1 bs2. resize_loop (Ptr f) s p (word_of_nat k) = ret (head_ptr bs2 Null, s')
    \<and> bs @ ns = bs1 @ bs2 \<and> file_links s' f (ds @ bs @ ns) \<and> file_step s s' f (ds @ bs) ns \<and> fresh s'
    \<and> packed_at s' (ds @ bs1) \<and> bytes_of s' bs1 = take k (bytes_of s bs) \<and> (0 < k \<longrightarrow> bs1 \<noteq> [])
    \<and> (\<forall>d \<in> set ds. block_bytes (block_at s' d) = block_bytes (block_at s d)))"

lemma resizes_done:
  assumes "file_at s f (ds @ bs)" "fresh s" "p = head_ptr bs Null"
  shows "resizes f s ds bs p 0"
proof -
  have "resize_loop (Ptr f) s p (word_of_nat 0) = ret (p, s)"
    by (subst resize_loop.simps) simp
  moreover have "packed_at s ds"
    using assms(1) by (simp add: file_at_def packed_append)
  ultimately show ?thesis
    unfolding resizes_def using assms file_step_refl [OF assms(1)]
    by (intro exI [of _ s] exI [of _ "[]"] exI [of _ bs]) (simp add: file_at_def)
qed

lemma size_of_nat_ge:
  assumes "k < 2 ^ 63"
  shows "(word_of_nat k :: size_t) \<ge> BLOCK_SIZE \<longleftrightarrow> BLOCK_SIZE \<le> k"
  using size_of_nat(2) [OF assms] by (simp add: word_le_nat_alt)

lemma size_of_nat_minus_block:
  "BLOCK_SIZE \<le> k \<Longrightarrow> (word_of_nat k :: size_t) - BLOCK_SIZE = word_of_nat (k - BLOCK_SIZE)"
  by (simp add: of_nat_diff)

lemma resizes_grow:
  assumes at: "file_at s f ds" and fr: "fresh s" and k: "BLOCK_SIZE \<le> k" "k < 2 ^ 63"
    and IH: "\<And>s n. file_at s f ((ds @ [n]) @ []) \<Longrightarrow> fresh s \<Longrightarrow> resizes f s (ds @ [n]) [] Null (k - BLOCK_SIZE)"
  shows "resizes f s ds [] Null k"
proof -
  define n where "n = next_addr s"
  obtain s1 where cr: "create_block (Ptr f) s = ret (Ptr n, s1)" and at1: "file_at s1 f (ds @ [n])"
    and st1: "file_step s s1 f ds [n]" and fr1: "fresh s1"
    and keep1: "\<forall>a \<in> set ds. block_bytes (block_at s1 a) = block_bytes (block_at s a)"
    and e1: "empty_block (block_at s1 n)"
    using create_block_ok [OF at fr] unfolding n_def by auto
  obtain b where b: "blocks s1 n = Some b" using file_at_alloc [OF at1, of n] by auto
  have next_b: "b_next b = Null" using file_at_next [of s1 f ds n "[]" b] at1 b by simp
  have "resizes f s1 (ds @ [n]) [] Null (k - BLOCK_SIZE)"
    by (rule IH) (use at1 fr1 in auto)
  then obtain s' bs1 bs2 where
      rl: "resize_loop (Ptr f) s1 Null (word_of_nat (k - BLOCK_SIZE)) = ret (head_ptr bs2 Null, s')"
    and links: "file_links s' f (ds @ n # bs1 @ bs2)" and st': "file_step s1 s' f (ds @ [n]) (bs1 @ bs2)"
    and fr': "fresh s'" and pk': "packed_at s' (ds @ n # bs1)" and by': "bytes_of s' bs1 = []"
    and keep': "\<forall>d \<in> set (ds @ [n]). block_bytes (block_at s' d) = block_bytes (block_at s1 d)"
    unfolding resizes_def by auto
  have "resize_loop (Ptr f) s Null (word_of_nat k) =
      resize_loop (Ptr f) s1 Null (word_of_nat k - BLOCK_SIZE)"
    using cr b next_b k(1) size_of_nat(3) [OF k(2)] by (subst resize_loop.simps) simp
  then have "resize_loop (Ptr f) s Null (word_of_nat k) = ret (head_ptr bs2 Null, s')"
    by (simp only: size_of_nat_minus_block [OF k(1)] rl)
  moreover have "file_step s s' f ds (n # bs1 @ bs2)"
    using file_step_trans [OF st1 st'] by simp
  moreover have "bytes_of s' (n # bs1) = []"
    using keep' by' e1 by (simp add: empty_block_def block_bytes_empty)
  ultimately show ?thesis
    unfolding resizes_def using links fr' pk' keep' keep1
    by (intro exI [of _ s'] exI [of _ "n # bs1 @ bs2"] exI [of _ "n # bs1"] exI [of _ bs2]) auto
qed

lemma resizes_skip:
  assumes at: "file_at s f (ds @ a # bs)" and b: "blocks s a = Some b"
    and k: "BLOCK_SIZE \<le> k" "k < 2 ^ 63"
    and IH: "resizes f s (ds @ [a]) bs (head_ptr bs Null) (k - BLOCK_SIZE)"
  shows "resizes f s ds (a # bs) (Ptr a) k"
proof -
  from at b have wf: "wf_block b" and "packed_at s (a # bs)"
    by (auto simp: file_at_def packed_append)
  then have partial: "occupied b < BLOCK_SIZE \<Longrightarrow> bytes_of s bs = []"
    using b bytes_of_partial [of s a bs] by simp
  have len: "length (block_bytes b) = nat (occupied b)" "occupied b \<le> BLOCK_SIZE"
    using wf by (auto simp: length_block_bytes wf_block_def)
  have take: "take k (bytes_of s (a # bs)) = block_bytes b @ take (k - BLOCK_SIZE) (bytes_of s bs)"
    using b k len partial by (cases "occupied b < BLOCK_SIZE") auto
  have step: "resize_loop (Ptr f) s (Ptr a) (word_of_nat k) =
      resize_loop (Ptr f) s (head_ptr bs Null) (word_of_nat (k - BLOCK_SIZE))"
    using b k size_of_nat(3) [OF k(2)] size_of_nat_ge [OF k(2)] size_of_nat_minus_block [OF k(1)]
      file_at_next [OF at b]
    by (subst resize_loop.simps) simp
  from IH obtain s' ns bs1 bs2 where
    "resize_loop (Ptr f) s (head_ptr bs Null) (word_of_nat (k - BLOCK_SIZE)) = ret (head_ptr bs2 Null, s')"
    "bs @ ns = bs1 @ bs2" "file_links s' f (ds @ a # bs @ ns)" "file_step s s' f (ds @ a # bs) ns"
    "fresh s'" "packed_at s' (ds @ a # bs1)" "bytes_of s' bs1 = take (k - BLOCK_SIZE) (bytes_of s bs)"
    "\<forall>d \<in> set (ds @ [a]). block_bytes (block_at s' d) = block_bytes (block_at s d)"
    unfolding resizes_def by auto
  then show ?thesis
    unfolding resizes_def step take using b
    by (intro exI [of _ s'] exI [of _ ns] exI [of _ "a # bs1"] exI [of _ bs2]) auto
qed

lemma mem_truncate:
  assumes wf: "wf_block b" and k: "k \<le> nat (occupied b)"
  shows "mem_get (memory b) 0 (int k) = ret (take k (memory b))"
    "wf_block (b\<lparr>memory := take k (memory b) @ replicate (BLOCK_SIZE - k) None, occupied := int k\<rparr>)"
    "block_bytes (b\<lparr>memory := take k (memory b) @ replicate (BLOCK_SIZE - k) None, occupied := int k\<rparr>) =
      take k (block_bytes b)"
proof -
  have len: "length (memory b) = BLOCK_SIZE" "occupied b \<le> BLOCK_SIZE" "k \<le> BLOCK_SIZE"
    and init: "None \<notin> set (take (nat (occupied b)) (memory b))"
    using wf k by (auto simp: wf_block_def)
  have "set (take k (memory b)) \<subseteq> set (take (nat (occupied b)) (memory b))"
    using k by (rule set_take_subset_set_take)
  with init have "None \<notin> set (take k (memory b))" by auto
  with len show "wf_block (b\<lparr>memory := take k (memory b) @ replicate (BLOCK_SIZE - k) None, occupied := int k\<rparr>)"
    by (simp add: wf_block_def)
  show "mem_get (memory b) 0 (int k) = ret (take k (memory b))"
    using len by (simp add: mem_get_def)
  show "block_bytes (b\<lparr>memory := take k (memory b) @ replicate (BLOCK_SIZE - k) None, occupied := int k\<rparr>) =
      take k (block_bytes b)"
    using len k by (simp add: block_bytes_def take_map min_def)
qed

lemma resizes_truncate:
  assumes at: "file_at s f (ds @ a # bs)" and fr: "fresh s" and b: "blocks s a = Some b"
    and k: "0 < k" "k < BLOCK_SIZE" "k < nat (occupied b)"
  shows "resizes f s ds (a # bs) (Ptr a) k"
proof -
  from at b have wf: "wf_block b" and pk: "packed_at s ds"
    and full: "(\<exists>d \<in> set ds. occupied (block_at s d) < BLOCK_SIZE) \<Longrightarrow> occupied b = 0"
    by (auto simp: file_at_def packed_append)
  have occ: "0 \<le> occupied b" "occupied b \<le> BLOCK_SIZE" using wf by (auto simp: wf_block_def)
  have d: "a \<notin> set ds" "a \<notin> set bs" using file_at_distinct [OF at] by auto
  have k63: "k < 2 ^ 63" using k(2) by simp
  note sz = size_of_nat [OF k63] size_of_nat_ge [OF k63]
  let ?b = "b\<lparr>memory := take k (memory b) @ replicate (BLOCK_SIZE - k) None, occupied := int k\<rparr>"
  let ?s = "s\<lparr>blocks := (blocks s)(a \<mapsto> ?b)\<rparr>"
  have tr: "mem_get (memory b) 0 (int k) = ret (take k (memory b))" "wf_block ?b"
    "block_bytes ?b = take k (block_bytes b)"
    using mem_truncate [OF wf, of k] k by auto
  have u: "uint (word_of_nat k :: size_t) = int k"
    using sz(2) by (metis uint_nat)
  have occ_word: "(word_of_nat k :: size_t) < word_of_int (occupied b)"
  proof -
    have "word_of_int (occupied b) = (word_of_nat (nat (occupied b)) :: size_t)" using occ by simp
    moreover have "unat (word_of_nat (nat (occupied b)) :: size_t) = nat (occupied b)"
      using occ by (intro size_of_nat(2)) simp
    ultimately show ?thesis using k sz(2) by (simp add: word_less_nat_alt)
  qed
  have "resize_loop (Ptr f) s (Ptr a) (word_of_nat k) = ret (b_next b, ?s)"
    using b k sz occ_word tr(1) u
    by (subst resize_loop.simps, subst (3) resize_loop.simps) (simp add: upd_block_def)
  moreover from at obtain fi where fi: "files s f = Some fi"
    "chain b_next b_prev (blocks s) (heap_fill s) (block_list fi) (ds @ a # bs) Null"
    "last_block fi = last_ptr Null (ds @ a # bs)"
    by (auto simp: file_at_defs)
  moreover have "file_links ?s f (ds @ a # bs)"
    using fi b by (simp add: file_links_def chain_same_links)
  moreover have step: "file_step s ?s f (ds @ a # bs) []"
    by (rule file_stepI [OF fi(1), where p = "block_list fi" and q = "last_block fi"
          and h = "blocks ?s" and m = "next_addr s"]) (use fi in \<open>auto simp: fun_upd_idem\<close>)
  moreover have "fresh ?s" by (rule fresh_step [OF fr step at]) simp
  moreover have "packed_at ?s (ds @ [a])"
  proof -
    have "map (block_at ?s) (ds @ [a]) = map (block_at s) ds @ [?b]" using d by auto
    moreover have "packed (map (block_at s) ds @ [?b])"
      using pk tr(2) full k by (fastforce simp: packed_append)
    ultimately show ?thesis by (simp only:)
  qed
  moreover have "bytes_of ?s [a] = take k (bytes_of s (a # bs))"
    using tr(3) b k wf by (simp add: length_block_bytes)
  ultimately show ?thesis
    unfolding resizes_def using d file_at_next [OF at b]
    by (intro exI [of _ ?s] exI [of _ "[]"] exI [of _ "[a]"] exI [of _ bs]) auto
qed

lemma resize_loop_ok:
  assumes "file_at s f (ds @ bs)" "fresh s" "p = head_ptr bs Null" "k < 2 ^ 63"
    "BLOCK_SIZE dvd k \<or> k < length (bytes_of s bs)"
  shows "resizes f s ds bs p k"
  using assms
proof (induction "k + length bs" arbitrary: s ds bs p k rule: less_induct)
  case less
  show ?case
  proof (cases "k = 0")
    case True
    with less.prems show ?thesis by (auto intro: resizes_done)
  next
    case k: False
    show ?thesis
    proof (cases bs)
      case Nil
      with less.prems(5) k have k': "BLOCK_SIZE \<le> k" "BLOCK_SIZE dvd k" by (auto intro: dvd_imp_le)
      have "resizes f s1 (ds @ [n]) [] Null (k - BLOCK_SIZE)"
        if "file_at s1 f ((ds @ [n]) @ [])" "fresh s1" for s1 n
        by (rule less.hyps) (use that Nil less.prems k k' in auto)
      with Nil less.prems k' resizes_grow [of s f ds k] show ?thesis by simp
    next
      case (Cons a bs')
      then obtain b where b: "blocks s a = Some b" and wf: "wf_block b"
        using file_at_alloc [OF less.prems(1), of a] by auto
      have partial: "occupied b < BLOCK_SIZE \<Longrightarrow> bytes_of s bs' = []"
        using less.prems(1) b Cons by (auto simp: file_at_def packed_append intro: bytes_of_empty)
      have occ: "0 \<le> occupied b" "occupied b \<le> BLOCK_SIZE" "length (block_bytes b) = nat (occupied b)"
        using wf by (auto simp: wf_block_def length_block_bytes)
      show ?thesis
      proof (cases "BLOCK_SIZE \<le> k")
        case True
        have "BLOCK_SIZE dvd k - BLOCK_SIZE \<or> k - BLOCK_SIZE < length (bytes_of s bs')"
          using less.prems(5) Cons b occ True partial by (auto intro: dvd_diff_nat)
        then have "resizes f s (ds @ [a]) bs' (head_ptr bs' Null) (k - BLOCK_SIZE)"
          by (intro less.hyps) (use Cons less.prems True in auto)
        with Cons less.prems b True resizes_skip [of s f ds a bs' b k] show ?thesis by simp
      next
        case False
        with k have "\<not> BLOCK_SIZE dvd k" by (auto dest: dvd_imp_le)
        with less.prems(5) Cons b have "k < nat (occupied b) + length (bytes_of s bs')"
          using occ by simp
        with partial occ False have "k < nat (occupied b)" by (cases "occupied b < BLOCK_SIZE") auto
        with Cons less.prems b False k resizes_truncate [of s f ds a bs' b k] show ?thesis by simp
      qed
    qed
  qed
qed

section \<open>Sizes for which the loop never returns\<close>

text \<open>
  Once the loop runs past the end of the list with a size that is not a multiple of the block
  size, it appends a block and subtracts 512; the remainder modulo 512 never changes (\<open>size_t\<close>
  wraps at a multiple of 512), so the size never becomes 0.
\<close>

lemma unat_minus_block_mod: "unat (sz - BLOCK_SIZE :: size_t) mod BLOCK_SIZE = unat sz mod BLOCK_SIZE"
proof (cases "BLOCK_SIZE \<le> sz")
  case True
  then have "unat (sz - BLOCK_SIZE) = unat sz - BLOCK_SIZE" "BLOCK_SIZE \<le> unat sz"
    by (simp_all add: unat_sub word_le_nat_alt)
  then show ?thesis by (simp add: le_mod_geq)
next
  case False
  then have u: "unat (sz - BLOCK_SIZE) = 2 ^ 64 + unat sz - BLOCK_SIZE"
    by (simp add: unat_sub_if' word_le_nat_alt)
  have "2 ^ 64 + unat sz - BLOCK_SIZE = BLOCK_SIZE * (2 ^ 55 - 1) + unat sz" by simp
  then show ?thesis unfolding u by (simp only: mod_mult_self4)
qed

lemma resize_loop_diverges_at_end:
  assumes "file_at s f ds" "fresh s" "unat sz mod BLOCK_SIZE \<noteq> 0"
  shows "resize_loop (Ptr f) s Null sz = None"
proof (rule ccontr)
  let ?P = "\<lambda>g s block (sz :: size_t) (r :: ub + ptr \<times> ufs). \<forall>f ds. g = Ptr f \<longrightarrow> block = Null \<longrightarrow>
    file_at s f ds \<longrightarrow> fresh s \<longrightarrow> unat sz mod BLOCK_SIZE = 0"
  assume "resize_loop (Ptr f) s Null sz \<noteq> None"
  then obtain r where r: "resize_loop (Ptr f) s Null sz = Some r" by blast
  have "?P (Ptr f) s Null sz r"
  proof (rule resize_loop.raw_induct [where P = ?P, OF _ r], intro allI impI)
    fix rec g s block and sz :: size_t and r f ds
    assume IH: "\<And>g s block sz r. rec g s block sz = Some r \<Longrightarrow> ?P g s block sz r"
      and body: "(if sz = 0 then ret (block, s)
          else bindR (is_null block) (\<lambda>z.
            if z then
              bindR (create_block g s) (\<lambda>(block, s).
              bindR (load (blocks s) block) (\<lambda>b.
              rec g s (b_next b) (sz - BLOCK_SIZE)))
            else bindR (load (blocks s) block) (\<lambda>b.
              if sz \<ge> BLOCK_SIZE then rec g s (b_next b) (sz - BLOCK_SIZE)
              else if sz < word_of_int (occupied b) then
                bindR (mem_get (memory b) 0 (uint sz)) (\<lambda>kept.
                bindR (upd_block block (\<lambda>x. x\<lparr>memory := kept @ replicate (BLOCK_SIZE - unat sz) None,
                         occupied := uint sz\<rparr>) s) (\<lambda>s.
                rec g s (b_next b) 0))
              else rec g s (b_next b) sz))) = Some r"
      and g: "g = Ptr f" "block = Null" and at: "file_at s f ds" and fr: "fresh s"
    show "unat sz mod BLOCK_SIZE = 0"
    proof (cases "sz = 0")
      case False
      obtain s1 where cr: "create_block (Ptr f) s = ret (Ptr (next_addr s), s1)"
        and at1: "file_at s1 f (ds @ [next_addr s])" and fr1: "fresh s1"
        using create_block_ok [OF at fr] by auto
      obtain b where b: "blocks s1 (next_addr s) = Some b"
        using file_at_alloc [OF at1, of "next_addr s"] by auto
      have "b_next b = Null" using file_at_next [of s1 f ds "next_addr s" "[]" b] at1 b by simp
      with body g False cr b have "rec (Ptr f) s1 Null (sz - BLOCK_SIZE) = Some r" by simp
      from IH [OF this] at1 fr1 have "unat (sz - BLOCK_SIZE) mod BLOCK_SIZE = 0" by blast
      then show ?thesis by (simp only: unat_minus_block_mod)
    qed simp
  qed
  with assms show False by simp
qed

lemma resize_loop_diverges:
  assumes "file_at s f (ds @ bs)" "fresh s" "p = head_ptr bs Null" "k < 2 ^ 63"
    "\<not> BLOCK_SIZE dvd k" "length (bytes_of s bs) \<le> k"
  shows "resize_loop (Ptr f) s p (word_of_nat k) = None"
  using assms
proof (induction bs arbitrary: ds p k)
  case Nil
  then show ?case
    using resize_loop_diverges_at_end [of s f ds "word_of_nat k"]
    by (simp add: size_of_nat(2) dvd_eq_mod_eq_0)
next
  case (Cons a bs)
  note k = Cons.prems(4)
  obtain b where b: "blocks s a = Some b" and wf: "wf_block b"
    using file_at_alloc [OF Cons.prems(1), of a] by auto
  have at: "file_at s f ((ds @ [a]) @ bs)" using Cons.prems(1) by simp
  have partial: "occupied b < BLOCK_SIZE \<Longrightarrow> bytes_of s bs = []"
    using Cons.prems(1) b by (auto simp: file_at_def packed_append intro: bytes_of_empty)
  have occ: "0 \<le> occupied b" "occupied b \<le> BLOCK_SIZE" "length (block_bytes b) = nat (occupied b)"
    using wf by (auto simp: wf_block_def length_block_bytes)
  have next_b: "b_next b = head_ptr bs Null"
    by (rule file_at_next [of s f ds]) (use Cons.prems(1) b in auto)
  have nz: "(word_of_nat k :: size_t) \<noteq> 0" using size_of_nat(3) [OF k] Cons.prems(5) by auto
  show ?case
  proof (cases "BLOCK_SIZE \<le> k")
    case True
    have "resize_loop (Ptr f) s (head_ptr bs Null) (word_of_nat (k - BLOCK_SIZE)) = None"
    proof (rule Cons.IH [OF at Cons.prems(2) refl])
      show "\<not> BLOCK_SIZE dvd k - BLOCK_SIZE" using dvd_diffD [of BLOCK_SIZE k BLOCK_SIZE] Cons.prems(5) True by auto
      show "length (bytes_of s bs) \<le> k - BLOCK_SIZE"
        using Cons.prems(6) b occ partial by (cases "occupied b < BLOCK_SIZE") auto
      show "k - BLOCK_SIZE < 2 ^ 63" by (rule le_less_trans [OF diff_le_self k])
    qed
    moreover have "resize_loop (Ptr f) s p (word_of_nat k) =
        resize_loop (Ptr f) s (head_ptr bs Null) (word_of_nat k - BLOCK_SIZE)"
      using Cons.prems(3) b nz True size_of_nat_ge [OF k] next_b by (subst resize_loop.simps) simp
    ultimately show ?thesis by (simp only: size_of_nat_minus_block [OF True])
  next
    case False
    have small: "\<not> (word_of_nat k :: size_t) < word_of_int (occupied b)"
    proof -
      have "word_of_int (occupied b) = (word_of_nat (nat (occupied b)) :: size_t)" using occ by simp
      moreover have "unat (word_of_nat (nat (occupied b)) :: size_t) = nat (occupied b)"
        using occ by (intro size_of_nat(2)) simp
      moreover have "nat (occupied b) \<le> k" using Cons.prems(6) b occ by simp
      ultimately show ?thesis using size_of_nat(2) [OF k] by (simp add: word_less_nat_alt)
    qed
    have "resize_loop (Ptr f) s (head_ptr bs Null) (word_of_nat k) = None"
      by (rule Cons.IH [OF at Cons.prems(2) refl k Cons.prems(5)]) (use Cons.prems(6) b in simp)
    with False Cons.prems(3) b nz size_of_nat_ge [OF k] small next_b show ?thesis
      by (subst resize_loop.simps) simp
  qed
qed

end
