(* ===== verification/Ufs_Spec.thy ===== *)
theory Ufs_Spec
  imports Ufs_Model
begin

text \<open>
  What the file system promises, without blocks, lists or pointers: a directory of names, the
  bytes of every live file with the number of bytes that may still be written to it, and a
  table of descriptors with a position each. A deleted file lives on, without a name, as long
  as a descriptor is open on it. The field \<open>a_fill\<close> is not part of the file system: it is what \<open>malloc\<close>
  leaves in a pointer cell that is not written (\<open>ufs_open\<close> depends on it). Ufs_Refine shows that userfs.c implements these operations.
\<close>

record afile =
  a_data :: "byte list"
  a_left :: nat

record afd =
  a_file :: nat
  a_pos :: nat
  a_read :: bool
  a_write :: bool

record afs =
  a_err :: ufs_error_code
  a_dir :: "string \<rightharpoonup> nat"
  a_files :: "nat \<rightharpoonup> afile"
  a_fds :: "nat \<rightharpoonup> afd"
  a_fill :: ptr

definition max_size :: nat where
  "max_size = 104857600"

definition afs_init :: afs where
  "afs_init = \<lparr>a_err = UFS_ERR_NO_ERR, a_dir = Map.empty, a_files = Map.empty, a_fds = Map.empty, a_fill = Null\<rparr>"

definition afd_at :: "afs \<Rightarrow> int \<Rightarrow> afd option" where
  "afd_at A fd = (if fd < 0 then None else a_fds A (nat fd))"

definition first_free :: "afs \<Rightarrow> nat" where
  "first_free A = (LEAST i. a_fds A i = None)"

abbreviation spec_fail :: "ufs_error_code \<Rightarrow> afs \<Rightarrow> int \<times> afs" where
  "spec_fail e A \<equiv> (-1, A\<lparr>a_err := e\<rparr>)"

text \<open>A file without a name and without a descriptor is reclaimed.\<close>

definition used :: "afs \<Rightarrow> nat \<Rightarrow> bool" where
  "used A f \<longleftrightarrow> f \<in> ran (a_dir A) \<or> (\<exists>d \<in> ran (a_fds A). a_file d = f)"

definition reclaim :: "nat \<Rightarrow> afs \<Rightarrow> afs" where
  "reclaim f A = (if used A f then A else A\<lparr>a_files := (a_files A)(f := None)\<rparr>)"

definition attach :: "nat \<Rightarrow> flags \<Rightarrow> afs \<Rightarrow> int \<times> afs" where
  "attach f flags A = (int (first_free A), A\<lparr>a_fds := (a_fds A)(first_free A \<mapsto>
     \<lparr>a_file = f, a_pos = 0, a_read = open_can_read flags, a_write = open_can_write flags\<rparr>)\<rparr>)"

definition spec_open :: "string \<Rightarrow> flags \<Rightarrow> nat \<Rightarrow> afs \<Rightarrow> int \<times> afs" where
  "spec_open name flags new A = (case a_dir A name of
      Some f \<Rightarrow> attach f flags A
    | None \<Rightarrow>
        if is_permitted flags UFS_CREATE
        then attach new flags (A\<lparr>a_dir := (a_dir A)(name \<mapsto> new),
               a_files := (a_files A)(new \<mapsto> \<lparr>a_data = [], a_left = max_size\<rparr>)\<rparr>)
        else spec_fail UFS_ERR_NO_FILE A)"

definition write_at :: "nat \<Rightarrow> byte list \<Rightarrow> byte list \<Rightarrow> byte list" where
  "write_at pos w data = splice_at (min pos (length data)) w data"

definition spec_write :: "int \<Rightarrow> byte list \<Rightarrow> afs \<Rightarrow> int \<times> afs" where
  "spec_write fd w A = (case afd_at A fd of
      None \<Rightarrow> spec_fail UFS_ERR_NO_FILE A
    | Some d \<Rightarrow>
        if \<not> a_write d then spec_fail UFS_ERR_NO_PERMISSION A
        else let x = the (a_files A (a_file d)) in
          if a_left x < length w then spec_fail UFS_ERR_NO_MEM A
          else (int (length w), A\<lparr>
            a_files := (a_files A)(a_file d \<mapsto>
              \<lparr>a_data = write_at (a_pos d) w (a_data x), a_left = a_left x - length w\<rparr>),
            a_fds := (a_fds A)(nat fd \<mapsto> d\<lparr>a_pos := a_pos d + length w\<rparr>)\<rparr>))"

definition spec_read :: "int \<Rightarrow> nat \<Rightarrow> afs \<Rightarrow> int \<times> byte list \<times> afs" where
  "spec_read fd k A = (case afd_at A fd of
      None \<Rightarrow> (-1, [], A\<lparr>a_err := UFS_ERR_NO_FILE\<rparr>)
    | Some d \<Rightarrow>
        if \<not> a_read d then (-1, [], A\<lparr>a_err := UFS_ERR_NO_PERMISSION\<rparr>)
        else let out = take k (drop (a_pos d) (a_data (the (a_files A (a_file d))))) in
          (int (length out), out,
            A\<lparr>a_fds := (a_fds A)(nat fd \<mapsto> d\<lparr>a_pos := a_pos d + length out\<rparr>)\<rparr>))"

definition spec_close :: "int \<Rightarrow> afs \<Rightarrow> int \<times> afs" where
  "spec_close fd A = (case afd_at A fd of
      None \<Rightarrow> spec_fail UFS_ERR_NO_FILE A
    | Some d \<Rightarrow> (0, reclaim (a_file d) (A\<lparr>a_fds := (a_fds A)(nat fd := None)\<rparr>)))"

definition spec_delete :: "string \<Rightarrow> afs \<Rightarrow> int \<times> afs" where
  "spec_delete name A = (case a_dir A name of
      None \<Rightarrow> spec_fail UFS_ERR_NO_FILE A
    | Some f \<Rightarrow> (0, reclaim f (A\<lparr>a_dir := (a_dir A)(name := None)\<rparr>)))"

definition spec_resize :: "int \<Rightarrow> nat \<Rightarrow> afs \<Rightarrow> int \<times> afs" where
  "spec_resize fd k A = (case afd_at A fd of
      None \<Rightarrow> spec_fail UFS_ERR_NO_FILE A
    | Some d \<Rightarrow>
        if \<not> a_write d then spec_fail UFS_ERR_NO_PERMISSION A
        else if max_size < k then spec_fail UFS_ERR_NO_MEM A
        else let data = take k (a_data (the (a_files A (a_file d)))) in
          (0, A\<lparr>a_files := (a_files A)(a_file d \<mapsto> \<lparr>a_data = data, a_left = max_size - length data\<rparr>)\<rparr>))"

text \<open>The part of a file that a descriptor will read next.\<close>

definition unread :: "afs \<Rightarrow> int \<Rightarrow> byte list" where
  "unread A fd = (case afd_at A fd of None \<Rightarrow> []
     | Some d \<Rightarrow> drop (a_pos d) (a_data (the (a_files A (a_file d)))))"

lemmas spec_defs = spec_open_def spec_write_def spec_read_def spec_close_def spec_delete_def
  spec_resize_def

end
