(* ===== verification/Ufs_Inv.thy ===== *)
theory Ufs_Inv
  imports Ufs_Write Ufs_Resize Ufs_Spec
begin

text \<open>
  The invariant of the whole file system and its abstraction. The ghost arguments \<open>fl\<close> (the
  files of the file list, in order) and \<open>bl\<close> (the block list of each file) are determined by
  the pointers in the state. Besides the shape of the lists the invariant says that every
  allocated object is reachable (no leaks), that reference counts count descriptors, and that
  no file exceeds the maximal size.
\<close>

interpretation fnode: dnode f_next f_prev "\<lambda>p x. x\<lparr>f_next := p\<rparr>" "\<lambda>p x. x\<lparr>f_prev := p\<rparr>"
  by unfold_locales simp_all

section \<open>The invariant\<close>

abbreviation file_of :: "ufs \<Rightarrow> nat \<Rightarrow> ufs_file" where
  "file_of s f \<equiv> the (files s f)"

definition slots :: "ufs \<Rightarrow> ptr list" where
  "slots s = (case file_descriptors s of FdArray xs \<Rightarrow> xs | _ \<Rightarrow> [])"

definition users :: "ufs \<Rightarrow> nat \<Rightarrow> nat set" where
  "users s f = {a. \<exists>d. filedescs s a = Some d \<and> fd_file d = Ptr f}"

definition dir_inv :: "ufs \<Rightarrow> nat list \<Rightarrow> bool" where
  "dir_inv s fl \<longleftrightarrow> chain f_next f_prev (files s) Null (file_list s) fl Null
     \<and> distinct (map (\<lambda>f. f_name (file_of s f)) fl)"

definition file_wf :: "ufs \<Rightarrow> nat list \<Rightarrow> (nat \<Rightarrow> nat list) \<Rightarrow> nat \<Rightarrow> bool" where
  "file_wf s fl bl f \<longleftrightarrow> file_at s f (bl f)
     \<and> (in_list (file_of s f) \<longleftrightarrow> f \<in> set fl)
     \<and> unat (bytes_left (file_of s f)) + length (bytes_of s (bl f)) \<le> max_size
     \<and> refs (file_of s f) = int (card (users s f))"

definition live :: "ufs \<Rightarrow> nat list \<Rightarrow> nat \<Rightarrow> bool" where
  "live s fl f \<longleftrightarrow> f \<in> set fl \<or> users s f \<noteq> {}"

definition heap_inv :: "ufs \<Rightarrow> (nat \<Rightarrow> nat list) \<Rightarrow> bool" where
  "heap_inv s bl \<longleftrightarrow> fresh s
     \<and> (\<forall>f \<in> dom (files s). \<forall>g \<in> dom (files s). f \<noteq> g \<longrightarrow> set (bl f) \<inter> set (bl g) = {})
     \<and> dom (blocks s) = (\<Union>f \<in> dom (files s). set (bl f))"

text \<open>The pointers in the descriptor array and the set of allocated descriptors.\<close>

definition fd_table :: "ptr list \<Rightarrow> nat set \<Rightarrow> bool" where
  "fd_table xs D \<longleftrightarrow> Junk \<notin> set xs
     \<and> (\<forall>i j a. i < length xs \<longrightarrow> j < length xs \<longrightarrow> xs ! i = Ptr a \<longrightarrow> xs ! j = Ptr a \<longrightarrow> i = j)
     \<and> D = {a. Ptr a \<in> set xs}"

definition fd_inv :: "ufs \<Rightarrow> bool" where
  "fd_inv s \<longleftrightarrow> file_descriptors s \<noteq> FdFreed \<and> file_descriptors s \<noteq> FdArray []
     \<and> fd_capacity s = int (length (slots s))
     \<and> fd_count s = int (length (filter (\<lambda>p. p \<noteq> Null) (slots s)))
     \<and> fd_table (slots s) (dom (filedescs s))
     \<and> (\<forall>d \<in> ran (filedescs s). is_occupied d \<and> 0 \<le> fd_offset d \<and> (\<exists>f \<in> dom (files s). fd_file d = Ptr f))"

text \<open>
  Inside \<open>ufs_open\<close>, \<open>ufs_close\<close> and \<open>ufs_delete\<close> one file may have neither a name nor a
  descriptor: \<open>inv_except f\<close> is the invariant without the liveness of \<open>f\<close>.
\<close>

definition inv_except :: "nat \<Rightarrow> ufs \<Rightarrow> nat list \<Rightarrow> (nat \<Rightarrow> nat list) \<Rightarrow> bool" where
  "inv_except f s fl bl \<longleftrightarrow> dir_inv s fl \<and> heap_inv s bl \<and> fd_inv s
     \<and> (\<forall>g \<in> dom (files s). file_wf s fl bl g \<and> (g = f \<or> live s fl g))"

definition ufs_inv :: "ufs \<Rightarrow> nat list \<Rightarrow> (nat \<Rightarrow> nat list) \<Rightarrow> bool" where
  "ufs_inv s fl bl \<longleftrightarrow> dir_inv s fl \<and> heap_inv s bl \<and> fd_inv s
     \<and> (\<forall>f \<in> dom (files s). file_wf s fl bl f \<and> live s fl f)"

section \<open>The abstraction\<close>

definition abs_dir :: "ufs \<Rightarrow> nat list \<Rightarrow> (string \<rightharpoonup> nat)" where
  "abs_dir s fl = map_of (map (\<lambda>f. (f_name (file_of s f), f)) fl)"

definition abs_files :: "ufs \<Rightarrow> (nat \<Rightarrow> nat list) \<Rightarrow> (nat \<rightharpoonup> afile)" where
  "abs_files s bl = (\<lambda>f. map_option (\<lambda>fi.
     \<lparr>a_data = bytes_of s (bl f), a_left = unat (bytes_left fi)\<rparr>) (files s f))"

fun addr :: "ptr \<Rightarrow> nat" where
  "addr (Ptr a) = a"
| "addr _ = 0"

definition abs_fd :: "filedesc \<Rightarrow> afd" where
  "abs_fd d = \<lparr>a_file = addr (fd_file d), a_pos = nat (fd_offset d), a_read = can_read d, a_write = can_write d\<rparr>"

definition abs_fds :: "ufs \<Rightarrow> (nat \<rightharpoonup> afd)" where
  "abs_fds s = (\<lambda>i. if i < length (slots s)
     then (case slots s ! i of Ptr a \<Rightarrow> map_option abs_fd (filedescs s a) | _ \<Rightarrow> None) else None)"

definition abs_ufs :: "ufs \<Rightarrow> nat list \<Rightarrow> (nat \<Rightarrow> nat list) \<Rightarrow> afs" where
  "abs_ufs s fl bl = \<lparr>a_err = error_code s, a_dir = abs_dir s fl, a_files = abs_files s bl, a_fds = abs_fds s, a_fill = heap_fill s\<rparr>"

text \<open>\<open>refines s A\<close>: the state \<open>s\<close> is well formed and represents the abstract file system \<open>A\<close>.\<close>

definition refines :: "ufs \<Rightarrow> afs \<Rightarrow> bool" where
  "refines s A \<longleftrightarrow> (\<exists>fl bl. ufs_inv s fl bl \<and> A = abs_ufs s fl bl)"

lemma refinesI: "ufs_inv s fl bl \<Longrightarrow> A = abs_ufs s fl bl \<Longrightarrow> refines s A"
  by (auto simp: refines_def)

lemma slots_init [simp]: "slots (ufs_init fill) = []"
  by (simp add: slots_def ufs_init_def)

lemma refines_init: "refines (ufs_init Null) afs_init"
proof (rule refinesI)
  show "ufs_inv (ufs_init Null) [] (\<lambda>_. [])"
    by (auto simp: ufs_inv_def dir_inv_def heap_inv_def fd_inv_def fd_table_def fresh_def ran_def slots_def ufs_init_def)
  show "afs_init = abs_ufs (ufs_init Null) [] (\<lambda>_. [])"
    by (simp add: afs_init_def abs_ufs_def abs_dir_def abs_files_def abs_fds_def fun_eq_iff)
      (simp add: ufs_init_def)
qed

end
