(* ===== verification/Ufs_Refine.thy ===== *)
theory Ufs_Refine
  imports Ufs_Inv
begin

text \<open>
  The refinement: on every well-formed state, each function of userfs.c returns, reaches no
  undefined behaviour, leads to a well-formed state, and does to the abstraction what Ufs_Spec
  says. This theory holds the consequences of the invariant and the step that changes one file;
  Ufs_Io and Ufs_Names treat the functions.
\<close>

section \<open>Consequences of the invariant\<close>

lemma file_at_cong:
  assumes "files s' f = files s f" "heap_fill s' = heap_fill s"
    "\<And>a. a \<in> set bs \<Longrightarrow> blocks s' a = blocks s a"
  shows "file_at s' f bs \<longleftrightarrow> file_at s f bs"
proof -
  have "chain b_next b_prev (blocks s') bk p bs q \<longleftrightarrow> chain b_next b_prev (blocks s) bk p bs q" for bk p q
    using assms(3) by (auto elim!: chain_frame)
  moreover have "packed_at s' bs \<longleftrightarrow> packed_at s bs"
    by (rule packed_at_cong) (use assms(3) in auto)
  ultimately show ?thesis
    using assms by (simp add: file_at_defs)
qed

lemma fd_none:
  assumes inv: "ufs_inv s fl bl" and none: "afd_at (abs_ufs s fl bl) fd = None"
  shows "is_valid_fd s fd = ret False"
proof (cases "fd < 0 \<or> fd \<ge> fd_capacity s")
  case True
  then show ?thesis by (simp add: is_valid_fd_def)
next
  case False
  then have i: "nat fd < length (slots s)" using inv by (auto simp: ufs_inv_def fd_inv_def)
  have arr: "file_descriptors s = FdArray (slots s)"
    using i by (cases "file_descriptors s") (auto simp: slots_def)
  have "slots s ! nat fd \<in> set (slots s)" using i by simp
  moreover have "slots s ! nat fd = Null"
  proof (cases "slots s ! nat fd")
    case (Ptr a)
    then have "a \<in> dom (filedescs s)" using inv i by (auto simp: ufs_inv_def fd_inv_def fd_table_def in_set_conv_nth)
    with Ptr none False i show ?thesis by (auto simp: afd_at_def abs_ufs_def abs_fds_def)
  next
    case Junk
    with i inv show ?thesis by (auto simp: ufs_inv_def fd_inv_def fd_table_def in_set_conv_nth)
  qed
  ultimately show ?thesis
    using False i arr by (simp add: is_valid_fd_def fd_read_def)
qed

lemma fd_some:
  assumes inv: "ufs_inv s fl bl" and some: "afd_at (abs_ufs s fl bl) fd = Some d'"
  obtains i a d f fi where "fd = int i" "i < length (slots s)" "slots s ! i = Ptr a"
    "filedescs s a = Some d" "fd_file d = Ptr f" "files s f = Some fi" "d' = abs_fd d" "a_file d' = f"
    "is_valid_fd s fd = ret True" "fd_read s fd = ret (Ptr a)" "0 \<le> fd_offset d"
    "file_descriptors s = FdArray (slots s)"
proof -
  from some have i: "0 \<le> fd" "nat fd < length (slots s)" and d': "abs_fds s (nat fd) = Some d'"
    by (auto simp: afd_at_def abs_ufs_def abs_fds_def split: if_splits)
  then obtain a d where a: "slots s ! nat fd = Ptr a" "filedescs s a = Some d" "d' = abs_fd d"
    by (auto simp: abs_fds_def split: ptr.splits)
  then have "d \<in> ran (filedescs s)" by (auto simp: ran_def)
  with inv obtain f fi where f: "fd_file d = Ptr f" "files s f = Some fi" "is_occupied d" "0 \<le> fd_offset d"
    unfolding ufs_inv_def fd_inv_def by blast
  have arr: "file_descriptors s = FdArray (slots s)"
    using i by (cases "file_descriptors s") (auto simp: slots_def)
  have cap: "fd_capacity s = int (length (slots s))" using inv by (simp add: ufs_inv_def fd_inv_def)
  have rd: "fd_read s fd = ret (Ptr a)" using arr i a by (simp add: fd_read_def)
  moreover have "is_valid_fd s fd = ret True"
    using rd i cap a f by (simp add: is_valid_fd_def)
  ultimately show ?thesis
    using that [of "nat fd" a d f fi] i a f arr by (simp add: abs_fd_def)
qed

lemma inv_file:
  assumes "ufs_inv s fl bl" "files s f = Some fi"
  shows "file_at s f (bl f)" "in_list fi \<longleftrightarrow> f \<in> set fl"
    "unat (bytes_left fi) + length (bytes_of s (bl f)) \<le> max_size"
    "refs fi = int (card (users s f))" "f \<in> set fl \<or> users s f \<noteq> {}"
proof -
  have "file_wf s fl bl f" "live s fl f" using assms unfolding ufs_inv_def by blast+
  with assms(2) show "file_at s f (bl f)" "in_list fi \<longleftrightarrow> f \<in> set fl"
    "unat (bytes_left fi) + length (bytes_of s (bl f)) \<le> max_size"
    "refs fi = int (card (users s f))" "f \<in> set fl \<or> users s f \<noteq> {}"
    by (simp_all add: file_wf_def live_def)
qed

lemma inv_fresh: "ufs_inv s fl bl \<Longrightarrow> fresh s"
  by (simp add: ufs_inv_def heap_inv_def)

lemma inv_disjoint:
  "ufs_inv s fl bl \<Longrightarrow> files s f = Some fi \<Longrightarrow> files s g = Some gi \<Longrightarrow> f \<noteq> g \<Longrightarrow>
    set (bl f) \<inter> set (bl g) = {}"
  unfolding ufs_inv_def heap_inv_def by (blast dest: domI)

lemma finite_users: "ufs_inv s fl bl \<Longrightarrow> finite (users s f)"
proof -
  assume inv: "ufs_inv s fl bl"
  have "a < next_addr s" if "a \<in> users s f" for a
  proof (rule ccontr)
    assume "\<not> a < next_addr s"
    with inv_fresh [OF inv] have "filedescs s a = None" by (simp add: fresh_def)
    with that show False by (simp add: users_def)
  qed
  then have "users s f \<subseteq> {..<next_addr s}" by auto
  then show ?thesis by (rule finite_subset) simp
qed

lemma set_error_inv: "ufs_inv s fl bl \<Longrightarrow> ufs_inv (s\<lparr>error_code := e\<rparr>) fl bl"
proof -
  assume inv: "ufs_inv s fl bl"
  let ?s = "s\<lparr>error_code := e\<rparr>"
  have "slots ?s = slots s" "users ?s = users s" "bytes_of ?s = bytes_of s" "fresh ?s = fresh s"
    by (simp_all add: slots_def users_def bytes_of_def fresh_def fun_eq_iff)
  moreover have "file_at ?s f bs = file_at s f bs" for f bs
    by (rule file_at_cong) simp_all
  ultimately show ?thesis
    using inv by (simp add: ufs_inv_def dir_inv_def heap_inv_def fd_inv_def file_wf_def live_def)
qed

lemma set_error_abs: "abs_ufs (s\<lparr>error_code := e\<rparr>) fl bl = (abs_ufs s fl bl)\<lparr>a_err := e\<rparr>"
proof -
  have "slots (s\<lparr>error_code := e\<rparr>) = slots s" "bytes_of (s\<lparr>error_code := e\<rparr>) = bytes_of s"
    by (simp_all add: slots_def bytes_of_def fun_eq_iff)
  moreover from this have "abs_fds (s\<lparr>error_code := e\<rparr>) = abs_fds s"
    by (simp add: abs_fds_def fun_eq_iff split: ptr.split)
  ultimately show ?thesis by (simp add: abs_ufs_def abs_dir_def abs_files_def)
qed

section \<open>Changing one file and one descriptor\<close>

text \<open>
  \<open>content_step\<close>: the links, bytes and budget of the file \<open>f\<close> and the position of descriptors
  change, nothing else: what \<open>ufs_write\<close>, \<open>ufs_read\<close> and \<open>ufs_resize\<close> do to a state.
\<close>

definition content_step :: "ufs \<Rightarrow> ufs \<Rightarrow> nat \<Rightarrow> nat list \<Rightarrow> nat list \<Rightarrow> bool" where
  "content_step s s' f bs bs' \<longleftrightarrow>
     (\<exists>fi p q n. files s f = Some fi \<and>
        files s' = (files s)(f \<mapsto> fi\<lparr>block_list := p, last_block := q, bytes_left := n\<rparr>))
     \<and> dom (filedescs s') = dom (filedescs s)
     \<and> (\<forall>a d d'. filedescs s a = Some d \<longrightarrow> filedescs s' a = Some d' \<longrightarrow>
          (\<exists>k. d' = d\<lparr>fd_offset := fd_offset d + int k\<rparr>))
     \<and> (\<forall>a. a \<notin> set bs \<longrightarrow> a \<notin> set bs' \<longrightarrow> blocks s' a = blocks s a)
     \<and> (\<forall>a \<in> set bs'. a \<in> set bs \<or> next_addr s \<le> a) \<and> (\<forall>a \<in> set bs. a \<notin> set bs' \<longrightarrow> blocks s' a = None)
     \<and> file_list s' = file_list s \<and> file_descriptors s' = file_descriptors s
     \<and> fd_count s' = fd_count s \<and> fd_capacity s' = fd_capacity s \<and> heap_fill s' = heap_fill s
     \<and> error_code s' = error_code s"

lemma content_step_desc:
  assumes "content_step s s' f bs bs'" "filedescs s' a = Some d'"
  shows "\<exists>d k. filedescs s a = Some d \<and> d' = d\<lparr>fd_offset := fd_offset d + int k\<rparr>"
proof -
  have "dom (filedescs s') = dom (filedescs s)"
    and "\<And>d. filedescs s a = Some d \<Longrightarrow> \<exists>k. d' = d\<lparr>fd_offset := fd_offset d + int k\<rparr>"
    using assms by (auto simp: content_step_def)
  with assms(2) show ?thesis by (metis domD domI)
qed

lemma content_step_users:
  assumes st: "content_step s s' f bs bs'"
  shows "users s' g = users s g"
proof (intro set_eqI iffI)
  fix a assume "a \<in> users s' g"
  then obtain d' where "filedescs s' a = Some d'" "fd_file d' = Ptr g" by (auto simp: users_def)
  with content_step_desc [OF st, of a d'] show "a \<in> users s g" by (auto simp: users_def)
next
  fix a assume "a \<in> users s g"
  then obtain d where d: "filedescs s a = Some d" "fd_file d = Ptr g" by (auto simp: users_def)
  moreover from d st obtain d' where "filedescs s' a = Some d'" by (auto simp: content_step_def) (metis domD domI)
  ultimately show "a \<in> users s' g" using content_step_desc [OF st, of a d'] by (auto simp: users_def)
qed

lemma content_step_frame:
  assumes st: "content_step s s' f bs bs'"
  shows "dom (files s') = dom (files s)" "f_name (file_of s' g) = f_name (file_of s g)" "slots s' = slots s"
    "in_list (file_of s' g) = in_list (file_of s g)" "refs (file_of s' g) = refs (file_of s g)"
    "g \<noteq> f \<Longrightarrow> files s' g = files s g"
proof -
  obtain fi p q n where fi: "files s f = Some fi" "files s' = (files s)(f \<mapsto> fi\<lparr>block_list := p, last_block := q, bytes_left := n\<rparr>)"
    using st by (auto simp: content_step_def)
  then show "dom (files s') = dom (files s)" "f_name (file_of s' g) = f_name (file_of s g)"
    "in_list (file_of s' g) = in_list (file_of s g)" "refs (file_of s' g) = refs (file_of s g)"
    "g \<noteq> f \<Longrightarrow> files s' g = files s g" by auto
  show "slots s' = slots s" using st by (simp add: content_step_def slots_def)
qed

text \<open>The other files.\<close>

lemma content_step_other:
  assumes inv: "ufs_inv s fl bl" and st: "content_step s s' f (bl f) bs'" and g: "files s g = Some gi" "g \<noteq> f"
  shows "file_at s' g (bl g)" "bytes_of s' (bl g) = bytes_of s (bl g)" "set bs' \<inter> set (bl g) = {}"
proof -
  obtain fi where fi: "files s f = Some fi" using st by (auto simp: content_step_def)
  have old: "a < next_addr s \<and> a \<notin> set (bl f)" if "a \<in> set (bl g)" for a
    using fresh_notin [OF inv_fresh [OF inv] inv_file(1) [OF inv g(1)] that] inv_disjoint [OF inv fi g(1)] g(2) that by auto
  with st show "set bs' \<inter> set (bl g) = {}" by (fastforce simp: content_step_def)
  then have other: "blocks s' a = blocks s a" if "a \<in> set (bl g)" for a
    using st old [OF that] that unfolding content_step_def by blast
  have "file_at s' g (bl g) \<longleftrightarrow> file_at s g (bl g)"
    by (rule file_at_cong) (use content_step_frame(6) [OF st g(2)] st other in \<open>auto simp: content_step_def\<close>)
  then show "file_at s' g (bl g)" using inv_file(1) [OF inv g(1)] by simp
  show "bytes_of s' (bl g) = bytes_of s (bl g)" by (rule bytes_of_cong) (use other in auto)
qed

lemma content_step_heap:
  assumes inv: "ufs_inv s fl bl" and st: "content_step s s' f (bl f) bs'"
    and at': "file_at s' f bs'" and fr': "fresh s'"
  shows "heap_inv s' (bl(f := bs'))"
proof -
  obtain fi where fi: "files s f = Some fi" using st by (auto simp: content_step_def)
  note dom = content_step_frame(1) [OF st] and other = content_step_other [OF inv st]
  have "\<forall>g \<in> dom (files s'). \<forall>h \<in> dom (files s'). g \<noteq> h \<longrightarrow>
      set ((bl(f := bs')) g) \<inter> set ((bl(f := bs')) h) = {}"
    unfolding dom using inv_disjoint [OF inv] other(3) by (auto simp: domIff) (blast+)?
  moreover have "dom (blocks s') = (\<Union>g \<in> dom (files s'). set ((bl(f := bs')) g))"
  proof (intro set_eqI iffI)
    fix a assume a: "a \<in> dom (blocks s')"
    show "a \<in> (\<Union>g \<in> dom (files s'). set ((bl(f := bs')) g))"
    proof (cases "a \<in> set bs'")
      case True
      then show ?thesis using fi dom by (auto intro!: bexI [of _ f])
    next
      case False
      have "a \<notin> set (bl f)" using st False a by (auto simp: content_step_def)
      with False st a have "a \<in> dom (blocks s)" by (auto simp: content_step_def)
      with inv obtain g where "g \<in> dom (files s)" "a \<in> set (bl g)"
        by (auto simp: ufs_inv_def heap_inv_def)
      with \<open>a \<notin> set (bl f)\<close> show ?thesis unfolding dom by (intro UN_I [of g]) auto
    qed
  next
    fix a assume "a \<in> (\<Union>g \<in> dom (files s'). set ((bl(f := bs')) g))"
    then obtain g gi where g: "files s g = Some gi" "a \<in> set ((bl(f := bs')) g)" unfolding dom by auto
    show "a \<in> dom (blocks s')"
      using g other(1) [OF g(1)] at' file_at_alloc by (cases "g = f") fastforce+
  qed
  ultimately show ?thesis
    using inv fr' st by (simp add: ufs_inv_def heap_inv_def content_step_def)
qed

lemma content_step_fd_inv:
  assumes inv: "ufs_inv s fl bl" and st: "content_step s s' f bs bs'"
  shows "fd_inv s'"
proof -
  have "\<forall>d' \<in> ran (filedescs s'). is_occupied d' \<and> 0 \<le> fd_offset d' \<and> (\<exists>f \<in> dom (files s'). fd_file d' = Ptr f)"
  proof
    fix d' assume "d' \<in> ran (filedescs s')"
    then obtain a where "filedescs s' a = Some d'" by (auto simp: ran_def)
    with content_step_desc [OF st] obtain d k where d: "filedescs s a = Some d" "d' = d\<lparr>fd_offset := fd_offset d + int k\<rparr>" by blast
    then have "d \<in> ran (filedescs s)" by (auto simp: ran_def)
    with inv d content_step_frame(1) [OF st] show "is_occupied d' \<and> 0 \<le> fd_offset d' \<and> (\<exists>f \<in> dom (files s'). fd_file d' = Ptr f)"
      by (auto simp: ufs_inv_def fd_inv_def)
  qed
  with inv st content_step_frame(3) [OF st] show ?thesis by (simp add: ufs_inv_def fd_inv_def content_step_def)
qed

lemma content_step_inv:
  assumes inv: "ufs_inv s fl bl" and st: "content_step s s' f (bl f) bs'"
    and at': "file_at s' f bs'" and fr': "fresh s'"
    and size': "unat (bytes_left (file_of s' f)) + length (bytes_of s' bs') \<le> max_size"
  shows "ufs_inv s' fl (bl(f := bs'))"
    and "abs_ufs s' fl (bl(f := bs')) = (abs_ufs s fl bl)\<lparr>
      a_files := (a_files (abs_ufs s fl bl))(f \<mapsto>
        \<lparr>a_data = bytes_of s' bs', a_left = unat (bytes_left (file_of s' f))\<rparr>),
      a_fds := abs_fds s'\<rparr>"
proof -
  obtain fi p q n where fi: "files s f = Some fi" and
    fs': "files s' = (files s)(f \<mapsto> fi\<lparr>block_list := p, last_block := q, bytes_left := n\<rparr>)"
    using st by (auto simp: content_step_def)
  note frame = content_step_frame [OF st] and users = content_step_users [OF st] and other = content_step_other [OF inv st]
  have "file_list s' = file_list s" "error_code s' = error_code s" "heap_fill s' = heap_fill s"
    using st by (auto simp: content_step_def)
  note keep = this
  have "dir_inv s' fl"
    using inv fs' fi keep frame(2) by (simp add: ufs_inv_def dir_inv_def chain_same_links)
  moreover have "file_wf s' fl (bl(f := bs')) g \<and> live s' fl g" if "g \<in> dom (files s')" for g
  proof (cases "g = f")
    case True
    with inv_file [OF inv fi] at' size' fs' users show ?thesis by (simp add: file_wf_def live_def)
  next
    case False
    with that frame(1) obtain gi where gi: "files s g = Some gi" by auto
    with inv_file [OF inv gi] False fs' users other(1,2) show ?thesis
      by (simp add: file_wf_def live_def)
  qed
  ultimately show "ufs_inv s' fl (bl(f := bs'))"
    using content_step_heap [OF inv st at' fr'] content_step_fd_inv [OF inv st] by (simp add: ufs_inv_def)
  have "abs_files s' (bl(f := bs')) = (abs_files s bl)(f \<mapsto>
      \<lparr>a_data = bytes_of s' bs', a_left = unat (bytes_left (file_of s' f))\<rparr>)"
  proof
    fix g
    show "abs_files s' (bl(f := bs')) g = ((abs_files s bl)(f \<mapsto>
      \<lparr>a_data = bytes_of s' bs', a_left = unat (bytes_left (file_of s' f))\<rparr>)) g"
      using fs' other(2) [of g] by (cases "files s g") (auto simp: abs_files_def)
  qed
  moreover have "abs_dir s' fl = abs_dir s fl" using frame(2) by (simp add: abs_dir_def)
  ultimately show "abs_ufs s' fl (bl(f := bs')) = (abs_ufs s fl bl)\<lparr>
      a_files := (a_files (abs_ufs s fl bl))(f \<mapsto>
        \<lparr>a_data = bytes_of s' bs', a_left = unat (bytes_left (file_of s' f))\<rparr>),
      a_fds := abs_fds s'\<rparr>"
    using keep by (simp add: abs_ufs_def)
qed

lemma abs_fds_update:
  assumes inv: "ufs_inv s fl bl" and i: "i < length (slots s)" "slots s ! i = Ptr a"
    and s': "slots s' = slots s" "filedescs s' = (filedescs s)(a \<mapsto> d)"
  shows "abs_fds s' = (abs_fds s)(i \<mapsto> abs_fd d)"
proof
  fix j
  have "\<forall>i j a. i < length (slots s) \<longrightarrow> j < length (slots s) \<longrightarrow>
          slots s ! i = Ptr a \<longrightarrow> slots s ! j = Ptr a \<longrightarrow> i = j"
    using inv by (simp add: ufs_inv_def fd_inv_def fd_table_def)
  then have other: "slots s ! j \<noteq> Ptr a" if "j < length (slots s)" "j \<noteq> i"
    using i that by blast
  show "abs_fds s' j = ((abs_fds s)(i \<mapsto> abs_fd d)) j"
  proof (cases "j = i")
    case True
    then show ?thesis using i by (simp add: abs_fds_def s')
  next
    case False
    with other show ?thesis by (cases "j < length (slots s)") (auto simp: abs_fds_def s' split: ptr.split)
  qed
qed

lemma abs_fds_same: "slots s' = slots s \<Longrightarrow> filedescs s' = filedescs s \<Longrightarrow> abs_fds s' = abs_fds s"
  by (rule ext) (simp add: abs_fds_def split: ptr.split)

lemma refines_fail: "refines s A \<Longrightarrow> refines (s\<lparr>error_code := e\<rparr>) (A\<lparr>a_err := e\<rparr>)"
  unfolding refines_def by (metis set_error_inv set_error_abs)

lemma a_files_abs: "files s f = Some fi \<Longrightarrow>
    a_files (abs_ufs s fl bl) f = Some \<lparr>a_data = bytes_of s (bl f), a_left = unat (bytes_left fi)\<rparr>"
  by (simp add: abs_ufs_def abs_files_def)

lemma abs_fd_simps [simp]:
  "a_pos (abs_fd d) = nat (fd_offset d)" "a_read (abs_fd d) = can_read d" "a_write (abs_fd d) = can_write d"
  by (simp_all add: abs_fd_def)

lemma abs_fd_move:
  "0 \<le> fd_offset d \<Longrightarrow> abs_fd (d\<lparr>fd_offset := fd_offset d + int k\<rparr>) = (abs_fd d)\<lparr>a_pos := nat (fd_offset d) + k\<rparr>"
  by (simp add: abs_fd_def nat_add_distrib)

end
