(* ===== verification/Ufs_Io.thy ===== *)
theory Ufs_Io
  imports Ufs_Refine
begin

text \<open>
  The refinement of the three functions that work on a file's bytes through a descriptor:
  \<open>ufs_write\<close>, \<open>ufs_read\<close> and \<open>ufs_resize\<close>. Each is a \<open>content_step\<close> on one file.
\<close>

section \<open>Writing\<close>

text \<open>The part of \<open>ufs_write\<close> after its checks.\<close>

lemma write_body:
  assumes inv: "ufs_inv s fl bl" and i: "i < length (slots s)" "slots s ! i = Ptr a"
    and d: "filedescs s a = Some d" "fd_file d = Ptr f" "0 \<le> fd_offset d" and fi: "files s f = Some fi"
    and k: "0 < k \<or> bl f \<noteq> []" "k \<le> unat (bytes_left fi)" "k \<le> length buf"
  shows "\<exists>s1 s' fi1. write_loop (Ptr f) buf s (block_list fi) (fd_offset d) 0 (word_of_nat k) = ret (int k, s1)
    \<and> files s1 f = Some fi1 \<and> bytes_left fi1 = bytes_left fi
    \<and> filedescs s1 = filedescs s
    \<and> (\<exists>l. last_block_from s1 (block_list fi1) = ret (Ptr l)
        \<and> s' = s1\<lparr>filedescs := (filedescs s)(a \<mapsto> d\<lparr>fd_offset := fd_offset d + int k\<rparr>),
              files := (files s1)(f \<mapsto> fi1\<lparr>bytes_left := bytes_left fi - word_of_nat k, last_block := Ptr l\<rparr>)\<rparr>)
    \<and> (\<exists>bl'. ufs_inv s' fl bl' \<and> abs_ufs s' fl bl' = (abs_ufs s fl bl)\<lparr>
         a_files := (a_files (abs_ufs s fl bl))(f \<mapsto>
           \<lparr>a_data = write_at (nat (fd_offset d)) (take k buf) (bytes_of s (bl f)),
            a_left = unat (bytes_left fi) - k\<rparr>),
         a_fds := (a_fds (abs_ufs s fl bl))(i \<mapsto> (abs_fd d)\<lparr>a_pos := nat (fd_offset d) + k\<rparr>)\<rparr>)"
proof -
  have at: "file_at s f (bl f)" and fr: "fresh s" and max: "unat (bytes_left fi) + length (bytes_of s (bl f)) \<le> max_size"
    using inv_file [OF inv fi] inv_fresh [OF inv] by auto
  have k63: "k < 2 ^ 63" using k(2) max by (simp add: max_size_def)
  have start: "block_list fi = head_ptr (bl f) Null"
    using at fi by (auto simp: file_at_defs dest: chain_head)
  have "writes f buf s [] (bl f) (block_list fi) (nat (fd_offset d)) 0 k"
    by (rule write_loop_ok) (use at fr start k63 k in auto)
  then obtain s1 ns where
      wl: "write_loop (Ptr f) buf s (block_list fi) (fd_offset d) 0 (word_of_nat k) = ret (int k, s1)"
    and st: "file_step s s1 f (bl f) ns" and at1: "file_at s1 f (bl f @ ns)" and fr1: "fresh s1"
    and by1: "bytes_of s1 (bl f @ ns) = write_at (nat (fd_offset d)) (take k buf) (bytes_of s (bl f))"
    using d(3) by (auto simp: writes_def write_at_def)
  note keep = file_step_frame [OF st]
  obtain fi1 where fi1: "files s1 f = Some fi1"
    and ch1: "chain b_next b_prev (blocks s1) (heap_fill s1) (block_list fi1) (bl f @ ns) Null"
    and last1: "last_block fi1 = last_ptr Null (bl f @ ns)"
    using at1 by (auto simp: file_at_defs)
  obtain p q where fi1': "fi1 = fi\<lparr>block_list := p, last_block := q\<rparr>"
    using file_step_file [OF st] fi fi1 by (metis option.inject)
  have len: "length (write_at (nat (fd_offset d)) (take k buf) (bytes_of s (bl f))) \<le> length (bytes_of s (bl f)) + k"
    using k(3) by (simp add: write_at_def length_splice_at_max)
  have ne: "bl f @ ns \<noteq> []"
  proof
    assume "bl f @ ns = []"
    with by1 k(1,3) show False by (simp add: write_at_def splice_at_def)
  qed
  let ?l = "last (bl f @ ns)"
  have lb: "last_block_from s1 (block_list fi1) = ret (Ptr ?l)"
    by (rule last_block_from_ok [OF ch1 ne])
  let ?fi = "fi1\<lparr>bytes_left := bytes_left fi - word_of_nat k, last_block := Ptr ?l\<rparr>"
  let ?s = "s1\<lparr>filedescs := (filedescs s)(a \<mapsto> d\<lparr>fd_offset := fd_offset d + int k\<rparr>),
     files := (files s1)(f \<mapsto> ?fi)\<rparr>"
  have left: "unat (bytes_left fi - word_of_nat k) = unat (bytes_left fi) - k"
    using k(2) k63 size_of_nat(2) [OF k63] by (simp add: unat_sub word_le_nat_alt)
  have fs: "files ?s = (files s)(f \<mapsto> fi\<lparr>block_list := p, last_block := Ptr ?l,
      bytes_left := bytes_left fi - word_of_nat k\<rparr>)"
    using keep(8) fi1' by (auto simp: fun_eq_iff)
  have bytes: "bytes_of ?s (bl f @ ns) = bytes_of s1 (bl f @ ns)"
    by (rule bytes_of_cong) simp
  have cst: "content_step s ?s f (bl f) (bl f @ ns)"
    unfolding content_step_def using fs fi d(1) keep st
    by (auto simp: file_step_def intro: exI [of _ 0])
  have at': "file_at ?s f (bl f @ ns)"
    using at1 fi1 ch1 last1 ne by (simp add: file_at_defs last_ptr_ne)
  have fr': "fresh ?s"
    using fr1 fr d(1) keep(1) fi1 by (auto simp: fresh_def)
  note inv' = content_step_inv [OF inv cst at' fr']
  have size': "unat (bytes_left (file_of ?s f)) + length (bytes_of ?s (bl f @ ns)) \<le> max_size"
    using bytes by1 len left max k(2) by simp
  have "abs_fds ?s = (abs_fds s)(i \<mapsto> abs_fd (d\<lparr>fd_offset := fd_offset d + int k\<rparr>))"
    by (rule abs_fds_update [OF inv i]) (simp_all add: slots_def keep)
  then have "abs_ufs ?s fl (bl(f := bl f @ ns)) = (abs_ufs s fl bl)\<lparr>
         a_files := (a_files (abs_ufs s fl bl))(f \<mapsto>
           \<lparr>a_data = write_at (nat (fd_offset d)) (take k buf) (bytes_of s (bl f)),
            a_left = unat (bytes_left fi) - k\<rparr>),
         a_fds := (a_fds (abs_ufs s fl bl))(i \<mapsto> (abs_fd d)\<lparr>a_pos := nat (fd_offset d) + k\<rparr>)\<rparr>"
    using inv'(2) [OF size'] bytes by1 left d(3) by (simp add: abs_fd_move abs_ufs_def)
  with inv'(1) [OF size'] wl fi1 fi1' lb keep(1) show ?thesis
    by (intro exI [of _ s1] exI [of _ ?s] exI [of _ fi1]) auto
qed

lemma ufs_write_refines:
  assumes ref: "refines s A" and k: "sz \<noteq> 0" "unat sz \<le> length buf"
  shows "\<exists>s'. ufs_write fd buf sz s = ret (fst (spec_write fd (take (unat sz) buf) A), s')
    \<and> refines s' (snd (spec_write fd (take (unat sz) buf) A))"
proof -
  from ref obtain fl bl where inv: "ufs_inv s fl bl" and A: "A = abs_ufs s fl bl"
    by (auto simp: refines_def)
  show ?thesis
  proof (cases "afd_at A fd")
    case None
    then show ?thesis
      using fd_none [OF inv] A refines_fail [OF ref] by (simp add: ufs_write_def spec_write_def)
  next
    case (Some d')
    then obtain i a d f fi where fd: "fd = int i" "i < length (slots s)" "slots s ! i = Ptr a"
      "filedescs s a = Some d" "fd_file d = Ptr f" "files s f = Some fi" "d' = abs_fd d" "a_file d' = f"
      "is_valid_fd s fd = ret True" "fd_read s fd = ret (Ptr a)" "0 \<le> fd_offset d"
      using fd_some [OF inv] A by metis
    show ?thesis
    proof (cases "can_write d \<and> unat sz \<le> unat (bytes_left fi)")
      case False
      then show ?thesis
        using Some fd A k refines_fail [OF ref]
        by (auto simp: ufs_write_def spec_write_def a_files_abs word_less_nat_alt Let_def min_def)
    next
      case True
      have "0 < unat sz" using k(1) by (simp add: unat_gt_0)
      with True k write_body [OF inv fd(2,3,4,5,11,6), of "unat sz" buf]
      obtain s1 s' fi1 l bl' where
        "write_loop (Ptr f) buf s (block_list fi) (fd_offset d) 0 sz = ret (int (unat sz), s1)"
        "files s1 f = Some fi1" "bytes_left fi1 = bytes_left fi" "filedescs s1 = filedescs s"
        "last_block_from s1 (block_list fi1) = ret (Ptr l)"
        "s' = s1\<lparr>filedescs := (filedescs s)(a \<mapsto> d\<lparr>fd_offset := fd_offset d + int (unat sz)\<rparr>),
              files := (files s1)(f \<mapsto> fi1\<lparr>bytes_left := bytes_left fi - sz, last_block := Ptr l\<rparr>)\<rparr>"
        and inv': "ufs_inv s' fl bl'" and abs': "abs_ufs s' fl bl' = A\<lparr>
         a_files := (a_files A)(f \<mapsto>
           \<lparr>a_data = write_at (nat (fd_offset d)) (take (unat sz) buf) (bytes_of s (bl f)),
            a_left = unat (bytes_left fi) - unat sz\<rparr>),
         a_fds := (a_fds A)(i \<mapsto> (abs_fd d)\<lparr>a_pos := nat (fd_offset d) + unat sz\<rparr>)\<rparr>"
        unfolding A by auto
      then have "ufs_write fd buf sz s = ret (int (unat sz), s')"
        using True fd by (simp add: ufs_write_def Let_def word_less_nat_alt upd_filedesc_def upd_file_def)
      moreover have "spec_write fd (take (unat sz) buf) A = (int (unat sz), abs_ufs s' fl bl')"
        using Some True fd A k abs' by (simp add: spec_write_def a_files_abs Let_def)
      ultimately show ?thesis
        using inv' by (auto intro: refinesI)
    qed
  qed
qed

section \<open>Reading\<close>

lemma content_step_fd:
  assumes fi: "files s f = Some fi" and d: "filedescs s a = Some d"
  shows "content_step s (s\<lparr>filedescs := (filedescs s)(a \<mapsto> d\<lparr>fd_offset := fd_offset d + int k\<rparr>)\<rparr>) f bs bs"
proof -
  have "\<exists>p q n. files s = (files s)(f \<mapsto> fi\<lparr>block_list := p, last_block := q, bytes_left := n\<rparr>)"
    using fi by (intro exI [of _ "block_list fi"] exI [of _ "last_block fi"] exI [of _ "bytes_left fi"])
      (simp add: fun_upd_idem)
  then show ?thesis
    unfolding content_step_def using fi d by (auto intro: exI [of _ 0])
qed

lemma move_fd:
  fixes s :: ufs and k :: nat
  assumes inv: "ufs_inv s fl bl" and i: "i < length (slots s)" "slots s ! i = Ptr a"
    and d: "filedescs s a = Some d" "0 \<le> fd_offset d" and fi: "files s f = Some fi"
  defines "s' \<equiv> s\<lparr>filedescs := (filedescs s)(a \<mapsto> d\<lparr>fd_offset := fd_offset d + int k\<rparr>)\<rparr>"
  shows "ufs_inv s' fl bl"
    "abs_ufs s' fl bl = (abs_ufs s fl bl)\<lparr>
       a_fds := (a_fds (abs_ufs s fl bl))(i \<mapsto> (abs_fd d)\<lparr>a_pos := nat (fd_offset d) + k\<rparr>)\<rparr>"
proof -
  have st: "content_step s s' f (bl f) (bl f)"
    unfolding s'_def by (rule content_step_fd [OF fi d(1)])
  have same: "files s' = files s" "bytes_of s' (bl f) = bytes_of s (bl f)"
    by (auto simp: s'_def bytes_of_def)
  have at: "file_at s' f (bl f)"
    using inv_file(1) [OF inv fi] by (subst file_at_cong [of _ _ s]) (simp_all add: s'_def)
  have fr: "fresh s'" using inv_fresh [OF inv] d(1) by (auto simp: fresh_def s'_def)
  have size': "unat (bytes_left (file_of s' f)) + length (bytes_of s' (bl f)) \<le> max_size"
    using inv_file(3) [OF inv fi] fi same by simp
  note inv' = content_step_inv [OF inv st at fr size']
  show "ufs_inv s' fl bl" using inv'(1) by simp
  have "abs_fds s' = (abs_fds s)(i \<mapsto> abs_fd (d\<lparr>fd_offset := fd_offset d + int k\<rparr>))"
    by (rule abs_fds_update [OF inv i]) (simp_all add: slots_def s'_def)
  moreover have "(a_files (abs_ufs s fl bl))(f \<mapsto> \<lparr>a_data = bytes_of s' (bl f), a_left = unat (bytes_left (file_of s' f))\<rparr>)
      = a_files (abs_ufs s fl bl)"
    using a_files_abs [OF fi] same fi by (simp add: fun_upd_idem)
  ultimately show "abs_ufs s' fl bl = (abs_ufs s fl bl)\<lparr>
       a_fds := (a_fds (abs_ufs s fl bl))(i \<mapsto> (abs_fd d)\<lparr>a_pos := nat (fd_offset d) + k\<rparr>)\<rparr>"
    using inv'(2) d(2) by (simp add: abs_fd_move abs_ufs_def)
qed

lemma ufs_read_refines:
  assumes ref: "refines s A" and k: "unat sz < 2 ^ 63"
  shows "\<exists>s'. ufs_read fd sz s = (let (n, out, A') = spec_read fd (unat sz) A in ret (n, map Some out, s'))
    \<and> refines s' (snd (snd (spec_read fd (unat sz) A)))"
proof -
  from ref obtain fl bl where inv: "ufs_inv s fl bl" and A: "A = abs_ufs s fl bl"
    by (auto simp: refines_def)
  show ?thesis
  proof (cases "afd_at A fd")
    case None
    then show ?thesis
      using fd_none [OF inv] A refines_fail [OF ref] by (simp add: ufs_read_def spec_read_def)
  next
    case (Some d')
    then obtain i a d f fi where fd: "fd = int i" "i < length (slots s)" "slots s ! i = Ptr a"
      "filedescs s a = Some d" "fd_file d = Ptr f" "files s f = Some fi" "d' = abs_fd d" "a_file d' = f"
      "is_valid_fd s fd = ret True" "fd_read s fd = ret (Ptr a)" "0 \<le> fd_offset d"
      using fd_some [OF inv] A by metis
    show ?thesis
    proof (cases "can_read d")
      case False
      then show ?thesis
        using Some fd A refines_fail [OF ref] by (simp add: ufs_read_def spec_read_def)
    next
      case True
      let ?out = "take (unat sz) (drop (nat (fd_offset d)) (bytes_of s (bl f)))"
      have at: "file_at s f (bl f)" by (rule inv_file(1) [OF inv fd(6)])
      then have "chain b_next b_prev (blocks s) (heap_fill s) (block_list fi) (bl f) Null" "packed_at s (bl f)"
        using fd(6) by (auto simp: file_at_defs)
      from read_loop_ok [OF this k, of "nat (fd_offset d)" 0 "[]"]
      have rl: "read_loop s (block_list fi) (fd_offset d) 0 [] sz = ret (int (length ?out), map Some ?out)"
        using fd(11) by simp
      note mv = move_fd [OF inv fd(2-4,11,6), of "length ?out"]
      have "spec_read fd (unat sz) A = (int (length ?out), ?out, A\<lparr>
          a_fds := (a_fds A)(i \<mapsto> (abs_fd d)\<lparr>a_pos := nat (fd_offset d) + length ?out\<rparr>)\<rparr>)"
        using Some True fd A by (simp add: spec_read_def a_files_abs Let_def)
      then show ?thesis
        using True fd rl mv A by (auto simp: ufs_read_def upd_filedesc_def intro: refinesI)
    qed
  qed
qed

section \<open>Resizing\<close>

text \<open>The part of \<open>ufs_resize\<close> after its loop: cut the chain, release the rest, recount.\<close>

definition resize_finish :: "nat \<Rightarrow> ptr \<Rightarrow> ufs \<Rightarrow> (int \<times> ufs) res" where
  "resize_finish f block s =
     bindR (bindR (is_null block) (\<lambda>z.
            if z then ret s
            else bindR (load (blocks s) block) (\<lambda>b.
              bindR (is_null (b_prev b)) (\<lambda>zp.
              if zp then ret s
              else bindR (upd_file (Ptr f) (\<lambda>x. x\<lparr>last_block := b_prev b\<rparr>) s) (\<lambda>s.
                   upd_block (b_prev b) (\<lambda>x. x\<lparr>b_next := Null\<rparr>) s))))) (\<lambda>s.
     bindR (free_blocks s block) (\<lambda>s.
     bindR (load (files s) (Ptr f)) (\<lambda>fi.
     bindR (recount (Ptr f) s (block_list fi) 0) (\<lambda>(new_file_size, s).
     bindR (upd_file (Ptr f) (\<lambda>x. x\<lparr>bytes_left := MAX_FILE_SIZE - new_file_size\<rparr>) s) (\<lambda>s.
     ret (0, s))))))"

lemma recount_finish:
  assumes ch: "chain b_next b_prev (blocks s) bk (block_list fi) bs Null" and ne: "bs \<noteq> []"
    and wf: "packed_at s bs" and fi: "files s f = Some fi"
  shows "bindR (load (files s) (Ptr f)) (\<lambda>fi.
     bindR (recount (Ptr f) s (block_list fi) 0) (\<lambda>(new_file_size, s).
     bindR (upd_file (Ptr f) (\<lambda>x. x\<lparr>bytes_left := MAX_FILE_SIZE - new_file_size\<rparr>) s) (\<lambda>s.
     ret (0, s)))) = ret (0, s\<lparr>files := (files s)(f \<mapsto> fi\<lparr>last_block := Ptr (last bs),
       bytes_left := MAX_FILE_SIZE - word_of_nat (length (bytes_of s bs))\<rparr>)\<rparr>)"
proof -
  have "\<forall>a \<in> set bs. wf_block (block_at s a)" using wf packed_wf by auto
  from recount_ok [OF ch this fi, of 0] ne fi show ?thesis
    by (simp add: upd_file_def last_ptr_ne)
qed

lemma resize_finish_ok:
  assumes links: "file_links s f (bs1 @ bs2)" and ne: "bs1 \<noteq> []" and pk: "packed_at s bs1"
    and fi: "files s f = Some fi" and dom: "\<forall>a \<in> set (bs1 @ bs2). a < next_addr s"
  shows "\<exists>h. resize_finish f (head_ptr bs2 Null) s = ret (0, s\<lparr>blocks := h,
      files := (files s)(f \<mapsto> fi\<lparr>last_block := Ptr (last bs1),
        bytes_left := MAX_FILE_SIZE - word_of_nat (length (bytes_of s bs1))\<rparr>)\<rparr>)
    \<and> chain b_next b_prev h (heap_fill s) (block_list fi) bs1 Null
    \<and> (\<forall>a \<in> set bs1. \<exists>b p. blocks s a = Some b \<and> h a = Some (b\<lparr>b_next := p\<rparr>))
    \<and> (\<forall>a \<in> set bs2. h a = None) \<and> (\<forall>a. a \<notin> set bs1 \<longrightarrow> a \<notin> set bs2 \<longrightarrow> h a = blocks s a)"
proof (cases bs2)
  case Nil
  have ch: "chain b_next b_prev (blocks s) (heap_fill s) (block_list fi) bs1 Null"
    using links fi Nil by (simp add: file_links_def)
  have "\<exists>b p. blocks s a = Some b \<and> blocks s a = Some (b\<lparr>b_next := p\<rparr>)" if a: "a \<in> set bs1" for a
  proof -
    obtain b where "blocks s a = Some b" using chain_alloc [OF ch a] by blast
    then show ?thesis by (intro exI [of _ b] exI [of _ "b_next b"]) simp
  qed
  then show ?thesis
    using Nil recount_finish [OF ch ne pk fi] free_blocks_ok [of s Null Null "[]"] ch
    by (intro exI [of _ "blocks s"]) (simp add: resize_finish_def)
next
  case (Cons c cs)
  obtain us l where bs1: "bs1 = us @ [l]" using ne by (cases bs1 rule: rev_cases) auto
  have ch: "chain b_next b_prev (blocks s) (heap_fill s) (block_list fi) ((us @ [l]) @ c # cs) Null"
    using links fi Cons bs1 by (simp add: file_links_def)
  obtain lb where lb: "blocks s l = Some lb" using chain_alloc [OF ch, of l] by auto
  obtain cb where cb: "blocks s c = Some cb" using chain_alloc [OF ch, of c] by auto
  have dist: "distinct ((us @ [l]) @ c # cs)" by (rule chain_distinct [OF ch])
  have prev: "b_prev cb = Ptr l" and next_l: "b_next lb = Ptr c"
    using ch cb lb by (auto simp: chain_append)
  let ?h = "(blocks s)(l \<mapsto> lb\<lparr>b_next := Null\<rparr>)"
  let ?s1 = "s\<lparr>files := (files s)(f \<mapsto> fi\<lparr>last_block := Ptr l\<rparr>), blocks := ?h\<rparr>"
  let ?h2 = "drop_addrs (c # cs) ?h"
  let ?s2 = "?s1\<lparr>blocks := ?h2\<rparr>"
  note cut = blk.cut_after [OF ch lb]
  have fb: "free_blocks ?s1 (Ptr c) = ret ?s2"
    using free_blocks_ok [of ?s1 "Ptr l" "Ptr c" "c # cs"] cut(2) next_l by simp
  have ch2: "chain b_next b_prev ?h2 (heap_fill s) (block_list fi) (us @ [l]) Null"
    by (rule chain_drop_other [OF _ cut(1)]) (use dist in auto)
  have keep: "\<exists>b p. blocks s a = Some b \<and> ?h2 a = Some (b\<lparr>b_next := p\<rparr>)" if "a \<in> set (us @ [l])" for a
  proof (cases "a = l")
    case True
    with lb dist show ?thesis by (auto intro: exI [of _ lb] exI [of _ Null])
  next
    case False
    with that obtain b where "blocks s a = Some b" using chain_alloc [OF ch, of a] by auto
    with False dist that show ?thesis by (intro exI [of _ b] exI [of _ "b_next b"]) auto
  qed
  have same: "block_bytes (block_at ?s2 a) = block_bytes (block_at s a) \<and> occupied (block_at ?s2 a) = occupied (block_at s a)
      \<and> wf_block (block_at ?s2 a) = wf_block (block_at s a)" if a: "a \<in> set bs1" for a
  proof -
    obtain b p where "blocks s a = Some b" "blocks ?s2 a = Some (b\<lparr>b_next := p\<rparr>)"
      using keep [of a] a bs1 by auto
    then show ?thesis by (simp only: option.sel) (simp add: block_bytes_def wf_block_def)
  qed
  then have bytes: "bytes_of ?s2 bs1 = bytes_of s bs1"
    unfolding bytes_of_def by (metis (mono_tags, lifting) map_eq_conv)
  have ch2': "chain b_next b_prev ?h2 (heap_fill s) (block_list fi) bs1 Null" "last bs1 = l"
    using ch2 bs1 by simp_all
  have "packed_at ?s2 bs1"
    using pk same by (induction bs1) auto
  from recount_finish [of ?s2 "heap_fill s" "fi\<lparr>last_block := Ptr l\<rparr>" bs1 f, OF _ ne this] ch2'
  have rc: "bindR (load (files ?s2) (Ptr f)) (\<lambda>fi.
     bindR (recount (Ptr f) ?s2 (block_list fi) 0) (\<lambda>(new_file_size, s).
     bindR (upd_file (Ptr f) (\<lambda>x. x\<lparr>bytes_left := MAX_FILE_SIZE - new_file_size\<rparr>) s) (\<lambda>s.
     ret (0, s)))) = ret (0, ?s2\<lparr>files := (files s)(f \<mapsto> fi\<lparr>last_block := Ptr l,
       bytes_left := MAX_FILE_SIZE - word_of_nat (length (bytes_of s bs1))\<rparr>)\<rparr>)"
    using bytes ch2'(2) by (simp del: drop_addrs_apply)
  have "resize_finish f (Ptr c) s = ret (0, ?s2\<lparr>files := (files s)(f \<mapsto> fi\<lparr>last_block := Ptr l,
       bytes_left := MAX_FILE_SIZE - word_of_nat (length (bytes_of s bs1))\<rparr>)\<rparr>)"
    using cb prev fi lb rc fb by (simp add: resize_finish_def upd_file_def upd_block_def)
  then show ?thesis
    using Cons bs1 ch2 keep dist by (intro exI [of _ ?h2]) simp
qed

lemma bytes_of_same:
  "(\<And>a. a \<in> set bs \<Longrightarrow> block_bytes (block_at s' a) = block_bytes (block_at s a)) \<Longrightarrow>
    bytes_of s' bs = bytes_of s bs"
  by (induction bs) simp_all

text \<open>Cutting the block list: the blocks \<open>bs2\<close> are freed, \<open>bs1\<close> stay.\<close>

lemma cut_step:
  assumes fi: "files s f = Some fi" and st: "file_step s s1 f bs ns" and split: "bs @ ns = bs1 @ bs2" and fr: "fresh s"
    and gone: "\<forall>a \<in> set bs2. h a = None"
    and other: "\<forall>a. a \<notin> set bs1 \<longrightarrow> a \<notin> set bs2 \<longrightarrow> h a = blocks s1 a"
  shows "content_step s (s1\<lparr>blocks := h, files := (files s1)(f \<mapsto> fi\<lparr>block_list := p, last_block := q, bytes_left := n\<rparr>)\<rparr>) f bs bs1"
    (is "content_step s ?s f bs bs1")
  unfolding content_step_def
proof (intro conjI)
  note keep = file_step_frame [OF st]
  have sets: "set bs \<union> set ns = set bs1 \<union> set bs2"
    using split by (metis set_append)
  have "files ?s = (files s)(f \<mapsto> fi\<lparr>block_list := p, last_block := q, bytes_left := n\<rparr>)"
    using keep(8) by (auto simp: fun_eq_iff)
  then show "\<exists>fi p q n. files s f = Some fi \<and>
      files ?s = (files s)(f \<mapsto> fi\<lparr>block_list := p, last_block := q, bytes_left := n\<rparr>)"
    using fi by blast
  show "\<forall>a. a \<notin> set bs \<longrightarrow> a \<notin> set bs1 \<longrightarrow> blocks ?s a = blocks s a"
  proof (intro allI impI)
    fix a assume a: "a \<notin> set bs" "a \<notin> set bs1"
    show "blocks ?s a = blocks s a"
    proof (cases "a \<in> set ns")
      case True
      with st have "next_addr s \<le> a" by (auto simp: file_step_def)
      moreover from True a sets have "a \<in> set bs2" by blast
      ultimately show ?thesis using gone fr by (simp add: fresh_def)
    next
      case False
      with a sets have "a \<notin> set bs2" by blast
      with a other False keep(9) show ?thesis by simp
    qed
  qed
  show "\<forall>a \<in> set bs1. a \<in> set bs \<or> next_addr s \<le> a"
    using sets st by (auto simp: file_step_def)
  show "\<forall>a \<in> set bs. a \<notin> set bs1 \<longrightarrow> blocks ?s a = None"
    using sets gone by auto
qed (use file_step_frame [OF st] in \<open>auto intro: exI [of _ 0]\<close>)

lemma budget_left: "n \<le> max_size \<Longrightarrow> unat (MAX_FILE_SIZE - word_of_nat n) = max_size - n"
proof -
  assume n: "n \<le> max_size"
  then have "unat (word_of_nat n :: size_t) = n" by (intro size_of_nat(2)) (simp add: max_size_def)
  then show ?thesis using n by (simp add: unat_sub word_le_nat_alt MAX_FILE_SIZE_def max_size_def)
qed

lemma resize_body:
  assumes inv: "ufs_inv s fl bl" and fi: "files s f = Some fi"
    and k: "0 < k" "k \<le> max_size" "BLOCK_SIZE dvd k \<or> k < length (bytes_of s (bl f))"
  shows "\<exists>s1 s' p bl'. resize_loop (Ptr f) s (block_list fi) (word_of_nat k) = ret (p, s1)
    \<and> resize_finish f p s1 = ret (0, s')
    \<and> ufs_inv s' fl bl' \<and> abs_ufs s' fl bl' = (abs_ufs s fl bl)\<lparr>
         a_files := (a_files (abs_ufs s fl bl))(f \<mapsto>
           \<lparr>a_data = take k (bytes_of s (bl f)), a_left = max_size - length (take k (bytes_of s (bl f)))\<rparr>)\<rparr>"
proof -
  let ?data = "take k (bytes_of s (bl f))"
  have at: "file_at s f (bl f)" and fr: "fresh s" using inv_file [OF inv fi] inv_fresh [OF inv] by auto
  have start: "block_list fi = head_ptr (bl f) Null"
    using at fi by (auto simp: file_at_defs dest: chain_head)
  have "resizes f s [] (bl f) (block_list fi) k"
    by (rule resize_loop_ok) (use at fr start k in \<open>auto simp: max_size_def\<close>)
  then obtain s1 ns bs1 bs2 where
      rl: "resize_loop (Ptr f) s (block_list fi) (word_of_nat k) = ret (head_ptr bs2 Null, s1)"
    and split: "bl f @ ns = bs1 @ bs2" and links: "file_links s1 f (bs1 @ bs2)"
    and st: "file_step s s1 f (bl f) ns" and fr1: "fresh s1"
    and pk: "packed_at s1 bs1" and by1: "bytes_of s1 bs1 = ?data" and ne: "bs1 \<noteq> []"
    using k(1) by (auto simp: resizes_def)
  note keep = file_step_frame [OF st]
  obtain p q where fi1: "files s1 f = Some (fi\<lparr>block_list := p, last_block := q\<rparr>)"
    using file_step_file [OF st] fi by (metis option.inject)
  have alloc: "\<forall>a \<in> set (bs1 @ bs2). a < next_addr s1"
  proof
    fix a assume "a \<in> set (bs1 @ bs2)"
    with links obtain b where "blocks s1 a = Some b" by (force simp: file_links_def dest: chain_alloc)
    with fr1 show "a < next_addr s1" by (metis fresh_def linorder_not_le option.discI)
  qed
  let ?fi = "fi\<lparr>block_list := p, last_block := Ptr (last bs1),
     bytes_left := MAX_FILE_SIZE - word_of_nat (length ?data)\<rparr>"
  obtain h where fin: "resize_finish f (head_ptr bs2 Null) s1 = ret (0, s1\<lparr>blocks := h, files := (files s1)(f \<mapsto> ?fi)\<rparr>)"
    and ch: "chain b_next b_prev h (heap_fill s1) p bs1 Null"
    and kept: "\<forall>a \<in> set bs1. \<exists>b p. blocks s1 a = Some b \<and> h a = Some (b\<lparr>b_next := p\<rparr>)"
    and gone: "\<forall>a \<in> set bs2. h a = None"
    and other: "\<forall>a. a \<notin> set bs1 \<longrightarrow> a \<notin> set bs2 \<longrightarrow> h a = blocks s1 a"
    using resize_finish_ok [OF links ne pk fi1 alloc] by1 by auto
  let ?s = "s1\<lparr>blocks := h, files := (files s1)(f \<mapsto> ?fi)\<rparr>"
  have same: "block_bytes (block_at ?s a) = block_bytes (block_at s1 a) \<and> occupied (block_at ?s a) = occupied (block_at s1 a)
      \<and> wf_block (block_at ?s a) = wf_block (block_at s1 a)" if a: "a \<in> set bs1" for a
  proof -
    obtain b p where "blocks s1 a = Some b" "blocks ?s a = Some (b\<lparr>b_next := p\<rparr>)"
      using kept a by auto
    then show ?thesis by (simp only: option.sel) (simp add: block_bytes_def wf_block_def)
  qed
  then have bytes: "bytes_of ?s bs1 = ?data"
    using bytes_of_same [of bs1 ?s s1] by1 by simp
  have "packed_at ?s bs1" using pk same by (induction bs1) auto
  then have at': "file_at ?s f bs1" using ch ne by (simp add: file_at_defs last_ptr_ne)
  note cst = cut_step [OF fi st split fr gone other]
  have fr': "fresh ?s"
  proof -
    have "h a = None" if a: "next_addr s1 \<le> a" for a
    proof -
      have "a \<notin> set (bs1 @ bs2)" using alloc a linorder_not_le by blast
      with a other fr1 show ?thesis by (simp add: fresh_def)
    qed
    with fr1 fi1 show ?thesis by (auto simp: fresh_def)
  qed
  have left: "unat (MAX_FILE_SIZE - word_of_nat (length ?data)) = max_size - length ?data"
    using k(2) by (intro budget_left) simp
  have size': "unat (bytes_left (file_of ?s f)) + length (bytes_of ?s bs1) \<le> max_size"
    unfolding bytes using left k(2) by simp
  note inv' = content_step_inv [OF inv cst at' fr' size']
  have "abs_fds ?s = abs_fds s"
    by (rule abs_fds_same) (simp_all add: slots_def keep)
  then have "abs_ufs ?s fl (bl(f := bs1)) = (abs_ufs s fl bl)\<lparr>
         a_files := (a_files (abs_ufs s fl bl))(f \<mapsto> \<lparr>a_data = ?data, a_left = max_size - length ?data\<rparr>)\<rparr>"
    using inv'(2) bytes left by (simp add: abs_ufs_def)
  with inv'(1) rl fin show ?thesis by blast
qed

lemma ufs_resize_refines:
  assumes ref: "refines s A"
    and k: "\<And>d. afd_at A fd = Some d \<Longrightarrow> a_write d \<Longrightarrow> unat sz \<le> max_size \<Longrightarrow>
      0 < unat sz \<and> (BLOCK_SIZE dvd unat sz \<or> unat sz < length (a_data (the (a_files A (a_file d)))))"
  shows "\<exists>s'. ufs_resize fd sz s = ret (fst (spec_resize fd (unat sz) A), s')
    \<and> refines s' (snd (spec_resize fd (unat sz) A))"
proof -
  from ref obtain fl bl where inv: "ufs_inv s fl bl" and A: "A = abs_ufs s fl bl"
    by (auto simp: refines_def)
  have big: "sz > MAX_FILE_SIZE \<longleftrightarrow> max_size < unat sz"
    by (simp add: word_less_nat_alt MAX_FILE_SIZE_def max_size_def)
  show ?thesis
  proof (cases "afd_at A fd")
    case None
    then show ?thesis
      using fd_none [OF inv] A refines_fail [OF ref] by (simp add: ufs_resize_def spec_resize_def)
  next
    case (Some d')
    then obtain i a d f fi where fd: "fd = int i" "i < length (slots s)" "slots s ! i = Ptr a"
      "filedescs s a = Some d" "fd_file d = Ptr f" "files s f = Some fi" "d' = abs_fd d" "a_file d' = f"
      "is_valid_fd s fd = ret True" "fd_read s fd = ret (Ptr a)" "0 \<le> fd_offset d"
      using fd_some [OF inv] A by metis
    show ?thesis
    proof (cases "can_write d \<and> unat sz \<le> max_size")
      case False
      then show ?thesis
        using Some fd A refines_fail [OF ref] big
        by (auto simp: ufs_resize_def spec_resize_def Let_def)
    next
      case True
      with k [OF Some] fd A
      have "0 < unat sz" "BLOCK_SIZE dvd unat sz \<or> unat sz < length (bytes_of s (bl f))"
        by (auto simp: a_files_abs)
      with resize_body [OF inv fd(6), of "unat sz"] True obtain s1 s' p bl' where
        rl: "resize_loop (Ptr f) s (block_list fi) sz = ret (p, s1)" "resize_finish f p s1 = ret (0, s')"
        and inv': "ufs_inv s' fl bl'" and abs': "abs_ufs s' fl bl' = A\<lparr>
         a_files := (a_files A)(f \<mapsto>
           \<lparr>a_data = take (unat sz) (bytes_of s (bl f)), a_left = max_size - length (take (unat sz) (bytes_of s (bl f)))\<rparr>)\<rparr>"
        unfolding A by auto
      have "ufs_resize fd sz s = ret (0, s')"
        using True fd rl big by (simp add: ufs_resize_def resize_finish_def)
      moreover have "spec_resize fd (unat sz) A = (0, abs_ufs s' fl bl')"
        using Some True fd A abs' by (simp add: spec_resize_def a_files_abs Let_def)
      ultimately show ?thesis
        using inv' by (auto intro: refinesI)
    qed
  qed
qed

end
