(* ===== verification/Ufs_Names.thy ===== *)
theory Ufs_Names
  imports Ufs_Refine
begin

text \<open>
  The refinement of the functions that work on names and descriptors: \<open>ufs_open\<close>,
  \<open>ufs_close\<close> and \<open>ufs_delete\<close>. They change the file list, the descriptor array and the
  reference counts, and free a file when its last name and descriptor are gone.
\<close>


section \<open>The descriptor table\<close>

lemma length_filter_update:
  "i < length xs \<Longrightarrow> length (filter P (xs[i := y])) + (if P (xs ! i) then 1 else 0)
    = length (filter P xs) + (if P y then 1 else 0)"
proof (induction xs arbitrary: i)
  case (Cons x xs)
  then show ?case by (cases i) auto
qed simp

lemma Ptr_in_update:
  "i < length xs \<Longrightarrow> q \<in> set (xs[i := p]) \<longleftrightarrow> q = p \<or> (\<exists>j < length xs. j \<noteq> i \<and> xs ! j = q)"
  by (fastforce simp: in_set_conv_nth nth_list_update)

lemma fd_table_remove:
  assumes t: "fd_table xs D" and i: "i < length xs" "xs ! i = Ptr a"
  shows "fd_table (xs[i := Null]) (D - {a})"
proof -
  have uniq: "\<And>i j a. i < length xs \<Longrightarrow> j < length xs \<Longrightarrow> xs ! i = Ptr a \<Longrightarrow> xs ! j = Ptr a \<Longrightarrow> i = j"
    using t by (simp add: fd_table_def)
  have D: "D = {a. Ptr a \<in> set xs}" and junk: "Junk \<notin> set xs" using t by (auto simp: fd_table_def)
  have "D - {a} = {b. Ptr b \<in> set (xs[i := Null])}"
    unfolding Ptr_in_update [OF i(1)] D using i uniq by (auto simp: in_set_conv_nth)
  moreover have "Junk \<notin> set (xs[i := Null])"
    using junk set_update_subset_insert by fastforce
  ultimately show ?thesis
    unfolding fd_table_def using i uniq by (auto simp: nth_list_update)
qed

lemma fd_table_insert:
  assumes t: "fd_table xs D" and i: "i < length xs" "xs ! i = Null" and n: "n \<notin> D"
  shows "fd_table (xs[i := Ptr n]) (insert n D)"
proof -
  have uniq: "\<And>i j a. i < length xs \<Longrightarrow> j < length xs \<Longrightarrow> xs ! i = Ptr a \<Longrightarrow> xs ! j = Ptr a \<Longrightarrow> i = j"
    using t by (simp add: fd_table_def)
  have D: "D = {a. Ptr a \<in> set xs}" and junk: "Junk \<notin> set xs" using t by (auto simp: fd_table_def)
  have n': "j < length xs \<Longrightarrow> xs ! j \<noteq> Ptr n" for j using n D by (auto simp: in_set_conv_nth)
  have "insert n D = {b. Ptr b \<in> set (xs[i := Ptr n])}"
    unfolding Ptr_in_update [OF i(1)] D using i by (auto simp: in_set_conv_nth)
  moreover have "Junk \<notin> set (xs[i := Ptr n])"
    using junk set_update_subset_insert by fastforce
  ultimately show ?thesis
    unfolding fd_table_def using i uniq n' by (auto simp: nth_list_update)
qed

lemma fd_table_grow: "fd_table xs D \<Longrightarrow> fd_table (xs @ replicate k Null) D"
  by (auto simp: fd_table_def nth_append split: if_splits)

section \<open>Reclaiming a file\<close>

lemma free_whole_file:
  assumes at: "file_at s f bs"
  shows "bindR (free_file_memory (Ptr f) s) (free_file (Ptr f))
    = ret (s\<lparr>blocks := drop_addrs bs (blocks s), files := (files s)(f := None)\<rparr>)"
proof -
  obtain fi where fi: "files s f = Some fi"
    and ch: "chain b_next b_prev (blocks s) (heap_fill s) (block_list fi) bs Null"
    using at by (auto simp: file_at_defs)
  show ?thesis
    using free_blocks_ok [OF ch] fi
    by (simp add: free_file_memory_def free_file_def upd_file_def)
qed

lemma ran_abs_dir: "dir_inv s fl \<Longrightarrow> ran (abs_dir s fl) = set fl"
  by (simp add: dir_inv_def abs_dir_def ran_distinct o_def image_image)

lemma ran_abs_fds:
  assumes "fd_inv s"
  shows "ran (abs_fds s) = abs_fd ` ran (filedescs s)"
proof -
  have dom: "dom (filedescs s) = {a. Ptr a \<in> set (slots s)}" and junk: "Junk \<notin> set (slots s)"
    using assms by (auto simp: fd_inv_def fd_table_def)
  show ?thesis
  proof (intro set_eqI iffI)
    fix x assume "x \<in> ran (abs_fds s)"
    then show "x \<in> abs_fd ` ran (filedescs s)"
      by (auto simp: ran_def abs_fds_def split: if_splits ptr.splits)
  next
    fix x assume "x \<in> abs_fd ` ran (filedescs s)"
    then obtain a d where d: "filedescs s a = Some d" "x = abs_fd d" by (auto simp: ran_def)
    then have "a \<in> dom (filedescs s)" by auto
    then obtain i where "i < length (slots s)" "slots s ! i = Ptr a"
      unfolding dom by (auto simp: in_set_conv_nth)
    with d have "abs_fds s i = Some x" by (simp add: abs_fds_def)
    then show "x \<in> ran (abs_fds s)" by (rule ranI)
  qed
qed

lemma used_abs:
  assumes inv: "inv_except f s fl bl"
  shows "used (abs_ufs s fl bl) g \<longleftrightarrow> live s fl g"
proof -
  have "dir_inv s fl" "fd_inv s" using inv by (auto simp: inv_except_def)
  moreover have "(\<exists>d \<in> ran (filedescs s). a_file (abs_fd d) = g) \<longleftrightarrow> users s g \<noteq> {}"
    using \<open>fd_inv s\<close> by (force simp: fd_inv_def users_def ran_def abs_fd_def)
  ultimately show ?thesis
    by (simp add: used_def live_def abs_ufs_def ran_abs_dir ran_abs_fds)
qed

lemma inv_except_fresh: "inv_except f s fl bl \<Longrightarrow> fresh s"
  by (simp add: inv_except_def heap_inv_def)

lemma finite_users_fresh:
  assumes "fresh s" shows "finite (users s f)"
proof -
  have "a < next_addr s" if "a \<in> users s f" for a
  proof (rule ccontr)
    assume "\<not> a < next_addr s"
    with assms have "filedescs s a = None" by (simp add: fresh_def)
    with that show False by (simp add: users_def)
  qed
  then have "users s f \<subseteq> {..<next_addr s}" by auto
  then show ?thesis by (rule finite_subset) simp
qed

text \<open>
  The end of \<open>ufs_close\<close> and \<open>ufs_delete\<close>: the file is freed when its reference count is zero
  and it is not in the list, which is exactly when no name and no descriptor is left.
\<close>

definition freed :: "ufs \<Rightarrow> nat \<Rightarrow> nat list \<Rightarrow> ufs" where
  "freed s f bs = s\<lparr>blocks := drop_addrs bs (blocks s), files := (files s)(f := None)\<rparr>"

lemma freed_sel [simp]:
  "files (freed s f bs) = (files s)(f := None)" "filedescs (freed s f bs) = filedescs s"
  "slots (freed s f bs) = slots s" "users (freed s f bs) g = users s g"
  "heap_fill (freed s f bs) = heap_fill s" "file_list (freed s f bs) = file_list s"
  "error_code (freed s f bs) = error_code s" "next_addr (freed s f bs) = next_addr s"
  "fd_count (freed s f bs) = fd_count s" "fd_capacity (freed s f bs) = fd_capacity s"
  "file_descriptors (freed s f bs) = file_descriptors s"
  "blocks (freed s f bs) = drop_addrs bs (blocks s)"
  by (simp_all add: freed_def slots_def users_def)

lemma freed_inv:
  assumes inv: "inv_except f s fl bl" and fi: "files s f = Some fi" and dead: "\<not> live s fl f"
  shows "ufs_inv (freed s f (bl f)) fl bl"
    and "abs_ufs (freed s f (bl f)) fl bl =
      (abs_ufs s fl bl)\<lparr>a_files := (a_files (abs_ufs s fl bl))(f := None)\<rparr>"
proof -
  let ?s = "freed s f (bl f)"
  have f: "f \<notin> set fl" "users s f = {}" using dead by (auto simp: live_def)
  have dir: "dir_inv s fl" and heap: "heap_inv s bl" and fd: "fd_inv s"
    and wf: "\<And>g. g \<in> dom (files s) \<Longrightarrow> file_wf s fl bl g"
    and lv: "\<And>g. g \<in> dom (files s) \<Longrightarrow> g \<noteq> f \<Longrightarrow> live s fl g"
    using inv by (auto simp: inv_except_def)
  have disj: "set (bl f) \<inter> set (bl g) = {}" if "g \<in> dom (files s)" "g \<noteq> f" for g
    using heap that fi unfolding heap_inv_def by (blast dest: domI)
  have at: "file_at ?s g (bl g) = file_at s g (bl g)" if "g \<in> dom (files s)" "g \<noteq> f" for g
    by (rule file_at_cong) (use that disj in auto)
  have bytes: "bytes_of ?s (bl g) = bytes_of s (bl g)" if "g \<in> dom (files s)" "g \<noteq> f" for g
    by (rule bytes_of_cong) (use disj [OF that] in auto)
  have "dir_inv ?s fl"
  proof -
    have "map (\<lambda>g. f_name (file_of ?s g)) fl = map (\<lambda>g. f_name (file_of s g)) fl"
      using f by (intro map_cong) auto
    moreover have "chain f_next f_prev (files ?s) Null (file_list s) fl Null"
      using dir by (rule chain_frame [OF conjunct1 [OF iffD1 [OF dir_inv_def]]]) (use f in auto)
    ultimately show ?thesis using dir by (simp only: dir_inv_def freed_sel)
  qed
  moreover have "heap_inv ?s bl"
  proof -
    have "dom (drop_addrs (bl f) (blocks s)) = (\<Union>g \<in> dom (files s) - {f}. set (bl g))"
    proof -
      have "dom (drop_addrs (bl f) (blocks s)) = dom (blocks s) - set (bl f)"
        by (auto split: if_splits)
      also have "\<dots> = (\<Union>g \<in> dom (files s). set (bl g)) - set (bl f)"
        using heap by (simp add: heap_inv_def)
      also have "\<dots> = (\<Union>g \<in> dom (files s) - {f}. set (bl g))"
        using disj by blast
      finally show ?thesis .
    qed
    moreover have "dom ((files s)(f := None)) = dom (files s) - {f}" by auto
    ultimately show ?thesis
      using heap by (auto simp: heap_inv_def fresh_def)
  qed
  moreover have "fd_inv ?s"
  proof -
    have "\<exists>g \<in> dom (files ?s). fd_file d = Ptr g" if d: "d \<in> ran (filedescs s)" for d
    proof -
      obtain g where g: "g \<in> dom (files s)" "fd_file d = Ptr g" using fd d unfolding fd_inv_def by blast
      moreover have "fd_file d \<noteq> Ptr f" using f(2) d by (auto simp: users_def ran_def)
      ultimately show ?thesis by (intro bexI [of _ g]) auto
    qed
    with fd show ?thesis by (simp add: fd_inv_def)
  qed
  moreover have "file_wf ?s fl bl g \<and> live ?s fl g" if g: "g \<in> dom (files ?s)" for g
    using g wf [of g] lv [of g] at [of g] bytes [of g] by (auto simp: file_wf_def live_def)
  ultimately show "ufs_inv ?s fl bl" by (simp add: ufs_inv_def)
  have "abs_files ?s bl = (abs_files s bl)(f := None)"
    using bytes by (auto simp: abs_files_def fun_eq_iff map_option_case split: option.split)
  moreover have "abs_dir ?s fl = abs_dir s fl" 
    unfolding abs_dir_def using f by (intro arg_cong [where f = map_of] map_cong) auto
  moreover have "abs_fds ?s = abs_fds s" by (rule abs_fds_same) simp_all
  ultimately show "abs_ufs ?s fl bl =
      (abs_ufs s fl bl)\<lparr>a_files := (a_files (abs_ufs s fl bl))(f := None)\<rparr>"
    by (simp add: abs_ufs_def)
qed

lemma reclaim_ok:
  assumes inv: "inv_except f s fl bl" and fi: "files s f = Some fi"
  shows "\<exists>s'. (if refs fi = 0 \<and> in_list fi = False then bindR (free_file_memory (Ptr f) s) (free_file (Ptr f)) else ret s)
      = ret s' \<and> ufs_inv s' fl bl \<and> abs_ufs s' fl bl = reclaim f (abs_ufs s fl bl)
      \<and> s' = (if live s fl f then s else freed s f (bl f))"
proof -
  have wf: "file_wf s fl bl f" using inv fi by (auto simp: inv_except_def)
  then have dead: "refs fi = 0 \<and> in_list fi = False \<longleftrightarrow> \<not> live s fl f"
    using fi finite_users_fresh [OF inv_except_fresh [OF inv]] by (auto simp: file_wf_def live_def)
  show ?thesis
  proof (cases "live s fl f")
    case True
    then have "ufs_inv s fl bl" using inv by (auto simp: ufs_inv_def inv_except_def)
    moreover have "\<not> (refs fi = 0 \<and> in_list fi = False)" using True dead by simp
    ultimately show ?thesis using True by (simp only: if_False if_True reclaim_def used_abs [OF inv]) simp
  next
    case False
    have "file_at s f (bl f)" using wf by (simp add: file_wf_def)
    from free_whole_file [OF this] freed_inv [OF inv fi False] False dead show ?thesis
      by (simp add: reclaim_def used_abs [OF inv] freed_def [symmetric])
  qed
qed

section \<open>Changing the descriptors of one file\<close>

lemma inv_exceptI: "ufs_inv s fl bl \<Longrightarrow> inv_except f s fl bl"
  by (auto simp: ufs_inv_def inv_except_def)

lemma inv_except_live: "inv_except f s fl bl \<Longrightarrow> live s fl f \<Longrightarrow> ufs_inv s fl bl"
  by (auto simp: ufs_inv_def inv_except_def)

lemma table_step:
  assumes inv: "inv_except f s fl bl" and fi: "files s f = Some fi"
    and s': "files s' = (files s)(f \<mapsto> fi\<lparr>refs := int (card (users s' f))\<rparr>)"
      "file_descriptors s' = FdArray xs" "fd_capacity s' = int (length xs)"
      "fd_count s' = int (length (filter (\<lambda>p. p \<noteq> Null) xs))" "blocks s' = blocks s"
      "file_list s' = file_list s" "heap_fill s' = heap_fill s" "error_code s' = error_code s"
    and fr: "fresh s'" and xs: "xs \<noteq> []" "fd_table xs (dom (filedescs s'))"
    and ok: "\<And>d. d \<in> ran (filedescs s') \<Longrightarrow> d \<in> ran (filedescs s) \<or> is_occupied d \<and> 0 \<le> fd_offset d \<and> fd_file d = Ptr f"
    and others: "\<And>g. g \<noteq> f \<Longrightarrow> users s' g = users s g"
  shows "inv_except f s' fl bl"
    and "abs_ufs s' fl bl = (abs_ufs s fl bl)\<lparr>a_fds := abs_fds s'\<rparr>"
proof -
  have dom: "dom (files s') = dom (files s)" using fi s'(1) by auto
  have slots: "slots s' = xs" using s'(2) by (simp add: slots_def)
  have name: "f_name (file_of s' g) = f_name (file_of s g)" for g using s'(1) fi by auto
  have bytes: "bytes_of s' bs = bytes_of s bs" for bs by (rule bytes_of_cong) (simp add: s'(5))
  have at: "file_at s' g bs = file_at s g bs" for g bs
    using s' fi by (auto simp: file_at_defs packed_at_cong [of bs s' s])
  have "dir_inv s' fl"
  proof -
    have "chain f_next f_prev (files s') Null (file_list s') fl Null"
      using inv s'(1,6) fi by (simp add: inv_except_def dir_inv_def chain_same_links)
    with inv name show ?thesis by (simp add: inv_except_def dir_inv_def)
  qed
  moreover have "heap_inv s' bl"
    using inv dom fr s' by (simp add: inv_except_def heap_inv_def)
  moreover have "fd_inv s'"
  proof -
    have "is_occupied d \<and> 0 \<le> fd_offset d \<and> (\<exists>f \<in> dom (files s'). fd_file d = Ptr f)"
      if "d \<in> ran (filedescs s')" for d
      using ok [OF that] inv fi unfolding dom inv_except_def fd_inv_def by blast
    with s' xs slots show ?thesis by (simp add: fd_inv_def)
  qed
  moreover have "file_wf s' fl bl g \<and> (g = f \<or> live s' fl g)" if "g \<in> dom (files s')" for g
  proof -
    have "file_wf s fl bl g \<and> (g = f \<or> live s fl g)" using that inv unfolding dom inv_except_def by blast
    then show ?thesis
      using s'(1) fi others at bytes by (cases "g = f") (auto simp: file_wf_def live_def)
  qed
  ultimately show "inv_except f s' fl bl" by (simp add: inv_except_def)
  have "abs_files s' bl = abs_files s bl"
    using fi s'(1) bytes by (auto simp: abs_files_def fun_eq_iff)
  moreover have "abs_dir s' fl = abs_dir s fl" using name by (simp add: abs_dir_def)
  ultimately show "abs_ufs s' fl bl = (abs_ufs s fl bl)\<lparr>a_fds := abs_fds s'\<rparr>"
    by (simp add: abs_ufs_def s'(7,8))
qed

section \<open>Closing\<close>

definition detached :: "ufs \<Rightarrow> nat \<Rightarrow> nat \<Rightarrow> nat \<Rightarrow> ufs_file \<Rightarrow> ufs" where
  "detached s i a f fi = s\<lparr>files := (files s)(f \<mapsto> fi\<lparr>refs := refs fi - 1\<rparr>),
     filedescs := (filedescs s)(a := None), file_descriptors := FdArray ((slots s)[i := Null]),
     fd_count := fd_count s - 1\<rparr>"

lemma detach_ok:
  assumes inv: "ufs_inv s fl bl" and i: "i < length (slots s)" "slots s ! i = Ptr a"
    and d: "filedescs s a = Some d" "fd_file d = Ptr f" and fi: "files s f = Some fi"
  shows "inv_except f (detached s i a f fi) fl bl"
    and "abs_ufs (detached s i a f fi) fl bl = (abs_ufs s fl bl)\<lparr>a_fds := (a_fds (abs_ufs s fl bl))(i := None)\<rparr>"
proof -
  let ?s = "detached s i a f fi" and ?xs = "(slots s)[i := Null]"
  have fdi: "fd_inv s" and fr: "fresh s" using inv inv_fresh by (auto simp: ufs_inv_def)
  have users_f: "users ?s f = users s f - {a}" and users_g: "g \<noteq> f \<Longrightarrow> users ?s g = users s g" for g
    using d by (auto simp: users_def detached_def)
  have "a \<in> users s f" using d by (simp add: users_def)
  then have card: "int (card (users ?s f)) = refs fi - 1"
    unfolding users_f using inv_file(4) [OF inv fi] finite_users [OF inv]
    by (simp add: card_Diff_singleton of_nat_diff card_gt_0_iff Suc_le_eq)
      (metis One_nat_def Suc_leI card_gt_0_iff empty_iff of_nat_1 of_nat_diff)
  have count: "fd_count s - 1 = int (length (filter (\<lambda>p. p \<noteq> Null) ?xs))"
    using length_filter_update [OF i(1), of "\<lambda>p. p \<noteq> Null" Null] i fdi by (simp add: fd_inv_def)
  have tab: "fd_table ?xs (dom (filedescs ?s))"
    using fd_table_remove [OF _ i] fdi by (simp add: fd_inv_def detached_def)
  have fr': "fresh ?s" using fr fi by (auto simp: fresh_def detached_def)
  have xs: "?xs \<noteq> []" using i by auto
  have ok: "d \<in> ran (filedescs ?s) \<Longrightarrow> d \<in> ran (filedescs s)" for d
    by (auto simp: detached_def ran_def split: if_splits)
  note st = table_step [OF inv_exceptI [OF inv] fi, of ?s ?xs, OF _ _ _ _ _ _ _ _ fr' xs tab _ users_g]
  show "inv_except f ?s fl bl"
    by (rule st(1)) (use card count fdi ok in \<open>auto simp: detached_def fd_inv_def\<close>)
  have "abs_ufs ?s fl bl = (abs_ufs s fl bl)\<lparr>a_fds := abs_fds ?s\<rparr>"
    by (rule st(2)) (use card count fdi ok in \<open>auto simp: detached_def fd_inv_def\<close>)
  moreover have "abs_fds ?s = (abs_fds s)(i := None)"
  proof
    fix j
    have "j < length (slots s) \<Longrightarrow> j \<noteq> i \<Longrightarrow> slots s ! j \<noteq> Ptr a"
      using fdi i by (auto simp: fd_inv_def fd_table_def)
    then show "abs_fds ?s j = ((abs_fds s)(i := None)) j"
      by (auto simp: abs_fds_def slots_def detached_def nth_list_update split: ptr.split fd_array.split)
  qed
  ultimately show "abs_ufs ?s fl bl = (abs_ufs s fl bl)\<lparr>a_fds := (a_fds (abs_ufs s fl bl))(i := None)\<rparr>"
    by (simp add: abs_ufs_def)
qed

lemma close_run:
  assumes inv: "ufs_inv s fl bl" and i: "i < length (slots s)" "slots s ! i = Ptr a"
    and d: "filedescs s a = Some d" "fd_file d = Ptr f" and fi: "files s f = Some fi"
    and valid: "is_valid_fd s (int i) = ret True" "fd_read s (int i) = ret (Ptr a)"
      "file_descriptors s = FdArray (slots s)"
  shows "ufs_close (int i) s = ret (0, if live (detached s i a f fi) fl f then detached s i a f fi
      else freed (detached s i a f fi) f (bl f))"
proof -
  let ?s = "detached s i a f fi" and ?s1 = "s\<lparr>files := (files s)(f \<mapsto> fi\<lparr>refs := refs fi - 1\<rparr>)\<rparr>"
  have fi': "files ?s f = Some (fi\<lparr>refs := refs fi - 1\<rparr>)" by (simp add: detached_def)
  have wf: "file_wf ?s fl bl f"
    using detach_ok(1) [OF inv i d fi] fi' by (auto simp: inv_except_def)
  then have dead: "refs fi - 1 = 0 \<and> in_list fi = False \<longleftrightarrow> \<not> live ?s fl f"
    using fi' finite_users_fresh [OF inv_except_fresh [OF detach_ok(1) [OF inv i d fi]]]
    by (auto simp: file_wf_def live_def)
  have "file_at ?s1 f (bl f)"
    using inv_file(1) [OF inv fi] fi by (auto simp: file_at_defs packed_at_cong [of _ ?s1 s])
  note free = free_whole_file [OF this]
  show ?thesis
  proof (cases "live ?s fl f")
    case True
    then have "\<not> (refs fi - 1 = 0 \<and> in_list fi = False)" using dead by blast
    then show ?thesis
      using True valid d fi i
      by (auto simp: ufs_close_def upd_file_def free_filedesc_def fd_write_def detached_def)
  next
    case False
    then have r: "refs fi = 1" "in_list fi = False" using dead by auto
    note bind = arg_cong [where f = "\<lambda>r. bindR r k" for k, OF free [unfolded r(1), simplified]]
    show ?thesis
      using False valid d fi i r
      by (simp add: bind ufs_close_def upd_file_def free_filedesc_def fd_write_def detached_def freed_def)
  qed
qed

lemma ufs_close_refines:
  assumes ref: "refines s A"
  shows "\<exists>s'. ufs_close fd s = ret (fst (spec_close fd A), s') \<and> refines s' (snd (spec_close fd A))"
proof -
  from ref obtain fl bl where inv: "ufs_inv s fl bl" and A: "A = abs_ufs s fl bl"
    by (auto simp: refines_def)
  show ?thesis
  proof (cases "afd_at A fd")
    case None
    then show ?thesis
      using fd_none [OF inv] A refines_fail [OF ref] by (simp add: ufs_close_def spec_close_def)
  next
    case (Some d')
    then obtain i a d f fi where fd: "fd = int i" "i < length (slots s)" "slots s ! i = Ptr a"
      "filedescs s a = Some d" "fd_file d = Ptr f" "files s f = Some fi" "d' = abs_fd d" "a_file d' = f"
      "is_valid_fd s fd = ret True" "fd_read s fd = ret (Ptr a)" "0 \<le> fd_offset d"
      "file_descriptors s = FdArray (slots s)"
      using fd_some [OF inv] A by metis
    let ?s = "detached s i a f fi"
    note det = detach_ok [OF inv fd(2-6)]
    obtain s' where "ufs_inv s' fl bl" "abs_ufs s' fl bl = reclaim f (abs_ufs ?s fl bl)"
      "s' = (if live ?s fl f then ?s else freed ?s f (bl f))"
      using reclaim_ok [OF det(1), of "fi\<lparr>refs := refs fi - 1\<rparr>"] by (auto simp: detached_def)
    moreover have "ufs_close fd s = ret (0, if live ?s fl f then ?s else freed ?s f (bl f))"
      using close_run [OF inv fd(2-6)] fd by simp
    moreover have "spec_close fd A = (0, reclaim f (abs_ufs ?s fl bl))"
      using Some fd A det(2) by (simp add: spec_close_def)
    ultimately show ?thesis by (auto intro: refinesI)
  qed
qed

section \<open>Searching the file list\<close>

lemma search_from_ok:
  "chain f_next f_prev (files s) bk p fl Null \<Longrightarrow>
    search_from name s p = ret (case map_of (map (\<lambda>f. (f_name (file_of s f), f)) fl) name of
      Some f \<Rightarrow> Ptr f | None \<Rightarrow> Null)"
proof (induction fl arbitrary: bk p)
  case Nil
  then show ?case by (subst search_from.simps) simp
next
  case (Cons f fl)
  then obtain fi where "p = Ptr f" "files s f = Some fi"
    "chain f_next f_prev (files s) (Ptr f) (f_next fi) fl Null" by auto
  with Cons.IH show ?case by (subst search_from.simps) auto
qed

lemma search_file_ok:
  assumes inv: "ufs_inv s fl bl"
  shows "search_file name s = ret (case a_dir (abs_ufs s fl bl) name of Some f \<Rightarrow> Ptr f | None \<Rightarrow> Null)"
proof -
  have "chain f_next f_prev (files s) Null (file_list s) fl Null"
    using inv by (simp add: ufs_inv_def dir_inv_def)
  from search_from_ok [OF this] show ?thesis
    by (simp add: search_file_def abs_ufs_def abs_dir_def)
qed

lemma dir_file:
  assumes inv: "ufs_inv s fl bl" and dir: "a_dir (abs_ufs s fl bl) name = Some f"
  obtains fi us vs where "files s f = Some fi" "f_name fi = name" "fl = us @ f # vs"
proof -
  from dir have "(name, f) \<in> set (map (\<lambda>f. (f_name (file_of s f), f)) fl)"
    by (auto simp: abs_ufs_def abs_dir_def dest: map_of_SomeD)
  then have f: "f \<in> set fl" "name = f_name (file_of s f)" by auto
  moreover from inv have "chain f_next f_prev (files s) Null (file_list s) fl Null"
    by (simp add: ufs_inv_def dir_inv_def)
  with f(1) obtain fi where "files s f = Some fi" by (blast dest: chain_alloc)
  ultimately show ?thesis using that split_list [OF f(1)] by auto
qed

section \<open>Changing the file list\<close>

text \<open>A file without its links in the file list.\<close>

definition file_core :: "ufs_file \<Rightarrow> ufs_file" where
  "file_core x = x\<lparr>f_next := Null, f_prev := Null\<rparr>"

lemma file_core_eq:
  "file_core x = file_core y \<longleftrightarrow> block_list x = block_list y \<and> last_block x = last_block y \<and> refs x = refs y
    \<and> f_name x = f_name y \<and> bytes_left x = bytes_left y \<and> in_list x = in_list y"
  by (cases x; cases y) (simp add: file_core_def)

text \<open>
  \<open>list_step\<close>: other files than \<open>f\<close> change at most their links; \<open>f\<close> exists afterwards, and if
  it did not before, it has no blocks.
\<close>

definition list_step :: "ufs \<Rightarrow> ufs \<Rightarrow> nat \<Rightarrow> bool" where
  "list_step s s' f \<longleftrightarrow>
     (\<forall>g. g \<noteq> f \<longrightarrow> map_option file_core (files s' g) = map_option file_core (files s g))
     \<and> f \<in> dom (files s')
     \<and> blocks s' = blocks s \<and> filedescs s' = filedescs s \<and> file_descriptors s' = file_descriptors s
     \<and> fd_count s' = fd_count s \<and> fd_capacity s' = fd_capacity s \<and> heap_fill s' = heap_fill s
     \<and> error_code s' = error_code s"

lemma list_step_core: "list_step s s' f \<Longrightarrow> g \<noteq> f \<Longrightarrow> map_option file_core (files s' g) = map_option file_core (files s g)"
  by (simp add: list_step_def)

lemma list_step_frame:
  assumes st: "list_step s s' f"
  shows "dom (files s') = insert f (dom (files s))" "slots s' = slots s" "users s' = users s" "bytes_of s' bs = bytes_of s bs"
proof -
  show "dom (files s') = insert f (dom (files s))"
  proof (intro set_eqI)
    fix g show "g \<in> dom (files s') \<longleftrightarrow> g \<in> insert f (dom (files s))"
      using list_step_core [OF st, of g] st
      by (cases "g = f") (auto simp: list_step_def domIff map_option_case split: option.splits)
  qed
  show "slots s' = slots s" "users s' = users s"
    using st by (simp_all add: list_step_def slots_def users_def fun_eq_iff)
  show "bytes_of s' bs = bytes_of s bs" by (rule bytes_of_cong) (use st in \<open>simp add: list_step_def\<close>)
qed

lemma list_step_heap:
  assumes inv: "heap_inv s bl" and st: "list_step s s' f" and fr: "fresh s'"
    and new: "f \<notin> dom (files s) \<Longrightarrow> bl f = []"
  shows "heap_inv s' bl"
proof -
  note dom = list_step_frame(1) [OF st]
  have "(\<Union>g \<in> dom (files s'). set (bl g)) = (\<Union>g \<in> dom (files s). set (bl g))"
    unfolding dom using new by (cases "f \<in> dom (files s)") (auto simp: insert_absorb)
  moreover have "set (bl g) \<inter> set (bl h) = {}"
    if g: "g \<in> insert f (dom (files s))" "h \<in> insert f (dom (files s))" "g \<noteq> h" for g h
  proof (cases "g \<in> dom (files s) \<and> h \<in> dom (files s)")
    case True
    with g(3) inv show ?thesis unfolding heap_inv_def by blast
  next
    case False
    then have "f \<notin> dom (files s)" "g = f \<or> h = f" using g by auto
    with new show ?thesis by auto
  qed
  ultimately show ?thesis
    using inv fr st dom by (simp add: heap_inv_def list_step_def)
qed

lemma list_step_other:
  assumes wf: "file_wf s fl bl g" "live s fl g" and st: "list_step s s' f" and g: "g \<noteq> f" "g \<in> dom (files s)"
    and others: "g \<in> set fl' \<longleftrightarrow> g \<in> set fl"
  shows "file_wf s' fl' bl g \<and> live s' fl' g"
proof -
  obtain gi where gi: "files s g = Some gi" using g(2) by auto
  then obtain gi' where gi': "files s' g = Some gi'" "file_core gi' = file_core gi"
    using list_step_core [OF st g(1)] by (cases "files s' g") auto
  have "file_at s' g (bl g) \<longleftrightarrow> file_at s g (bl g)"
    using gi gi' st by (simp add: list_step_def file_at_defs file_core_eq packed_at_cong [of _ s' s])
  then show ?thesis
    using wf gi gi' others list_step_frame(3,4) [OF st] by (simp add: file_wf_def live_def file_core_eq)
qed

lemma list_step_inv:
  assumes inv: "inv_except f s fl bl" and st: "list_step s s' f"
    and dir: "dir_inv s' fl'" and others: "\<And>g. g \<noteq> f \<Longrightarrow> g \<in> set fl' \<longleftrightarrow> g \<in> set fl"
    and wf: "file_wf s' fl' bl f" and fr: "fresh s'"
    and new: "f \<notin> dom (files s) \<Longrightarrow> bl f = []"
  shows "inv_except f s' fl' bl"
    and "a_files (abs_ufs s' fl' bl) = (a_files (abs_ufs s fl bl))(f \<mapsto>
      \<lparr>a_data = bytes_of s (bl f), a_left = unat (bytes_left (file_of s' f))\<rparr>)"
    and "a_fds (abs_ufs s' fl' bl) = a_fds (abs_ufs s fl bl)"
proof -
  have keep: "filedescs s' = filedescs s" "file_descriptors s' = file_descriptors s"
    "fd_count s' = fd_count s" "fd_capacity s' = fd_capacity s" and f: "f \<in> dom (files s')"
    using st by (auto simp: list_step_def)
  note frame = list_step_frame [OF st]
  have "heap_inv s bl" using inv by (simp add: inv_except_def)
  then have "heap_inv s' bl" using st fr new by (rule list_step_heap)
  moreover have "fd_inv s'"
    using inv unfolding inv_except_def fd_inv_def frame keep by blast
  moreover have "file_wf s' fl' bl g \<and> (g = f \<or> live s' fl' g)" if g: "g \<in> dom (files s')" for g
  proof (cases "g = f")
    case False
    with g frame(1) inv have "g \<in> dom (files s)" "file_wf s fl bl g" "live s fl g" by (auto simp: inv_except_def)
    with list_step_other [OF _ _ st False _ others [OF False]] show ?thesis by blast
  qed (use wf in simp)
  ultimately show "inv_except f s' fl' bl" using dir by (simp add: inv_except_def)
  show "a_files (abs_ufs s' fl' bl) = (a_files (abs_ufs s fl bl))(f \<mapsto>
      \<lparr>a_data = bytes_of s (bl f), a_left = unat (bytes_left (file_of s' f))\<rparr>)"
  proof
    fix g
    show "a_files (abs_ufs s' fl' bl) g = ((a_files (abs_ufs s fl bl))(f \<mapsto>
      \<lparr>a_data = bytes_of s (bl f), a_left = unat (bytes_left (file_of s' f))\<rparr>)) g"
    proof (cases "g = f")
      case True
      then show ?thesis using f frame(4) by (auto simp: abs_ufs_def abs_files_def)
    next
      case False
      then show ?thesis
        using list_step_core [OF st False] frame(4)
        by (cases "files s g"; cases "files s' g") (auto simp: abs_ufs_def abs_files_def file_core_eq)
    qed
  qed
  show "a_fds (abs_ufs s' fl' bl) = a_fds (abs_ufs s fl bl)"
    using abs_fds_same [OF frame(2) keep(1)] by (simp add: abs_ufs_def)
qed

section \<open>Deleting\<close>

text \<open>The links around the deleted file, as \<open>ufs_delete\<close> writes them.\<close>

definition unlink_file :: "ufs_file \<Rightarrow> ufs \<Rightarrow> ufs res" where
  "unlink_file fi s =
     (let prev_file = f_prev fi; next_file = f_next fi in
      bindR (is_null prev_file) (\<lambda>zp.
      bindR (is_null next_file) (\<lambda>zn.
      if zp
      then let s = s\<lparr>file_list := next_file\<rparr> in
           if zn then ret s else upd_file next_file (\<lambda>x. x\<lparr>f_prev := Null\<rparr>) s
      else bindR (upd_file prev_file (\<lambda>x. x\<lparr>f_next := next_file\<rparr>) s) (\<lambda>s.
           if zn then ret s else upd_file next_file (\<lambda>x. x\<lparr>f_prev := prev_file\<rparr>) s))))"

lemma unlink_file_ok:
  assumes ch: "chain f_next f_prev (files s) Null (file_list s) (us @ f # vs) Null"
    and fi: "files s f = Some fi"
  shows "\<exists>h p. unlink_file fi s = ret (s\<lparr>files := h, file_list := p\<rparr>)
    \<and> chain f_next f_prev h Null p (us @ vs) Null \<and> h f = Some fi
    \<and> (\<forall>g. map_option file_core (h g) = map_option file_core (files s g))"
proof -
  have dist: "distinct (us @ f # vs)" by (rule chain_distinct [OF ch])
  note defs = unlink_file_def upd_file_def file_core_eq Let_def
  show ?thesis
  proof (cases us rule: rev_cases)
    case Nil
    then have p: "file_list s = Ptr f" "f_prev fi = Null" using ch fi by auto
    show ?thesis
    proof (cases vs)
      case Nil
      with \<open>us = []\<close> ch fi p show ?thesis
        by (intro exI [of _ "files s"] exI [of _ Null]) (auto simp: defs)
    next
      case (Cons b vs')
      then obtain y where y: "files s b = Some y" using chain_alloc [OF ch, of b] by auto
      from fnode.unlink_first [of "files s" Null _ f b vs' y fi] ch Nil Cons y fi
      have "f_next fi = Ptr b" "chain f_next f_prev ((files s)(b \<mapsto> y\<lparr>f_prev := Null\<rparr>)) Null (Ptr b) (b # vs') Null"
        by auto
      with Cons Nil dist y fi p show ?thesis
        by (intro exI [of _ "(files s)(b \<mapsto> y\<lparr>f_prev := Null\<rparr>)"] exI [of _ "Ptr b"]) (auto simp: defs)
    qed
  next
    case (snoc us' c)
    then obtain z where z: "files s c = Some z" using chain_alloc [OF ch, of c] by auto
    show ?thesis
    proof (cases vs)
      case Nil
      from fnode.unlink_last [of "files s" Null _ us' c f z fi] ch Nil snoc z fi
      have "f_prev fi = Ptr c" "f_next fi = Null"
        "chain f_next f_prev ((files s)(c \<mapsto> z\<lparr>f_next := Null\<rparr>)) Null (file_list s) (us' @ [c]) Null" by auto
      with Nil snoc dist z fi show ?thesis
        by (intro exI [of _ "(files s)(c \<mapsto> z\<lparr>f_next := Null\<rparr>)"] exI [of _ "file_list s"]) (auto simp: defs)
    next
      case (Cons b vs')
      then obtain y where y: "files s b = Some y" using chain_alloc [OF ch, of b] by auto
      from fnode.unlink_middle [of "files s" Null _ us' c f b vs' z fi y] ch Cons snoc z y fi
      have "f_prev fi = Ptr c" "f_next fi = Ptr b"
        "chain f_next f_prev ((files s)(c \<mapsto> z\<lparr>f_next := Ptr b\<rparr>, b \<mapsto> y\<lparr>f_prev := Ptr c\<rparr>)) Null (file_list s)
          (us' @ [c, b] @ vs') Null" by auto
      with Cons snoc dist y z fi show ?thesis
        by (intro exI [of _ "(files s)(c \<mapsto> z\<lparr>f_next := Ptr b\<rparr>, b \<mapsto> y\<lparr>f_prev := Ptr c\<rparr>)"]
            exI [of _ "file_list s"]) (auto simp: defs)
    qed
  qed
qed

lemma delete_run:
  assumes "search_file name s = ret (Ptr f)" "files s f = Some fi"
  shows "ufs_delete name s =
    bindR (unlink_file fi s) (\<lambda>s.
    bindR (upd_file (Ptr f) (\<lambda>x. x\<lparr>in_list := False\<rparr>) s) (\<lambda>s.
    bindR (load (files s) (Ptr f)) (\<lambda>fi.
    bindR (if refs fi = 0 then bindR (free_file_memory (Ptr f) s) (\<lambda>s. free_file (Ptr f) s) else ret s) (\<lambda>s.
    ret (0, s)))))"
  using assms by (simp add: ufs_delete_def unlink_file_def Let_def bindR_assoc)

lemma file_at_links:
  assumes "files s' f = Some fi'" "files s f = Some fi" "blocks s' = blocks s" "heap_fill s' = heap_fill s"
    "block_list fi' = block_list fi" "last_block fi' = last_block fi"
  shows "file_at s' f bs \<longleftrightarrow> file_at s f bs"
  using assms by (simp add: file_at_defs packed_at_cong [of bs s' s])

lemma map_of_remove:
  "distinct (map F (us @ f # vs)) \<Longrightarrow>
    map_of (map (\<lambda>f. (F f, f)) (us @ vs)) = (map_of (map (\<lambda>f. (F f, f)) (us @ f # vs)))(F f := None)"
proof (induction us)
  case Nil
  then have "map_of (map (\<lambda>f. (F f, f)) vs) (F f) = None"
    by (simp add: map_of_eq_None_iff image_image)
  then show ?case by (simp add: fun_eq_iff)
next
  case (Cons u us)
  then have "F u \<noteq> F f" by auto
  with Cons show ?case by (auto simp: fun_eq_iff)
qed

lemma unlinked_inv:
  assumes inv: "ufs_inv s (us @ f # vs) bl" and fi: "files s f = Some fi"
    and ch: "chain f_next f_prev h Null p (us @ vs) Null" and hf: "h f = Some fi"
    and core: "\<And>g. map_option file_core (h g) = map_option file_core (files s g)"
  defines "s' \<equiv> s\<lparr>files := h(f \<mapsto> fi\<lparr>in_list := False\<rparr>), file_list := p\<rparr>"
  shows "inv_except f s' (us @ vs) bl"
    and "abs_ufs s' (us @ vs) bl = (abs_ufs s (us @ f # vs) bl)\<lparr>
      a_dir := (a_dir (abs_ufs s (us @ f # vs) bl))(f_name fi := None)\<rparr>"
proof -
  have fi': "files s' f = Some (fi\<lparr>in_list := False\<rparr>)" by (simp add: s'_def)
  have dinv: "dir_inv s (us @ f # vs)" using inv by (simp add: ufs_inv_def)
  then have dist: "distinct (us @ f # vs)" "distinct (map (\<lambda>f. f_name (file_of s f)) (us @ f # vs))"
    by (auto simp only: dir_inv_def dest: chain_distinct)
  have name: "f_name (file_of s' g) = f_name (file_of s g)" if g: "g \<in> set (us @ vs)" for g
  proof -
    from g dist(1) have "g \<noteq> f" by auto
    moreover obtain x where "h g = Some x" using chain_alloc [OF ch g] by blast
    ultimately show ?thesis
      using core [of g] by (cases "files s g") (auto simp: s'_def file_core_eq)
  qed
  have core': "map_option file_core (files s' g) = map_option file_core (files s g)" if "g \<noteq> f" for g
    using core that by (simp add: s'_def)
  have st: "list_step s s' f" using core' by (auto simp: list_step_def s'_def)
  have dir: "dir_inv s' (us @ vs)"
  proof -
    have "map (\<lambda>f. f_name (file_of s' f)) (us @ vs) = map (\<lambda>f. f_name (file_of s f)) (us @ vs)"
      using name by simp
    moreover have "chain f_next f_prev (files s') Null (file_list s') (us @ vs) Null"
      using ch dist(1) by (simp add: s'_def)
    moreover have "distinct (map (\<lambda>f. f_name (file_of s f)) (us @ vs))" using dist(2) by simp
    ultimately show ?thesis by (simp only: dir_inv_def)
  qed
  have bytes: "bytes_of s' bs = bytes_of s bs" for bs by (rule bytes_of_cong) (simp add: s'_def)
  have wf: "file_wf s' (us @ vs) bl f"
    using inv_file [OF inv fi] fi' fi dist(1) bytes file_at_links [OF fi' fi]
    by (auto simp: file_wf_def users_def s'_def)
  have fr: "fresh s'"
    unfolding fresh_def
  proof (intro allI impI)
    fix a assume "next_addr s' \<le> a"
    then have a: "blocks s a = None" "files s a = None" "filedescs s a = None"
      using inv_fresh [OF inv] by (auto simp: fresh_def s'_def)
    moreover from a fi have "a \<noteq> f" by auto
    ultimately show "blocks s' a = None \<and> files s' a = None \<and> filedescs s' a = None"
      using core [of a] by (auto simp: s'_def)
  qed
  have others: "g \<noteq> f \<Longrightarrow> g \<in> set (us @ vs) \<longleftrightarrow> g \<in> set (us @ f # vs)" for g by auto
  have old: "f \<notin> dom (files s) \<Longrightarrow> bl f = []" using fi by auto
  note step = list_step_inv [OF inv_exceptI [OF inv] st dir others wf fr old]
  show "inv_except f s' (us @ vs) bl" by (rule step(1))
  have "a_files (abs_ufs s' (us @ vs) bl) = a_files (abs_ufs s (us @ f # vs) bl)"
    using step(2) a_files_abs [OF fi, of "us @ f # vs" bl] fi' by (simp add: fun_upd_idem)
  moreover have "abs_dir s' (us @ vs) = (abs_dir s (us @ f # vs))(f_name fi := None)"
  proof -
    have "abs_dir s' (us @ vs) = abs_dir s (us @ vs)"
      unfolding abs_dir_def by (intro arg_cong [where f = map_of] map_cong refl) (simp add: name)
    with map_of_remove [OF dist(2)] fi show ?thesis by (simp add: abs_dir_def)
  qed
  moreover have "a_err (abs_ufs s' (us @ vs) bl) = a_err (abs_ufs s (us @ f # vs) bl)"
    "a_fill (abs_ufs s' (us @ vs) bl) = a_fill (abs_ufs s (us @ f # vs) bl)"
    by (simp_all add: abs_ufs_def s'_def)
  ultimately show "abs_ufs s' (us @ vs) bl = (abs_ufs s (us @ f # vs) bl)\<lparr>
      a_dir := (a_dir (abs_ufs s (us @ f # vs) bl))(f_name fi := None)\<rparr>"
    using step(3) by (simp add: abs_ufs_def)
qed

lemma ufs_delete_refines:
  assumes ref: "refines s A"
  shows "\<exists>s'. ufs_delete name s = ret (fst (spec_delete name A), s') \<and> refines s' (snd (spec_delete name A))"
proof -
  from ref obtain fl bl where inv: "ufs_inv s fl bl" and A: "A = abs_ufs s fl bl"
    by (auto simp: refines_def)
  show ?thesis
  proof (cases "a_dir A name")
    case None
    then show ?thesis
      using search_file_ok [OF inv, of name] A refines_fail [OF ref]
      by (simp add: ufs_delete_def spec_delete_def)
  next
    case (Some f)
    then obtain fi us vs where fi: "files s f = Some fi" "f_name fi = name" and fl: "fl = us @ f # vs"
      using dir_file [OF inv] A by metis
    have found: "search_file name s = ret (Ptr f)"
      using search_file_ok [OF inv, of name] Some A by simp
    have "chain f_next f_prev (files s) Null (file_list s) (us @ f # vs) Null"
      using inv fl by (simp add: ufs_inv_def dir_inv_def)
    from unlink_file_ok [OF this fi(1)] obtain h p where
      un: "unlink_file fi s = ret (s\<lparr>files := h, file_list := p\<rparr>)" and hf: "h f = Some fi"
      and ch: "chain f_next f_prev h Null p (us @ vs) Null"
      and core: "\<And>g. map_option file_core (h g) = map_option file_core (files s g)"
      by blast
    let ?s = "s\<lparr>files := h(f \<mapsto> fi\<lparr>in_list := False\<rparr>), file_list := p\<rparr>"
    note step = unlinked_inv [OF inv [unfolded fl] fi(1) ch hf core]
    have fi': "files ?s f = Some (fi\<lparr>in_list := False\<rparr>)" by simp
    obtain s' where s': "(if refs fi = 0 then bindR (free_file_memory (Ptr f) ?s) (free_file (Ptr f)) else ret ?s) = ret s'"
      "ufs_inv s' (us @ vs) bl" "abs_ufs s' (us @ vs) bl = reclaim f (abs_ufs ?s (us @ vs) bl)"
      using reclaim_ok [OF step(1) fi'] by auto
    have up: "upd_file (Ptr f) (\<lambda>x. x\<lparr>in_list := False\<rparr>) (s\<lparr>files := h, file_list := p\<rparr>) = ret ?s"
      using hf by (simp add: upd_file_def)
    have "ufs_delete name s = ret (0, s')"
      unfolding delete_run [OF found fi(1)] un bindR_simps up
      using s'(1) fi' by (cases "refs fi = 0") (simp_all add: bindR_assoc [symmetric])
    moreover have "spec_delete name A = (0, abs_ufs s' (us @ vs) bl)"
      using Some A fl fi s'(3) step(2) by (simp add: spec_delete_def)
    ultimately show ?thesis using s'(2) by (auto intro: refinesI)
  qed
qed

section \<open>Choosing a descriptor\<close>

lemma find_free_fd_ok:
  assumes arr: "file_descriptors s = FdArray xs" and junk: "Junk \<notin> set xs"
  shows "\<forall>k \<in> set ks. k < length xs \<Longrightarrow> find_free_fd s (map int ks) =
    ret (case find (\<lambda>j. xs ! j = Null) ks of Some j \<Rightarrow> int j | None \<Rightarrow> -1)"
proof (induction ks)
  case (Cons k ks)
  then have "xs ! k \<noteq> Junk" using junk by (auto simp: in_set_conv_nth)
  with Cons arr show ?case by (cases "xs ! k") (auto simp: fd_read_def)
qed simp

lemma find_upt_least:
  assumes "k < n" "P k"
  obtains i where "find P [0..<n] = Some i" "i < n" "P i" "\<And>j. j < i \<Longrightarrow> \<not> P j"
proof -
  from assms have "find P [0..<n] \<noteq> None" by (auto simp: find_None_iff)
  then obtain i where i: "find P [0..<n] = Some i" by auto
  then obtain m where "m < n" "P m" "i = m" "\<forall>j < m. \<not> P j"
    by (auto simp: find_Some_iff)
  with i that show thesis by auto
qed

lemma filter_all: "length (filter P xs) = length xs \<Longrightarrow> i < length xs \<Longrightarrow> P (xs ! i)"
  by (metis filter_id_conv length_filter_less nless_le nth_mem)

lemma get_fd_ok:
  assumes inv: "fd_inv s" and fill: "heap_fill s = Null"
  shows "\<exists>xs i k. get_fd s = ret (int i, s\<lparr>file_descriptors := FdArray xs, fd_capacity := int (length xs),
      fd_count := fd_count s + 1\<rparr>)
    \<and> xs = slots s @ replicate k Null \<and> i < length xs \<and> xs ! i = Null \<and> (\<forall>j < i. j < length (slots s) \<and> slots s ! j \<noteq> Null)"
proof (cases "file_descriptors s")
  case FdNull
  then have "slots s = []" "fd_count s = 0" using inv by (auto simp: slots_def fd_inv_def)
  with FdNull fill show ?thesis
    by (intro exI [of _ "replicate 10 Null"] exI [of _ 0] exI [of _ 10]) (simp add: get_fd_def)
next
  case (FdArray xs)
  then have xs: "slots s = xs" "xs \<noteq> []" "Junk \<notin> set xs" "fd_capacity s = int (length xs)"
    "fd_count s = int (length (filter (\<lambda>p. p \<noteq> Null) xs))"
    using inv by (auto simp: slots_def fd_inv_def fd_table_def)
  show ?thesis
  proof (cases "fd_count s = fd_capacity s")
    case True
    then have "\<forall>j < length xs. xs ! j \<noteq> Null"
      using xs filter_all [of "\<lambda>p. p \<noteq> Null" xs] by auto
    with True FdArray xs fill show ?thesis
      by (intro exI [of _ "xs @ replicate (length xs) Null"] exI [of _ "length xs"] exI [of _ "length xs"])
        (simp add: get_fd_def nth_append)
  next
    case False
    then obtain k where k: "k < length xs" "xs ! k = Null"
      using xs by (metis (mono_tags, lifting) filter_True in_set_conv_nth)
    obtain i where i: "find (\<lambda>j. xs ! j = Null) [0..<length xs] = Some i" "i < length xs" "xs ! i = Null"
      "\<And>j. j < i \<Longrightarrow> xs ! j \<noteq> Null"
      by (rule find_upt_least [of k "length xs" "\<lambda>j. xs ! j = Null", OF k]) auto
    have "find_free_fd s [0..fd_capacity s - 1] = ret (int i)"
      unfolding xs(4) upto_map_int by (subst find_free_fd_ok [OF FdArray xs(3)]) (simp_all add: i(1))
    moreover have "s\<lparr>file_descriptors := FdArray xs, fd_capacity := int (length xs), fd_count := fd_count s + 1\<rparr>
        = s\<lparr>fd_count := fd_count s + 1\<rparr>"
      using FdArray xs(4) by (metis (no_types, lifting) ufs.surjective ufs.update_convs(3,5))
    ultimately show ?thesis
      using False FdArray i xs by (intro exI [of _ xs] exI [of _ i] exI [of _ 0]) (simp add: get_fd_def)
  qed
next
  case FdFreed
  with inv show ?thesis by (simp add: fd_inv_def)
qed

lemma first_free_ok:
  assumes inv: "fd_inv s" and xs: "xs = slots s @ replicate k Null" "i < length xs" "xs ! i = Null"
    "\<forall>j < i. j < length (slots s) \<and> slots s ! j \<noteq> Null"
  shows "first_free (abs_ufs s fl bl) = i"
  unfolding first_free_def
proof (rule Least_equality)
  show "a_fds (abs_ufs s fl bl) i = None"
    using xs by (auto simp: abs_ufs_def abs_fds_def nth_append split: if_splits)
next
  fix j assume none: "a_fds (abs_ufs s fl bl) j = None"
  show "i \<le> j"
  proof (rule ccontr)
    assume "\<not> i \<le> j"
    then have j: "j < length (slots s)" "slots s ! j \<noteq> Null" using xs by auto
    then have "slots s ! j \<in> set (slots s)" by simp
    with j inv obtain a where a: "slots s ! j = Ptr a" "Ptr a \<in> set (slots s)"
      by (cases "slots s ! j") (auto simp: fd_inv_def fd_table_def)
    with inv have "a \<in> dom (filedescs s)" by (simp add: fd_inv_def fd_table_def)
    with none a j show False by (auto simp: abs_ufs_def abs_fds_def)
  qed
qed

section \<open>Opening\<close>

lemma open_fd_ok:
  assumes inv: "inv_except f s fl bl" and fi: "files s f = Some fi" and fill: "heap_fill s = Null"
  shows "\<exists>s'. open_fd (Ptr f) flags s = ret (fst (attach f flags (abs_ufs s fl bl)), s')
    \<and> ufs_inv s' fl bl \<and> abs_ufs s' fl bl = snd (attach f flags (abs_ufs s fl bl))"
proof -
  have fdi: "fd_inv s" and fr: "fresh s" and wf: "file_wf s fl bl f"
    using inv fi by (auto simp: inv_except_def heap_inv_def)
  let ?n = "next_addr s" and ?s1 = "s\<lparr>files := (files s)(f \<mapsto> fi\<lparr>refs := refs fi + 1\<rparr>)\<rparr>"
  let ?d = "\<lparr>fd_file = Ptr f, is_occupied = True, fd_offset = 0,
    can_read = open_can_read flags, can_write = open_can_write flags\<rparr>"
  have s1: "slots ?s1 = slots s" by (simp add: slots_def)
  have "fd_inv ?s1" using fdi fi s1 unfolding fd_inv_def by auto
  from get_fd_ok [OF this] fill s1 obtain xs i k where
    get: "get_fd ?s1 = ret (int i, ?s1\<lparr>file_descriptors := FdArray xs, fd_capacity := int (length xs),
      fd_count := fd_count s + 1\<rparr>)"
    and xs: "xs = slots s @ replicate k Null" "i < length xs" "xs ! i = Null"
      "\<forall>j < i. j < length (slots s) \<and> slots s ! j \<noteq> Null"
    by auto
  have first: "first_free (abs_ufs s fl bl) = i" by (rule first_free_ok [OF fdi xs])
  have n: "filedescs s ?n = None" using fr by (simp add: fresh_def)
  let ?s' = "s\<lparr>files := (files s)(f \<mapsto> fi\<lparr>refs := refs fi + 1\<rparr>), file_descriptors := FdArray (xs[i := Ptr ?n]),
    fd_capacity := int (length xs), fd_count := fd_count s + 1,
    filedescs := (filedescs s)(?n \<mapsto> ?d), next_addr := Suc ?n\<rparr>"
  have run: "open_fd (Ptr f) flags s = ret (int i, ?s')"
    using get fi xs(2) by (simp add: open_fd_def upd_file_def malloc_filedesc_def fd_write_def)
  have users_f: "users ?s' f = insert ?n (users s f)" and users_g: "g \<noteq> f \<Longrightarrow> users ?s' g = users s g" for g
    using n by (auto simp: users_def)
  have "?n \<notin> users s f" using n by (simp add: users_def)
  then have card: "refs fi + 1 = int (card (users ?s' f))"
    unfolding users_f using wf fi finite_users_fresh [OF fr, of f] by (simp add: file_wf_def)
  have count: "fd_count s + 1 = int (length (filter (\<lambda>p. p \<noteq> Null) (xs[i := Ptr ?n])))"
    using length_filter_update [OF xs(2), of "\<lambda>p. p \<noteq> Null" "Ptr ?n"] xs fdi by (simp add: fd_inv_def)
  have "fd_table xs (dom (filedescs s))"
    using fdi unfolding xs(1) by (intro fd_table_grow) (simp add: fd_inv_def)
  then have tab: "fd_table (xs[i := Ptr ?n]) (dom (filedescs ?s'))"
    using fd_table_insert [OF _ xs(2,3), of "dom (filedescs s)" ?n] n by auto
  have fr': "fresh ?s'" using fr fi by (auto simp: fresh_def)
  have ne: "xs[i := Ptr ?n] \<noteq> []" using xs(2) by auto
  have ok: "d \<in> ran (filedescs ?s') \<Longrightarrow> d \<in> ran (filedescs s) \<or> is_occupied d \<and> 0 \<le> fd_offset d \<and> fd_file d = Ptr f"
    for d by (auto simp: ran_def split: if_splits)
  note st = table_step [OF inv fi, of ?s' "xs[i := Ptr ?n]", OF _ _ _ _ _ _ _ _ fr' ne tab ok users_g]
  have "inv_except f ?s' fl bl"
    by (rule st(1)) (use card count in simp_all)
  moreover have "live ?s' fl f" using users_f by (simp add: live_def)
  ultimately have inv': "ufs_inv ?s' fl bl" by (rule inv_except_live)
  have "abs_ufs ?s' fl bl = (abs_ufs s fl bl)\<lparr>a_fds := abs_fds ?s'\<rparr>"
    by (rule st(2)) (use card count in simp_all)
  moreover have "abs_fds ?s' = (abs_fds s)(i \<mapsto> abs_fd ?d)"
  proof
    fix j
    have old: "slots s ! j \<noteq> Ptr ?n" if "j < length (slots s)"
    proof
      assume "slots s ! j = Ptr ?n"
      with that have "Ptr ?n \<in> set (slots s)" by (metis nth_mem)
      with fdi have "?n \<in> dom (filedescs s)" by (simp add: fd_inv_def fd_table_def)
      with n show False by auto
    qed
    have "slots ?s' = xs[i := Ptr ?n]" by (simp add: slots_def)
    then show "abs_fds ?s' j = ((abs_fds s)(i \<mapsto> abs_fd ?d)) j"
      using xs old by (auto simp: abs_fds_def nth_list_update nth_append split: ptr.split)
  qed
  ultimately have "abs_ufs ?s' fl bl = snd (attach f flags (abs_ufs s fl bl))"
    by (simp add: attach_def first abs_fd_def) (simp add: abs_ufs_def)
  moreover have "fst (attach f flags (abs_ufs s fl bl)) = int i"
    by (simp add: attach_def first)
  ultimately show ?thesis using run inv' by auto
qed

lemma last_file_from_ok:
  "chain f_next f_prev (files s) bk p fl Null \<Longrightarrow> fl \<noteq> [] \<Longrightarrow> last_file_from s p = ret (Ptr (last fl))"
proof (induction fl arbitrary: bk p)
  case (Cons f fl)
  from Cons.prems(1) obtain fi where "p = Ptr f" "files s f = Some fi"
    "chain f_next f_prev (files s) (Ptr f) (f_next fi) fl Null" by auto
  then show ?case
    using Cons.IH by (subst last_file_from.simps) (cases fl; auto)
qed simp

lemma append_file_ok:
  assumes ch: "chain f_next f_prev (files s) Null (file_list s) fl Null"
    and n: "files s n = Some x" "n \<notin> set fl" "f_next x = Null" "f_prev x = Null"
  shows "\<exists>h p q. append_file (Ptr n) s = ret (s\<lparr>files := h, file_list := p\<rparr>)
    \<and> chain f_next f_prev h Null p (fl @ [n]) Null \<and> h n = Some (x\<lparr>f_prev := q\<rparr>)
    \<and> (\<forall>g. map_option file_core (h g) = map_option file_core (files s g))"
proof (cases fl rule: rev_cases)
  case Nil
  with ch n show ?thesis
    by (intro exI [of _ "files s"] exI [of _ "Ptr n"] exI [of _ Null]) (simp add: append_file_def)
next
  case (snoc us l)
  then obtain y where y: "files s l = Some y" using chain_alloc [OF ch, of l] by auto
  have ln: "l \<noteq> n" using n snoc by auto
  obtain a where p: "file_list s = Ptr a" using ch snoc by (cases us) auto
  let ?h = "(files s)(l \<mapsto> y\<lparr>f_next := Ptr n\<rparr>, n \<mapsto> x\<lparr>f_prev := Ptr l\<rparr>)"
  have "append_file (Ptr n) s = ret (s\<lparr>files := ?h, file_list := file_list s\<rparr>)"
    using last_file_from_ok [OF ch] snoc y n ln p by (simp add: append_file_def upd_file_def)
  moreover have "chain f_next f_prev ((files s)(n \<mapsto> x\<lparr>f_prev := Ptr l\<rparr>, l \<mapsto> y\<lparr>f_next := Ptr n\<rparr>)) Null (file_list s) (us @ [l, n]) Null"
    by (rule fnode.append_node) (use ch snoc n y in simp_all)
  then have "chain f_next f_prev ?h Null (file_list s) (fl @ [n]) Null"
    using ln snoc by (simp add: fun_upd_twist)
  moreover have "\<forall>g. map_option file_core (?h g) = map_option file_core (files s g)"
    using n y by (simp add: file_core_eq)
  ultimately show ?thesis
    by (intro exI [of _ ?h] exI [of _ "file_list s"] exI [of _ "Ptr l"]) simp
qed

lemma inv_no_blocks:
  assumes "ufs_inv s fl bl" "files s n = None"
  shows "ufs_inv s fl (bl(n := [])) \<and> abs_ufs s fl (bl(n := [])) = abs_ufs s fl bl"
proof -
  have "\<forall>f \<in> dom (files s). (bl(n := [])) f = bl f" using assms(2) by auto
  with assms(1) have "ufs_inv s fl (bl(n := []))"
    by (simp add: ufs_inv_def heap_inv_def file_wf_def)
  moreover have "abs_files s (bl(n := [])) = abs_files s bl"
    using assms(2) by (auto simp: abs_files_def fun_eq_iff)
  ultimately show ?thesis by (simp add: abs_ufs_def)
qed

lemma map_of_snoc:
  assumes "map_of xs k = None" shows "map_of (xs @ [(k, v)]) = (map_of xs)(k \<mapsto> v)"
proof
  fix n
  show "map_of (xs @ [(k, v)]) n = ((map_of xs)(k \<mapsto> v)) n"
    using assms by (cases "n = k"; cases "map_of xs n") (auto simp: map_add_def)
qed

text \<open>The new file of \<open>ufs_open\<close>: allocated and appended to the list.\<close>

text \<open>A new name at the end of the directory.\<close>

lemma dir_inv_snoc:
  assumes dir: "dir_inv s fl" and ch: "chain f_next f_prev (files s') Null (file_list s') (fl @ [n]) Null"
    and same: "\<And>g. g \<in> set fl \<Longrightarrow> f_name (file_of s' g) = f_name (file_of s g)"
    and new: "f_name (file_of s' n) = name" "abs_dir s fl name = None"
  shows "dir_inv s' (fl @ [n])" "abs_dir s' (fl @ [n]) = (abs_dir s fl)(name \<mapsto> n)"
proof -
  have fresh_name: "name \<notin> set (map (\<lambda>f. f_name (file_of s f)) fl)"
    using new(2) by (simp add: abs_dir_def map_of_eq_None_iff image_image)
  have names: "map (\<lambda>f. f_name (file_of s' f)) fl = map (\<lambda>f. f_name (file_of s f)) fl" using same by simp
  have "distinct (map (\<lambda>f. f_name (file_of s f)) fl @ [name])"
    using dir fresh_name by (simp add: dir_inv_def)
  then have "distinct (map (\<lambda>f. f_name (file_of s' f)) (fl @ [n]))"
    unfolding map_append names by (simp only: list.map new(1))
  with ch show "dir_inv s' (fl @ [n])" by (simp only: dir_inv_def)
  have "map (\<lambda>f. (f_name (file_of s' f), f)) (fl @ [n]) = map (\<lambda>f. (f_name (file_of s f), f)) fl @ [(name, n)]"
    using same new(1) by simp
  then have "abs_dir s' (fl @ [n]) = map_of (map (\<lambda>f. (f_name (file_of s f), f)) fl @ [(name, n)])"
    unfolding abs_dir_def by (rule arg_cong)
  also have "\<dots> = (abs_dir s fl)(name \<mapsto> n)"
    using fresh_name unfolding abs_dir_def by (intro map_of_snoc) (simp add: map_of_eq_None_iff image_image)
  finally show "abs_dir s' (fl @ [n]) = (abs_dir s fl)(name \<mapsto> n)" .
qed

lemma create_file_inv:
  assumes inv: "ufs_inv s fl bl" and name: "a_dir (abs_ufs s fl bl) name = None"
  defines "n \<equiv> next_addr s"
  defines "x \<equiv> \<lparr>block_list = Null, last_block = Null, refs = 0, f_name = name, f_next = Null, f_prev = Null,
      bytes_left = MAX_FILE_SIZE, in_list = True\<rparr>"
  shows "\<exists>s' fi. append_file (Ptr n) (s\<lparr>files := (files s)(n \<mapsto> x), next_addr := Suc n\<rparr>) = ret s'
    \<and> files s' n = Some fi
    \<and> inv_except n s' (fl @ [n]) (bl(n := []))
    \<and> abs_ufs s' (fl @ [n]) (bl(n := [])) = (abs_ufs s fl bl)\<lparr>
        a_dir := (a_dir (abs_ufs s fl bl))(name \<mapsto> n),
        a_files := (a_files (abs_ufs s fl bl))(n \<mapsto> \<lparr>a_data = [], a_left = max_size\<rparr>)\<rparr>"
proof -
  let ?s1 = "s\<lparr>files := (files s)(n \<mapsto> x), next_addr := Suc n\<rparr>" and ?bl = "bl(n := [])"
  have none: "files s n = None" "filedescs s n = None" "blocks s n = None"
    using inv_fresh [OF inv] by (auto simp: fresh_def n_def)
  note inv' = inv_no_blocks [OF inv none(1)]
  have dir: "dir_inv s fl" using inv by (simp add: ufs_inv_def)
  then have ch: "chain f_next f_prev (files s) Null (file_list s) fl Null" by (simp add: dir_inv_def)
  have alloc: "g \<in> set fl \<Longrightarrow> \<exists>y. files s g = Some y" for g using chain_alloc [OF ch] by blast
  have n_fl: "n \<notin> set fl" using alloc [of n] none(1) by force
  have ch1: "chain f_next f_prev (files ?s1) Null (file_list ?s1) fl Null" using ch n_fl by simp
  obtain h p q where
    ap: "append_file (Ptr n) ?s1 = ret (?s1\<lparr>files := h, file_list := p\<rparr>)"
    and ch': "chain f_next f_prev h Null p (fl @ [n]) Null" and hn: "h n = Some (x\<lparr>f_prev := q\<rparr>)"
    and core: "\<And>g. map_option file_core (h g) = map_option file_core (files ?s1 g)"
    using append_file_ok [OF ch1, of n x] n_fl by (auto simp: x_def)
  let ?s' = "?s1\<lparr>files := h, file_list := p\<rparr>"
  have core': "map_option file_core (h g) = map_option file_core (files s g)" if "g \<noteq> n" for g
    using core [of g] that by simp
  have st: "list_step s ?s' n" using core' hn by (auto simp: list_step_def)
  have name': "f_name (file_of ?s' g) = f_name (file_of s g)" if g: "g \<in> set fl" for g
  proof -
    obtain y where "files s g = Some y" using alloc [OF g] by blast
    moreover have "g \<noteq> n" using g n_fl by auto
    ultimately show ?thesis using core' [of g] by (cases "h g") (auto simp: file_core_eq)
  qed
  have name_n: "f_name (file_of ?s' n) = name" using hn by (simp add: x_def)
  have "abs_dir s fl name = None" using name by (simp add: abs_ufs_def)
  note dir' = dir_inv_snoc [OF dir _ name' name_n this]
  have ch2: "chain f_next f_prev (files ?s') Null (file_list ?s') (fl @ [n]) Null"
    using ch' by simp
  have nobody: "d \<in> ran (filedescs s) \<Longrightarrow> fd_file d \<noteq> Ptr n" for d
  proof
    assume "d \<in> ran (filedescs s)" "fd_file d = Ptr n"
    with inv obtain f where "f \<in> dom (files s)" "Ptr n = Ptr f" unfolding ufs_inv_def fd_inv_def by force
    with none show False by auto
  qed
  have wf: "file_wf ?s' (fl @ [n]) ?bl n"
  proof -
    have "users ?s' n = {}" using nobody by (auto simp: users_def ran_def)
    then show ?thesis
      using hn by (simp add: file_wf_def file_at_defs x_def MAX_FILE_SIZE_def max_size_def)
  qed
  have fr: "fresh ?s'"
    unfolding fresh_def
  proof (intro allI impI)
    fix a assume a: "next_addr ?s' \<le> a"
    then have "next_addr s \<le> a" "a \<noteq> n" by (auto simp: n_def)
    then show "blocks ?s' a = None \<and> files ?s' a = None \<and> filedescs ?s' a = None"
      using inv_fresh [OF inv] core' [of a] by (auto simp: fresh_def)
  qed
  have others: "g \<noteq> n \<Longrightarrow> g \<in> set (fl @ [n]) \<longleftrightarrow> g \<in> set fl" for g by auto
  have nobl: "?bl n = []" by simp
  note step = list_step_inv [OF inv_exceptI [OF conjunct1 [OF inv']] st dir'(1) [OF ch2] others wf fr nobl]
  have "abs_dir ?s' (fl @ [n]) = (abs_dir s fl)(name \<mapsto> n)" by (rule dir'(2) [OF ch2])
  moreover have "unat (bytes_left (file_of ?s' n)) = max_size"
    using hn by (simp add: x_def MAX_FILE_SIZE_def max_size_def)
  ultimately have "abs_ufs ?s' (fl @ [n]) ?bl = (abs_ufs s fl bl)\<lparr>
        a_dir := (a_dir (abs_ufs s fl bl))(name \<mapsto> n),
        a_files := (a_files (abs_ufs s fl bl))(n \<mapsto> \<lparr>a_data = [], a_left = max_size\<rparr>)\<rparr>"
    using step(2,3) inv' by (simp add: abs_ufs_def fun_upd_same del: fun_upd_apply)
  then show ?thesis
    using ap hn step(1) by (intro exI [of _ ?s'] exI [of _ "x\<lparr>f_prev := q\<rparr>"]) (simp del: fun_upd_apply)
qed

lemma ufs_open_refines:
  assumes ref: "refines s A" and zeroed: "a_fill A = Null"
  shows "\<exists>new s'. a_files A new = None
    \<and> ufs_open name flags s = ret (fst (spec_open name flags new A), s')
    \<and> refines s' (snd (spec_open name flags new A))"
proof -
  from ref obtain fl bl where inv: "ufs_inv s fl bl" and A: "A = abs_ufs s fl bl"
    by (auto simp: refines_def)
  have fill: "heap_fill s = Null" using zeroed A by (simp add: abs_ufs_def)
  let ?n = "next_addr s"
  have new: "a_files A ?n = None"
    using inv_fresh [OF inv] A by (simp add: fresh_def abs_ufs_def abs_files_def)
  note search = search_file_ok [OF inv, of name]
  show ?thesis
  proof (cases "a_dir A name")
    case None
    show ?thesis
    proof (cases "is_permitted flags UFS_CREATE")
      case False
      with None new show ?thesis
        using search A refines_fail [OF ref] by (auto simp: ufs_open_def spec_open_def)
    next
      case True
      obtain s1 fi where c: "append_file (Ptr ?n) (s\<lparr>files := (files s)(?n \<mapsto> \<lparr>block_list = Null, last_block = Null,
          refs = 0, f_name = name, f_next = Null, f_prev = Null, bytes_left = MAX_FILE_SIZE, in_list = True\<rparr>),
          next_addr := Suc ?n\<rparr>) = ret s1" "files s1 ?n = Some fi"
        "inv_except ?n s1 (fl @ [?n]) (bl(?n := []))"
        "abs_ufs s1 (fl @ [?n]) (bl(?n := [])) = A\<lparr>a_dir := (a_dir A)(name \<mapsto> ?n),
          a_files := (a_files A)(?n \<mapsto> \<lparr>a_data = [], a_left = max_size\<rparr>)\<rparr>"
        using create_file_inv [OF inv, of name] None A by auto
      have "heap_fill s1 = a_fill A" using arg_cong [OF c(4), of a_fill] by (simp add: abs_ufs_def)
      with zeroed have "heap_fill s1 = Null" by simp
      from open_fd_ok [OF c(3,2) this, of flags] obtain s' where
        "open_fd (Ptr ?n) flags s1 = ret (fst (spec_open name flags ?n A), s')"
        "ufs_inv s' (fl @ [?n]) (bl(?n := []))"
        "abs_ufs s' (fl @ [?n]) (bl(?n := [])) = snd (spec_open name flags ?n A)"
        using c(4) None True by (auto simp: spec_open_def)
      with c(1) None True new search A show ?thesis
        by (intro exI [of _ ?n] exI [of _ s']) (auto simp: ufs_open_def malloc_file_def intro: refinesI)
    qed
  next
    case (Some f)
    then obtain fi where "files s f = Some fi"
      using dir_file [OF inv] A by metis
    from open_fd_ok [OF inv_exceptI [OF inv] this fill, of flags] obtain s' where
      "open_fd (Ptr f) flags s = ret (fst (spec_open name flags ?n A), s')" "ufs_inv s' fl bl"
      "abs_ufs s' fl bl = snd (spec_open name flags ?n A)"
      using Some A by (auto simp: spec_open_def)
    with Some new search A show ?thesis
      by (intro exI [of _ ?n] exI [of _ s']) (auto simp: ufs_open_def intro: refinesI)
  qed
qed

end
