(* ===== verification/Ufs_Faults.thy ===== *)
theory Ufs_Faults
  imports Ufs_Io Ufs_Names
begin

text \<open>
  What is left of userfs.c: nothing is allocated once all names and descriptors are gone,
  \<open>ufs_destroy\<close>, and the calls that leave the specification (undefined behaviour and the
  endless loop of \<open>ufs_resize\<close>).
\<close>

section \<open>No leaks\<close>

lemma refines_empty:
  assumes ref: "refines s A" and none: "a_dir A = Map.empty" "a_fds A = Map.empty"
  shows "blocks s = Map.empty \<and> files s = Map.empty \<and> filedescs s = Map.empty"
proof -
  from ref obtain fl bl where inv: "ufs_inv s fl bl" and A: "A = abs_ufs s fl bl"
    by (auto simp: refines_def)
  have i: "dir_inv s fl" "fd_inv s" "heap_inv s bl" using inv by (auto simp: ufs_inv_def)
  have "ran (abs_dir s fl) = {}" "ran (abs_fds s) = {}" using none A by (auto simp: abs_ufs_def)
  then have "set fl = {}" "ran (filedescs s) = {}"
    using ran_abs_dir [OF i(1)] ran_abs_fds [OF i(2)] by auto
  moreover from this(2) have fds: "filedescs s = Map.empty" by (auto simp: ran_def fun_eq_iff) (metis option.exhaust)
  ultimately have "\<not> live s fl f" for f by (simp add: live_def users_def)
  then have files: "files s = Map.empty"
    using inv unfolding ufs_inv_def by (metis domI empty_iff not_None_eq ext)
  then have "dom (blocks s) = {}" using i(3) by (simp add: heap_inv_def)
  with fds files show ?thesis by simp
qed

lemma nothing_left:
  assumes ref: "refines s A" and none: "a_dir A = Map.empty" "a_fds A = Map.empty"
  shows "file_list s = Null \<and> fd_count s = 0"
proof -
  from ref obtain fl bl where inv: "ufs_inv s fl bl" and A: "A = abs_ufs s fl bl"
    by (auto simp: refines_def)
  have di: "dir_inv s fl" and fdi: "fd_inv s" using inv by (auto simp: ufs_inv_def)
  have "fl = []" using ran_abs_dir [OF di] none(1) A by (simp add: abs_ufs_def)
  then have "file_list s = Null" using di by (simp add: dir_inv_def)
  moreover have "filedescs s = Map.empty" using refines_empty [OF ref none] by blast
  then have "{a. Ptr a \<in> set (slots s)} = {}" "Junk \<notin> set (slots s)" using fdi by (auto simp: fd_inv_def fd_table_def)
  then have "p = Null" if "p \<in> set (slots s)" for p using that by (cases p) auto
  then have "filter (\<lambda>p. p \<noteq> Null) (slots s) = []" by (simp add: filter_empty_conv)
  then have "fd_count s = 0" using fdi by (simp add: fd_inv_def)
  ultimately show ?thesis by blast
qed

lemma counts_zero:
  assumes ref: "refines s A" and none: "file_list s = Null" "fd_count s = 0"
  shows "blocks s = Map.empty \<and> files s = Map.empty \<and> filedescs s = Map.empty"
proof -
  from ref obtain fl bl where inv: "ufs_inv s fl bl" and A: "A = abs_ufs s fl bl"
    by (auto simp: refines_def)
  have di: "dir_inv s fl" and fdi: "fd_inv s" using inv by (auto simp: ufs_inv_def)
  have "chain f_next f_prev (files s) Null Null fl Null" using di none(1) by (simp add: dir_inv_def)
  then have "fl = []" by (cases fl) auto
  then have "a_dir A = Map.empty" by (simp add: A abs_ufs_def abs_dir_def)
  moreover have "filter (\<lambda>p. p \<noteq> Null) (slots s) = []" using fdi none(2) by (simp add: fd_inv_def)
  then have null: "\<forall>p \<in> set (slots s). p = Null" by (simp add: filter_empty_conv)
  have "a_fds A k = None" for k
  proof (cases "k < length (slots s)")
    case True
    with null have "slots s ! k = Null" by simp
    then show ?thesis by (simp add: A abs_ufs_def abs_fds_def)
  qed (simp add: A abs_ufs_def abs_fds_def)
  then have "a_fds A = Map.empty" by auto
  ultimately show ?thesis by (rule refines_empty [OF ref])
qed

section \<open>Faults\<close>

lemma refines_some:
  assumes "refines s A" "afd_at A fd = Some d"
  obtains fl bl i a d0 f fi where "ufs_inv s fl bl" "A = abs_ufs s fl bl" "fd = int i"
    "filedescs s a = Some d0" "fd_file d0 = Ptr f" "files s f = Some fi" "d = abs_fd d0" "a_file d = f"
    "is_valid_fd s fd = ret True" "fd_read s fd = ret (Ptr a)"
  using assms fd_some unfolding refines_def by metis

lemma resize_zero_fails:
  assumes "refines s A" "a_fill A = Null" "afd_at A fd = Some d" "a_write d" "a_data (the (a_files A (a_file d))) \<noteq> []"
  shows "ufs_resize fd 0 s = fail UseAfterFree"
proof -
  from refines_some [OF assms(1,3)] obtain fl bl i a d0 f fi where inv: "ufs_inv s fl bl"
    and A: "A = abs_ufs s fl bl" and fd: "fd = int i" "filedescs s a = Some d0" "fd_file d0 = Ptr f"
      "files s f = Some fi" "d = abs_fd d0" "a_file d = f" "is_valid_fd s fd = ret True" "fd_read s fd = ret (Ptr a)"
    by metis
  have "bytes_of s (bl f) \<noteq> []" using assms(5) A fd by (simp add: a_files_abs)
  then obtain c cs where bl: "bl f = c # cs" by (cases "bl f") auto
  have fill: "heap_fill s = Null" using assms(2) A by (simp add: abs_ufs_def)
  have ch: "chain b_next b_prev (blocks s) Null (block_list fi) (c # cs) Null"
    using inv_file(1) [OF inv fd(4)] fd(4) bl fill by (simp add: file_at_defs)
  then obtain b where b: "blocks s c = Some b" "b_prev b = Null" "block_list fi = Ptr c" by auto
  show ?thesis
    using fd assms(4) b free_blocks_ok [OF ch]
    by (simp add: ufs_resize_def resize_loop.simps [of _ _ _ 0] recount.simps [of _ _ "Ptr c"])
qed

lemma resize_hangs:
  assumes "refines s A" "afd_at A fd = Some d" "a_write d" "unat sz \<le> max_size"
    "length (a_data (the (a_files A (a_file d)))) \<le> unat sz" "\<not> BLOCK_SIZE dvd unat sz"
  shows "ufs_resize fd sz s = None"
proof -
  from refines_some [OF assms(1,2)] obtain fl bl i a d0 f fi where inv: "ufs_inv s fl bl"
    and A: "A = abs_ufs s fl bl" and fd: "fd = int i" "filedescs s a = Some d0" "fd_file d0 = Ptr f"
      "files s f = Some fi" "d = abs_fd d0" "a_file d = f" "is_valid_fd s fd = ret True" "fd_read s fd = ret (Ptr a)"
    by metis
  have at: "file_at s f (bl f)" by (rule inv_file(1) [OF inv fd(4)])
  then have start: "block_list fi = head_ptr (bl f) Null"
    using fd(4) by (auto simp: file_at_defs dest: chain_head)
  have "resize_loop (Ptr f) s (block_list fi) (word_of_nat (unat sz)) = None"
    by (rule resize_loop_diverges [of s f "[]"])
      (use at inv_fresh [OF inv] start assms A fd in \<open>auto simp: a_files_abs max_size_def\<close>)
  moreover have "\<not> sz > MAX_FILE_SIZE"
    using assms(4) by (simp add: word_less_nat_alt MAX_FILE_SIZE_def max_size_def)
  ultimately show ?thesis
    using fd assms(3) by (simp add: ufs_resize_def)
qed

lemma write_zero_fails:
  assumes "refines s A" "afd_at A fd = Some d" "a_write d" "block_list (the (files s (a_file d))) = Null"
  shows "ufs_write fd buf 0 s = fail NullDeref"
proof -
  from refines_some [OF assms(1,2)] obtain a d0 f fi where 
    "filedescs s a = Some d0" "fd_file d0 = Ptr f" "files s f = Some fi" "d = abs_fd d0" "a_file d = f"
    "is_valid_fd s fd = ret True" "fd_read s fd = ret (Ptr a)"
    by metis
  then show ?thesis
    using assms(3,4)
    by (simp add: ufs_write_def Let_def write_loop.simps [of _ _ _ _ _ _ 0] last_block_from.simps [of _ Null])
qed

section \<open>Uninitialised descriptor slots\<close>

lemma is_permitted_create: "is_permitted UFS_CREATE UFS_CREATE"
  by (simp add: is_permitted_def)

lemma second_open_fails:
  "\<exists>s. ufs_open name UFS_CREATE (ufs_init Junk) = ret (0, s) \<and> ufs_open name' UFS_CREATE s = fail UninitRead"
proof -
  let ?n = 0 and ?f = "\<lparr>block_list = Null, last_block = Null, refs = 1, f_name = name,
    f_next = Null, f_prev = Null, bytes_left = MAX_FILE_SIZE, in_list = True\<rparr>"
  let ?d = "\<lparr>fd_file = Ptr 0, is_occupied = True, fd_offset = 0,
    can_read = open_can_read UFS_CREATE, can_write = open_can_write UFS_CREATE\<rparr>"
  let ?s = "\<lparr>error_code = UFS_ERR_NO_ERR, file_list = Ptr 0,
     file_descriptors = FdArray (Ptr 1 # replicate 9 Junk), fd_count = 1, fd_capacity = 10,
     blocks = Map.empty, files = [0 \<mapsto> ?f], filedescs = [1 \<mapsto> ?d], next_addr = 2, heap_fill = Junk\<rparr>"
  have slots: "(replicate 10 Junk)[0 := Ptr 1] = Ptr 1 # replicate 9 Junk"
    by (simp add: eval_nat_numeral)
  have first: "ufs_open name UFS_CREATE (ufs_init Junk) = ret (0, ?s)"
    by (simp add: ufs_open_def ufs_init_def search_file_def search_from.simps [of _ _ Null] is_permitted_create
        malloc_file_def append_file_def open_fd_def upd_file_def get_fd_def malloc_filedesc_def fd_write_def slots
        eval_nat_numeral)
  have fd: "find_free_fd s [0..9] = fail UninitRead"
    if "file_descriptors s = FdArray (Ptr 1 # replicate 9 Junk)" for s
  proof -
    have "[0..9] = 0 # 1 # [2..9]" by (simp add: upto_rec1)
    then show ?thesis using that by (simp add: fd_read_def)
  qed
  have "ufs_open name' UFS_CREATE ?s = fail UninitRead"
    by (cases "name = name'")
      (simp_all add: ufs_open_def search_file_def search_from.simps [of _ _ "Ptr 0"] search_from.simps [of _ _ Null]
        is_permitted_create malloc_file_def append_file_def last_file_from.simps [of _ "Ptr 0"] open_fd_def
        upd_file_def get_fd_def fd)
  with first show ?thesis by blast
qed

section \<open>Destroying\<close>

text \<open>One step of the descriptor loop of \<open>ufs_destroy\<close>, on a file without a name that has one descriptor.\<close>

abbreviation counted :: "ufs \<Rightarrow> ufs" where
  "counted s \<equiv> s\<lparr>fd_count := int (length (filter (\<lambda>p. p \<noteq> Null) (slots s)))\<rparr>"

definition one_fd_per_file :: "ufs \<Rightarrow> bool" where
  "one_fd_per_file s \<longleftrightarrow> (\<forall>a b d e. filedescs s a = Some d \<longrightarrow> filedescs s b = Some e \<longrightarrow>
     fd_file d = fd_file e \<longrightarrow> a = b)"

lemma destroy_fd_step:
  assumes inv: "ufs_inv (counted s) [] bl" and one: "one_fd_per_file s"
    and i: "i < length (slots s)" "slots s ! i = Ptr a"
  shows "\<exists>s'. destroy_fds s (int i # is) = destroy_fds s' is \<and> (\<exists>bl'. ufs_inv (counted s') [] bl')
    \<and> one_fd_per_file s' \<and> slots s' = (slots s)[i := Null] \<and> file_list s' = file_list s"
proof -
  have sl: "slots (counted s) = slots s" by (simp add: slots_def)
  have "a_fds (abs_ufs (counted s) [] bl) i \<noteq> None"
  proof -
    have "Ptr a \<in> set (slots s)" using i by (metis nth_mem)
    with inv have "a \<in> dom (filedescs (counted s))" by (simp add: ufs_inv_def fd_inv_def fd_table_def sl)
    then show ?thesis using i by (auto simp: abs_ufs_def abs_fds_def sl)
  qed
  then obtain d' where "afd_at (abs_ufs (counted s) [] bl) (int i) = Some d'" by (auto simp: afd_at_def)
  from fd_some [OF inv this] obtain i' a' d f fi where "int i = int i'" "slots (counted s) ! i' = Ptr a'"
    "filedescs (counted s) a' = Some d" "fd_file d = Ptr f" "files (counted s) f = Some fi"
    "file_descriptors (counted s) = FdArray (slots (counted s))"
    by metis
  then have d: "filedescs s a = Some d" "fd_file d = Ptr f" "files s f = Some fi"
    "file_descriptors s = FdArray (slots s)"
    using i by (auto simp: sl)
  let ?c = "counted s"
  let ?t = "detached ?c i a f fi"
  have i': "i < length (slots ?c)" "slots ?c ! i = Ptr a" and d': "filedescs ?c a = Some d" "files ?c f = Some fi"
    using i d sl by simp_all
  have det: "inv_except f ?t [] bl" by (rule detach_ok(1) [OF inv i' d'(1) d(2) d'(2)])
  have dead: "\<not> live ?t [] f"
    using one d by (auto simp: live_def users_def detached_def one_fd_per_file_def split: if_splits)
  have ft: "files ?t f = Some (fi\<lparr>refs := refs fi - 1\<rparr>)" by (simp add: detached_def)
  have inv': "ufs_inv (freed ?t f (bl f)) [] bl" by (rule freed_inv(1) [OF det ft dead])
  let ?s' = "s\<lparr>blocks := drop_addrs (bl f) (blocks s), files := (files s)(f := None),
     filedescs := (filedescs s)(a := None), file_descriptors := FdArray ((slots s)[i := Null])\<rparr>"
  have "file_at ?c f (bl f)" by (rule inv_file(1) [OF inv d'(2)])
  then have "file_at s f (bl f)" using d(3) by (subst file_at_links [of _ _ _ ?c]) simp_all
  note free = free_whole_file [OF this]
  have "in_list fi = False" using inv_file(2) [OF inv d'(2)] by simp
  then have "destroy_fds s (int i # is) = bindR (bindR (free_file_memory (Ptr f) s) (free_file (Ptr f))) (\<lambda>s.
      bindR (free_filedesc (Ptr a) s) (\<lambda>s. bindR (fd_write s (int i) Null) (\<lambda>s. destroy_fds s is)))"
    using i d by (simp add: fd_read_def bindR_assoc)
  then have "destroy_fds s (int i # is) = destroy_fds ?s' is"
    unfolding free using i d by (simp add: free_filedesc_def fd_write_def)
  moreover have "counted ?s' = freed ?t f (bl f)"
    using inv' by (simp add: ufs_inv_def fd_inv_def freed_def detached_def slots_def)
  with inv' have "ufs_inv (counted ?s') [] bl" by simp
  moreover have "one_fd_per_file ?s'" using one by (auto simp: one_fd_per_file_def)
  ultimately show ?thesis
    by (intro exI [of _ ?s']) (auto simp: slots_def)
qed

lemma destroy_fds_ok:
  "ufs_inv (counted s) [] bl \<Longrightarrow> one_fd_per_file s \<Longrightarrow> \<forall>k \<in> set ks. k < length (slots s) \<Longrightarrow>
    \<exists>s' bl'. destroy_fds s (map int ks) = ret s' \<and> ufs_inv (counted s') [] bl' \<and> length (slots s') = length (slots s)
      \<and> file_list s' = file_list s \<and> (\<forall>i < length (slots s). slots s' ! i = (if i \<in> set ks then Null else slots s ! i))"
proof (induction ks arbitrary: s bl)
  case Nil
  then show ?case by auto
next
  case (Cons k ks)
  have k: "k < length (slots s)" using Cons.prems by simp
  have sl: "slots (counted s) = slots s" by (simp add: slots_def)
  show ?case
  proof (cases "slots s ! k")
    case Null
    have arr: "file_descriptors s = FdArray (slots s)"
      using k by (cases "file_descriptors s") (auto simp: slots_def)
    have "destroy_fds s (map int (k # ks)) = destroy_fds s (map int ks)"
      using k arr Null by (simp add: fd_read_def)
    with Cons.IH [OF Cons.prems(1,2)] Cons.prems(3) Null show ?thesis by auto
  next
    case (Ptr a)
    from destroy_fd_step [OF Cons.prems(1,2) k Ptr] obtain s' bl' where
      s': "destroy_fds s (int k # map int ks) = destroy_fds s' (map int ks)" "ufs_inv (counted s') [] bl'"
        "one_fd_per_file s'" "slots s' = (slots s)[k := Null]" "file_list s' = file_list s"
      by blast
    with Cons.prems(3) have "\<forall>k \<in> set ks. k < length (slots s')" by simp
    from Cons.IH [OF s'(2,3) this] s' k show ?thesis
      by (auto simp: nth_list_update)
  next
    case Junk
    with k have "Junk \<in> set (slots s)" by (metis nth_mem)
    with Cons.prems(1) show ?thesis by (simp add: ufs_inv_def fd_inv_def fd_table_def sl)
  qed
qed

lemma refines_one_fd:
  assumes inv: "ufs_inv s fl bl" and A: "A = abs_ufs s fl bl"
    and one: "\<And>i j d e. a_fds A i = Some d \<Longrightarrow> a_fds A j = Some e \<Longrightarrow> a_file d = a_file e \<Longrightarrow> i = j"
  shows "one_fd_per_file s"
  unfolding one_fd_per_file_def
proof (intro allI impI)
  fix a b d e
  assume d: "filedescs s a = Some d" and e: "filedescs s b = Some e" and same: "fd_file d = fd_file e"
  have "fd_inv s" using inv by (simp add: ufs_inv_def)
  then have dom: "dom (filedescs s) = {a. Ptr a \<in> set (slots s)}" by (simp add: fd_inv_def fd_table_def)
  from d dom obtain i where i: "i < length (slots s)" "slots s ! i = Ptr a" by (auto simp: in_set_conv_nth)
  from e dom obtain j where j: "j < length (slots s)" "slots s ! j = Ptr b" by (auto simp: in_set_conv_nth)
  have "a_fds A i = Some (abs_fd d)" "a_fds A j = Some (abs_fd e)"
    using i j d e A by (auto simp: abs_ufs_def abs_fds_def)
  from one [OF this] same have "i = j" by (simp add: abs_fd_def)
  with i j show "a = b" by simp
qed

lemma destroy_ok:
  assumes ref: "refines s A" and dir: "a_dir A = Map.empty"
    and one: "\<And>i j d e. a_fds A i = Some d \<Longrightarrow> a_fds A j = Some e \<Longrightarrow> a_file d = a_file e \<Longrightarrow> i = j"
  shows "\<exists>s'. ufs_destroy s = ret s' \<and> blocks s' = Map.empty \<and> files s' = Map.empty
    \<and> filedescs s' = Map.empty \<and> (\<forall>xs. file_descriptors s' \<noteq> FdArray xs)"
proof -
  from ref obtain fl bl where inv: "ufs_inv s fl bl" and A: "A = abs_ufs s fl bl"
    by (auto simp: refines_def)
  have fdi: "fd_inv s" and di: "dir_inv s fl" using inv by (auto simp: ufs_inv_def)
  have fl: "fl = []" using ran_abs_dir [OF di] dir A by (simp add: abs_ufs_def)
  then have list: "file_list s = Null" using di by (simp add: dir_inv_def)
  have "counted s = s" using fdi by (simp add: fd_inv_def)
  with inv fl have inv0: "ufs_inv (counted s) [] bl" by simp
  have cap: "fd_capacity s = int (length (slots s))" using fdi by (simp add: fd_inv_def)
  have single: "one_fd_per_file s" by (rule refines_one_fd [OF inv A one])
  obtain s' bl' where s': "destroy_fds s (map int [0..<length (slots s)]) = ret s'" "ufs_inv (counted s') [] bl'"
    "length (slots s') = length (slots s)" "file_list s' = Null"
    "\<forall>i < length (slots s). slots s' ! i = Null"
    using destroy_fds_ok [OF inv0 single, of "[0..<length (slots s)]"] list
    by (auto simp: atLeast0LessThan)
  have sl: "slots (counted s') = slots s'" by (simp add: slots_def)
  have "refines (counted s') (abs_ufs (counted s') [] bl')" by (rule refinesI [OF s'(2) refl])
  from refines_empty [OF this] s'(3,5) sl have "blocks s' = Map.empty \<and> files s' = Map.empty \<and> filedescs s' = Map.empty"
    by (auto simp: abs_ufs_def abs_dir_def abs_fds_def fun_eq_iff)
  moreover have "file_descriptors s' \<noteq> FdFreed" using s'(2) by (simp add: ufs_inv_def fd_inv_def)
  ultimately show ?thesis
    using s'(1,4) list
    by (cases "file_descriptors s'")
      (auto simp: ufs_destroy_def destroy_files.simps [of _ Null] cap upto_map_int free_file_def)
qed

text \<open>
  Two descriptors on one file without a name: the loop frees the file with the first of them and reads it
  again with the second.
\<close>

definition slot_file :: "ufs \<Rightarrow> nat \<Rightarrow> nat option" where
  "slot_file s k = (case slots s ! k of Ptr a \<Rightarrow> map_option (\<lambda>d. addr (fd_file d)) (filedescs s a) | _ \<Rightarrow> None)"

definition nameless :: "ufs \<Rightarrow> (nat \<Rightarrow> nat list) \<Rightarrow> bool" where
  "nameless s bl \<longleftrightarrow> (\<forall>f fi. files s f = Some fi \<longrightarrow> file_at s f (bl f) \<and> \<not> in_list fi)
     \<and> (\<forall>f g. f \<in> dom (files s) \<longrightarrow> g \<in> dom (files s) \<longrightarrow> f \<noteq> g \<longrightarrow> set (bl f) \<inter> set (bl g) = {})"

definition good_slots :: "ufs \<Rightarrow> nat set \<Rightarrow> bool" where
  "good_slots s K \<longleftrightarrow> (\<forall>k \<in> K. k < length (slots s) \<and> (slots s ! k = Null
        \<or> (\<exists>a d f. slots s ! k = Ptr a \<and> filedescs s a = Some d \<and> fd_file d = Ptr f)))
     \<and> (\<forall>i \<in> K. \<forall>j \<in> K. slots s ! i = slots s ! j \<longrightarrow> slots s ! i \<noteq> Null \<longrightarrow> i = j)"

definition reused_file :: "ufs \<Rightarrow> nat set \<Rightarrow> bool" where
  "reused_file s K \<longleftrightarrow> (\<exists>i \<in> K. \<exists>f. slot_file s i = Some f \<and> f \<notin> dom (files s))
     \<or> (\<exists>i \<in> K. \<exists>j \<in> K. i \<noteq> j \<and> slot_file s i \<noteq> None \<and> slot_file s i = slot_file s j)"

lemma reused_skip: "reused_file s (insert k K) \<Longrightarrow> slot_file s k = None \<Longrightarrow> reused_file s K"
  unfolding reused_file_def by (metis insert_iff option.distinct(1))

lemma reused_after:
  assumes r: "reused_file s (insert k K)" and k: "slot_file s k = Some f" "f \<in> dom (files s)"
    and same: "\<And>j. j \<in> K \<Longrightarrow> slot_file s' j = slot_file s j" and gone: "dom (files s') = dom (files s) - {f}"
  shows "reused_file s' K"
  using r unfolding reused_file_def [of s]
proof (elim disjE bexE exE conjE)
  fix i g assume i: "i \<in> insert k K" "slot_file s i = Some g" "g \<notin> dom (files s)"
  with k have "i \<in> K" by auto
  with i same gone show ?thesis unfolding reused_file_def by (intro disjI1 bexI [of _ i] exI [of _ g]) auto
next
  fix i j assume ij: "i \<in> insert k K" "j \<in> insert k K" "i \<noteq> j" "slot_file s i \<noteq> None" "slot_file s i = slot_file s j"
  consider "i = k" "j \<in> K" | "j = k" "i \<in> K" | "i \<in> K" "j \<in> K" using ij by blast
  then show ?thesis
  proof cases
    case 1
    with ij k same gone show ?thesis unfolding reused_file_def by (intro disjI1 bexI [of _ j] exI [of _ f]) auto
  next
    case 2
    with ij k same gone show ?thesis unfolding reused_file_def by (intro disjI1 bexI [of _ i] exI [of _ f]) auto
  next
    case 3
    with ij same show ?thesis unfolding reused_file_def by (intro disjI2 bexI [of _ i] bexI [of _ j]) auto
  qed
qed

lemma destroy_reused_step:
  assumes n: "nameless s bl" and g: "good_slots s (insert k K)" "k \<notin> K" and r: "reused_file s (insert k K)"
    and k: "slots s ! k = Ptr a" "filedescs s a = Some d" "fd_file d = Ptr f" "files s f = Some fi"
  shows "\<exists>s'. destroy_fds s (int k # is) = destroy_fds s' is \<and> nameless s' bl \<and> good_slots s' K \<and> reused_file s' K"
proof -
  let ?s' = "s\<lparr>blocks := drop_addrs (bl f) (blocks s), files := (files s)(f := None),
     filedescs := (filedescs s)(a := None), file_descriptors := FdArray ((slots s)[k := Null])\<rparr>"
  have at: "file_at s f (bl f)" and out: "in_list fi = False" using n k(4) by (auto simp: nameless_def)
  have len: "k < length (slots s)" using g(1) by (simp add: good_slots_def)
  then have arr: "file_descriptors s = FdArray (slots s)" by (cases "file_descriptors s") (auto simp: slots_def)
  have sl: "slots ?s' = (slots s)[k := Null]" by (simp add: slots_def)
  note free = free_whole_file [OF at]
  have "destroy_fds s (int k # is) = bindR (bindR (free_file_memory (Ptr f) s) (free_file (Ptr f))) (\<lambda>s.
      bindR (free_filedesc (Ptr a) s) (\<lambda>s. bindR (fd_write s (int k) Null) (\<lambda>s. destroy_fds s is)))"
    using len arr k out by (simp add: fd_read_def bindR_assoc)
  then have run: "destroy_fds s (int k # is) = destroy_fds ?s' is"
    unfolding free using len arr k by (simp add: free_filedesc_def fd_write_def)
  have other: "slots s ! j \<noteq> Ptr a" if "j \<in> K" for j
    using g that k(1) unfolding good_slots_def by (metis insertI1 insertI2 ptr.distinct(1))
  have ne: "j \<noteq> k" if "j \<in> K" for j using that g(2) by blast
  have "nameless ?s' bl"
    unfolding nameless_def
  proof (intro conjI allI impI)
    fix h hi assume h: "files ?s' h = Some hi"
    then have h': "files s h = Some hi" "h \<noteq> f" by (auto split: if_splits)
    then have "set (bl h) \<inter> set (bl f) = {}" using n k(4) unfolding nameless_def by blast
    then have "file_at ?s' h (bl h) \<longleftrightarrow> file_at s h (bl h)"
      by (intro file_at_cong) (use h' in auto)
    with n h' show "file_at ?s' h (bl h)" "\<not> in_list hi" by (auto simp: nameless_def)
  next
    fix h h' assume "h \<in> dom (files ?s')" "h' \<in> dom (files ?s')" "h \<noteq> h'"
    then show "set (bl h) \<inter> set (bl h') = {}" using n by (simp add: nameless_def)
  qed
  moreover have "good_slots ?s' K"
  proof -
    have same: "slots ?s' ! j = slots s ! j" if "j \<in> K" for j using ne [OF that] by (simp add: sl)
    have kept: "filedescs ?s' b = filedescs s b" if "slots s ! j = Ptr b" "j \<in> K" for b j
      using other [OF that(2)] that(1) by auto
    show ?thesis
      unfolding good_slots_def
    proof (intro conjI ballI impI)
      fix i j assume "i \<in> K" "j \<in> K" "slots ?s' ! i = slots ?s' ! j" "slots ?s' ! i \<noteq> Null"
      then show "i = j" using g(1) same unfolding good_slots_def by (metis insertI2)
    next
      fix j assume j: "j \<in> K"
      then show "j < length (slots ?s')" using g(1) by (simp add: good_slots_def sl)
      from j g(1) have "slots s ! j = Null \<or> (\<exists>a d f. slots s ! j = Ptr a \<and> filedescs s a = Some d \<and> fd_file d = Ptr f)"
        unfolding good_slots_def by blast
      then show "slots ?s' ! j = Null \<or> (\<exists>a d f. slots ?s' ! j = Ptr a \<and> filedescs ?s' a = Some d \<and> fd_file d = Ptr f)"
        unfolding same [OF j] using kept [OF _ j] by metis
    qed
  qed
  moreover have tgt: "slot_file ?s' j = slot_file s j" if "j \<in> K" for j
    using other [OF that] ne [OF that] by (auto simp: slot_file_def sl split: ptr.splits)
  have kf: "slot_file s k = Some f" using k by (simp add: slot_file_def)
  have "reused_file ?s' K" by (rule reused_after [OF r kf _ tgt]) (use k(4) in auto)
  ultimately show ?thesis using run by blast
qed

lemma destroy_reused:
  "nameless s bl \<Longrightarrow> good_slots s (set ks) \<Longrightarrow> distinct ks \<Longrightarrow> reused_file s (set ks) \<Longrightarrow>
    destroy_fds s (map int ks) = fail UseAfterFree"
proof (induction ks arbitrary: s)
  case Nil
  then show ?case by (simp add: reused_file_def)
next
  case (Cons k ks)
  have len: "k < length (slots s)" using Cons.prems(2) by (simp add: good_slots_def)
  then have arr: "file_descriptors s = FdArray (slots s)" by (cases "file_descriptors s") (auto simp: slots_def)
  show ?case
  proof (cases "slots s ! k = Null")
    case True
    have "good_slots s (set ks)" using Cons.prems(2) by (auto simp: good_slots_def)
    moreover have "slot_file s k = None" using True by (simp add: slot_file_def)
    then have "reused_file s (set ks)" using Cons.prems(4) reused_skip by simp
    ultimately have "destroy_fds s (map int ks) = fail UseAfterFree" using Cons.IH Cons.prems by simp
    then show ?thesis using True len arr by (simp add: fd_read_def)
  next
    case False
    with Cons.prems(2) obtain a d f where k: "slots s ! k = Ptr a" "filedescs s a = Some d" "fd_file d = Ptr f"
      by (auto simp: good_slots_def)
    show ?thesis
    proof (cases "files s f")
      case None
      then show ?thesis using k len arr by (simp add: fd_read_def)
    next
      case (Some fi)
      have "good_slots s (insert k (set ks))" "k \<notin> set ks" "reused_file s (insert k (set ks))"
        using Cons.prems by simp_all
      from destroy_reused_step [OF Cons.prems(1) this k Some, of "map int ks"] Cons.IH Cons.prems(3)
      show ?thesis by auto
    qed
  qed
qed

lemma destroy_shared_file:
  assumes ref: "refines s A" and dir: "a_dir A = Map.empty"
    and two: "a_fds A i = Some d" "a_fds A j = Some e" "i \<noteq> j" "a_file d = a_file e"
  shows "ufs_destroy s = fail UseAfterFree"
proof -
  from ref obtain fl bl where inv: "ufs_inv s fl bl" and A: "A = abs_ufs s fl bl"
    by (auto simp: refines_def)
  have fdi: "fd_inv s" and di: "dir_inv s fl" using inv by (auto simp: ufs_inv_def)
  have fl: "fl = []" using ran_abs_dir [OF di] dir A by (simp add: abs_ufs_def)
  then have list: "file_list s = Null" using di by (simp add: dir_inv_def)
  have nm: "nameless s bl"
    unfolding nameless_def using inv_file [OF inv] inv_disjoint [OF inv] fl by fastforce
  have tab: "fd_table (slots s) (dom (filedescs s))" using fdi by (simp add: fd_inv_def)
  have slot: "slots s ! k = Null \<or> (\<exists>a d f. slots s ! k = Ptr a \<and> filedescs s a = Some d \<and> fd_file d = Ptr f)"
    if k: "k < length (slots s)" for k
  proof (cases "slots s ! k")
    case (Ptr a)
    then have "Ptr a \<in> set (slots s)" using k by (metis nth_mem)
    with tab have "a \<in> dom (filedescs s)" by (simp add: fd_table_def)
    then obtain d where d: "filedescs s a = Some d" by blast
    then have "d \<in> ran (filedescs s)" by (auto simp: ran_def)
    with fdi d Ptr show ?thesis by (auto simp: fd_inv_def)
  next
    case Junk
    with k have "Junk \<in> set (slots s)" by (metis nth_mem)
    with tab show ?thesis by (simp add: fd_table_def)
  qed simp
  have "good_slots s {..<length (slots s)}"
    unfolding good_slots_def
  proof (intro conjI ballI impI)
    fix i j assume ij: "i \<in> {..<length (slots s)}" "j \<in> {..<length (slots s)}" "slots s ! i = slots s ! j" "slots s ! i \<noteq> Null"
    with slot [of i] obtain a where "slots s ! i = Ptr a" by auto
    with tab ij show "i = j" unfolding fd_table_def by (metis lessThan_iff)
  qed (use slot in auto)
  moreover have "reused_file s {..<length (slots s)}"
  proof -
    have fds: "k < length (slots s) \<and> slot_file s k = Some (a_file x)" if "a_fds A k = Some x" for k x
      using that by (auto simp: A abs_ufs_def abs_fds_def slot_file_def abs_fd_def split: if_splits ptr.splits)
    from fds [OF two(1)] fds [OF two(2)] two(3,4) show ?thesis unfolding reused_file_def by (metis lessThan_iff option.discI)
  qed
  ultimately have "destroy_fds s (map int [0..<length (slots s)]) = fail UseAfterFree"
    using destroy_reused [OF nm, of "[0..<length (slots s)]"] by (simp add: atLeast0LessThan)
  moreover have "fd_capacity s = int (length (slots s))" using fdi by (simp add: fd_inv_def)
  ultimately show ?thesis using list by (simp add: ufs_destroy_def destroy_files.simps [of _ Null] upto_map_int)
qed

text \<open>
  When the file list is not empty, its head is freed twice: once by the loop over the list
  and once more at the end.
\<close>

lemma destroy_files_ok:
  assumes "chain f_next f_prev (files s) bk p fl Null" "\<forall>f \<in> set fl. file_at s f (bl f)"
    "\<forall>f \<in> set fl. \<forall>g \<in> set fl. f \<noteq> g \<longrightarrow> set (bl f) \<inter> set (bl g) = {}"
  shows "\<exists>s'. destroy_files s p = ret s' \<and> (\<forall>f \<in> set fl. files s' f = None) \<and> file_list s' = file_list s
    \<and> file_descriptors s' = file_descriptors s \<and> fd_capacity s' = fd_capacity s
    \<and> (\<forall>f. files s f = None \<longrightarrow> files s' f = None)"
  using assms
proof (induction fl arbitrary: s bk p)
  case Nil
  then show ?case by (subst destroy_files.simps) simp
next
  case (Cons f fl)
  from Cons.prems(1) obtain fi where p: "p = Ptr f" and fi: "files s f = Some fi"
    and ch: "chain f_next f_prev (files s) (Ptr f) (f_next fi) fl Null" by auto
  have nf: "f \<notin> set fl" using Cons.prems(1) by (rule chain_hd_notin_tl)
  let ?s = "s\<lparr>blocks := drop_addrs (bl f) (blocks s), files := (files s)(f := None)\<rparr>"
  have free: "bindR (free_file_memory (Ptr f) s) (free_file (Ptr f)) = ret ?s"
    using Cons.prems(2) by (intro free_whole_file) simp
  have "destroy_files s p = bindR (bindR (free_file_memory (Ptr f) s) (free_file (Ptr f))) (\<lambda>s. destroy_files s (f_next fi))"
    unfolding p using fi by (subst destroy_files.simps) (simp add: bindR_assoc)
  then have run: "destroy_files s p = destroy_files ?s (f_next fi)" unfolding free by simp
  have "chain f_next f_prev (files ?s) (Ptr f) (f_next fi) fl Null" using ch nf by simp
  moreover have "file_at ?s g (bl g)" if g: "g \<in> set fl" for g
  proof -
    have "file_at ?s g (bl g) \<longleftrightarrow> file_at s g (bl g)"
      by (rule file_at_cong) (use g nf Cons.prems(3) in auto)
    with g Cons.prems(2) show ?thesis by simp
  qed
  moreover have "\<forall>f \<in> set fl. \<forall>g \<in> set fl. f \<noteq> g \<longrightarrow> set (bl f) \<inter> set (bl g) = {}"
    using Cons.prems(3) by simp
  ultimately obtain s' where "destroy_files ?s (f_next fi) = ret s'" "\<forall>f \<in> set fl. files s' f = None"
    "file_list s' = file_list ?s" "file_descriptors s' = file_descriptors ?s" "fd_capacity s' = fd_capacity ?s"
    "\<forall>f. files ?s f = None \<longrightarrow> files s' f = None"
    using Cons.IH [of ?s "Ptr f" "f_next fi"] by blast
  with run show ?case by auto
qed

lemma destroy_double_free:
  assumes ref: "refines s A" and dir: "a_dir A \<noteq> Map.empty" and fds: "a_fds A = Map.empty"
  shows "ufs_destroy s = fail DoubleFree"
proof -
  from ref obtain fl bl where inv: "ufs_inv s fl bl" and A: "A = abs_ufs s fl bl"
    by (auto simp: refines_def)
  have di: "dir_inv s fl" and fdi: "fd_inv s" using inv by (auto simp: ufs_inv_def)
  have fl: "fl \<noteq> []" using dir A by (auto simp: abs_ufs_def abs_dir_def)
  have ch: "chain f_next f_prev (files s) Null (file_list s) fl Null" using di by (simp add: dir_inv_def)
  have alloc: "\<exists>x. files s f = Some x" if f: "f \<in> set fl" for f using chain_alloc [OF ch f] by blast
  have "\<forall>f \<in> set fl. file_at s f (bl f)" using alloc inv_file(1) [OF inv] by blast
  moreover have "\<forall>f \<in> set fl. \<forall>g \<in> set fl. f \<noteq> g \<longrightarrow> set (bl f) \<inter> set (bl g) = {}"
    using alloc inv_disjoint [OF inv] by blast
  ultimately obtain s' where s': "destroy_files s (file_list s) = ret s'" "\<forall>f \<in> set fl. files s' f = None"
    "file_list s' = file_list s" "file_descriptors s' = file_descriptors s" "fd_capacity s' = fd_capacity s"
    using destroy_files_ok [OF ch] by blast
  obtain f where f: "file_list s = Ptr f" "f \<in> set fl" using ch fl by (cases fl) auto
  have null: "slots s ! i = Null" if i: "i < length (slots s)" for i
  proof (cases "slots s ! i")
    case (Ptr a)
    then have "Ptr a \<in> set (slots s)" using i by (metis nth_mem)
    with fdi have "a \<in> dom (filedescs s)" by (simp add: fd_inv_def fd_table_def)
    then obtain d where "filedescs s a = Some d" by blast
    with Ptr i have "a_fds A i = Some (abs_fd d)" by (simp add: A abs_ufs_def abs_fds_def)
    with fds show ?thesis by simp
  next
    case Junk
    with i have "Junk \<in> set (slots s)" by (metis nth_mem)
    with fdi show ?thesis by (simp add: fd_inv_def fd_table_def)
  qed
  have skip: "\<forall>k \<in> set ks. k < length (slots s) \<Longrightarrow> destroy_fds s' (map int ks) = ret s'" for ks
  proof (induction ks)
    case (Cons k ks)
    then have "k < length (slots s)" by simp
    then have "fd_read s' (int k) = ret Null"
      using null s'(4) by (cases "file_descriptors s") (auto simp: slots_def fd_read_def)
    with Cons show ?case by simp
  qed simp
  have "fd_capacity s = int (length (slots s))" using fdi by (simp add: fd_inv_def)
  then have "destroy_fds s' [0..fd_capacity s' - 1] = ret s'"
    unfolding s'(5) by (simp only: upto_map_int) (rule skip, simp)
  then show ?thesis
    using s' f by (simp add: ufs_destroy_def free_file_def)
qed

lemma write_nothing:
  "\<exists>s. ufs_open name UFS_CREATE (ufs_init Null) = ret (0, s) \<and> ufs_write 0 buf 0 s = fail NullDeref"
proof -
  let ?n = 0 and ?f = "\<lparr>block_list = Null, last_block = Null, refs = 1, f_name = name,
    f_next = Null, f_prev = Null, bytes_left = MAX_FILE_SIZE, in_list = True\<rparr>"
  let ?d = "\<lparr>fd_file = Ptr 0, is_occupied = True, fd_offset = 0,
    can_read = open_can_read UFS_CREATE, can_write = open_can_write UFS_CREATE\<rparr>"
  let ?s = "\<lparr>error_code = UFS_ERR_NO_ERR, file_list = Ptr 0,
     file_descriptors = FdArray (Ptr 1 # replicate 9 Null), fd_count = 1, fd_capacity = 10,
     blocks = Map.empty, files = [0 \<mapsto> ?f], filedescs = [1 \<mapsto> ?d], next_addr = 2, heap_fill = Null\<rparr>"
  have slots: "(replicate 10 Null)[0 := x] = x # replicate 9 Null" for x
    using replicate_Suc [of 9 Null] by simp
  have first: "ufs_open name UFS_CREATE (ufs_init Null) = ret (0, ?s)"
    by (simp add: ufs_open_def ufs_init_def search_file_def search_from.simps [of _ _ Null] is_permitted_create
        malloc_file_def append_file_def open_fd_def upd_file_def get_fd_def malloc_filedesc_def fd_write_def slots)
  have "ufs_write 0 buf 0 ?s = fail NullDeref"
    by (simp add: ufs_write_def is_valid_fd_def fd_read_def Let_def write_loop.simps [of _ _ _ _ _ _ 0] last_block_from.simps [of _ Null]
        open_can_write_def is_permitted_def)
  with first show ?thesis by blast
qed

end
