(* ===== verification/Ufs_Client.thy ===== *)
theory Ufs_Client
  imports Ufs_Faults
begin

text \<open>
  The interface of the file system for its callers. The locale states what the functions do
  to the abstract file system; the consequences a caller relies on are proved from that
  alone, and the interpretation discharges the laws for the functions of userfs.c. Then sequences
  of calls, and the results and errors that a call may return.
\<close>

lemma reclaim_fill: "a_fill (reclaim f A) = a_fill A"
  by (simp add: reclaim_def)

locale file_system =
  fixes repr :: "'s \<Rightarrow> afs \<Rightarrow> bool"
    and opn :: "string \<Rightarrow> flags \<Rightarrow> 's \<Rightarrow> (int \<times> 's) res"
    and wrt :: "int \<Rightarrow> byte list \<Rightarrow> size_t \<Rightarrow> 's \<Rightarrow> (int \<times> 's) res"
    and rd :: "int \<Rightarrow> size_t \<Rightarrow> 's \<Rightarrow> (int \<times> byte option list \<times> 's) res"
    and cls :: "int \<Rightarrow> 's \<Rightarrow> (int \<times> 's) res"
    and del :: "string \<Rightarrow> 's \<Rightarrow> (int \<times> 's) res"
  assumes opens: "repr s A \<Longrightarrow> a_fill A = Null \<Longrightarrow> \<exists>new s'. a_files A new = None
      \<and> opn name flags s = ret (fst (spec_open name flags new A), s') \<and> repr s' (snd (spec_open name flags new A))"
    and writes_to: "repr s A \<Longrightarrow> sz \<noteq> 0 \<Longrightarrow> unat sz \<le> length buf \<Longrightarrow>
      \<exists>s'. wrt fd buf sz s = ret (fst (spec_write fd (take (unat sz) buf) A), s')
        \<and> repr s' (snd (spec_write fd (take (unat sz) buf) A))"
    and reads: "repr s A \<Longrightarrow> unat sz < 2 ^ 63 \<Longrightarrow>
      \<exists>s'. rd fd sz s = (let (n, out, A') = spec_read fd (unat sz) A in ret (n, map Some out, s'))
        \<and> repr s' (snd (snd (spec_read fd (unat sz) A)))"
    and closes: "repr s A \<Longrightarrow> \<exists>s'. cls fd s = ret (fst (spec_close fd A), s') \<and> repr s' (snd (spec_close fd A))"
    and deletes: "repr s A \<Longrightarrow> \<exists>s'. del name s = ret (fst (spec_delete name A), s') \<and> repr s' (snd (spec_delete name A))"
    and fd_live: "repr s A \<Longrightarrow> afd_at A fd = Some d \<Longrightarrow> \<exists>x. a_files A (a_file d) = Some x \<and> a_left x + length (a_data x) \<le> max_size"
    and fds_finite: "repr s A \<Longrightarrow> finite (dom (a_fds A))"
begin

lemma read_rest:
  assumes "repr s A" "afd_at A fd = Some d" "a_read d" "unat sz < 2 ^ 63"
  shows "\<exists>s'. rd fd sz s = ret (int (length (take (unat sz) (unread A fd))), map Some (take (unat sz) (unread A fd)), s')"
proof -
  have "fst (spec_read fd (unat sz) A) = int (length (take (unat sz) (unread A fd)))"
    "fst (snd (spec_read fd (unat sz) A)) = take (unat sz) (unread A fd)"
    using assms by (simp_all add: spec_read_def unread_def Let_def)
  then show ?thesis
    using reads [OF assms(1,4), of fd] by (auto simp: case_prod_beta)
qed

lemma read_after_write:
  assumes r: "repr s A" and d: "afd_at A fd = Some d" "a_write d" and e: "afd_at A fd' = Some e" "a_read e"
    and same: "a_file e = a_file d" "a_pos e = a_pos d" "fd' \<noteq> fd"
    and pos: "a_pos d \<le> length (a_data (the (a_files A (a_file d))))"
    and w: "w \<noteq> []" "length w \<le> a_left (the (a_files A (a_file d)))"
  shows "\<exists>s1 s2. wrt fd w (word_of_nat (length w)) s = ret (int (length w), s1)
    \<and> rd fd' (word_of_nat (length w)) s1 = ret (int (length w), map Some w, s2)"
proof -
  obtain x where x: "a_files A (a_file d) = Some x" "a_left x + length (a_data x) \<le> max_size"
    using fd_live [OF r d(1)] by blast
  have small: "length w < 2 ^ 63" using w(2) x by (simp add: max_size_def)
  then have sz: "unat (word_of_nat (length w) :: size_t) = length w" by (rule size_of_nat(2))
  then have nz: "(word_of_nat (length w) :: size_t) \<noteq> 0" using w(1) by (metis length_0_conv unat_0)
  define A1 where "A1 = snd (spec_write fd w A)"
  have A1: "A1 = A\<lparr>a_files := (a_files A)(a_file d \<mapsto>
      \<lparr>a_data = write_at (a_pos d) w (a_data x), a_left = a_left x - length w\<rparr>),
      a_fds := (a_fds A)(nat fd \<mapsto> d\<lparr>a_pos := a_pos d + length w\<rparr>)\<rparr>"
    "fst (spec_write fd w A) = int (length w)"
    using d w x by (simp_all add: A1_def spec_write_def Let_def)
  from writes_to [OF r nz, of w fd] obtain s1 where
    s1: "wrt fd w (word_of_nat (length w)) s = ret (int (length w), s1)" "repr s1 A1"
    using A1(2) by (auto simp: sz A1_def)
  have "nat fd' \<noteq> nat fd" using same(3) d e by (auto simp: afd_at_def split: if_splits)
  then have e1: "afd_at A1 fd' = Some e" using e by (simp add: A1(1) afd_at_def split: if_splits)
  have "take (length w) (unread A1 fd') = w"
    using e1 same pos x by (simp add: unread_def A1(1) write_at_def splice_at_def)
  with read_rest [OF s1(2) e1 e(2), of "word_of_nat (length w)"] s1(1) sz small show ?thesis by auto
qed

text \<open>Deleting a name does not change what an open descriptor reads.\<close>

lemma read_after_delete:
  assumes r: "repr s A" and d: "afd_at A fd = Some d" "a_read d" and name: "a_dir A name = Some f"
    and sz: "unat sz < 2 ^ 63"
  shows "\<exists>s1 s2. del name s = ret (0, s1)
    \<and> rd fd sz s1 = ret (int (length (take (unat sz) (unread A fd))), map Some (take (unat sz) (unread A fd)), s2)"
proof -
  define A1 where "A1 = snd (spec_delete name A)"
  obtain s1 where s1: "del name s = ret (0, s1)" "repr s1 A1"
    using deletes [OF r, of name] name by (auto simp: spec_delete_def A1_def)
  have A1: "A1 = reclaim f (A\<lparr>a_dir := (a_dir A)(name := None)\<rparr>)" using name by (simp add: A1_def spec_delete_def)
  have e: "afd_at A1 fd = Some d" using d by (simp add: A1 reclaim_def afd_at_def split: if_splits)
  have "a_files A1 (a_file d) = a_files A (a_file d)"
  proof (cases "a_file d = f")
    case True
    have "d \<in> ran (a_fds A)" using d(1) by (auto simp: afd_at_def ran_def split: if_splits)
    then have "used (A\<lparr>a_dir := (a_dir A)(name := None)\<rparr>) f" using True by (auto simp: used_def)
    then show ?thesis by (simp add: A1 reclaim_def)
  next
    case False
    then show ?thesis by (simp add: A1 reclaim_def)
  qed
  then have "unread A1 fd = unread A fd" using d e by (simp add: unread_def)
  with read_rest [OF s1(2) e d(2) sz] s1(1) show ?thesis by auto
qed

text \<open>Creating a deleted name again gives an empty file; the old descriptor keeps the old one.\<close>

lemma recreate_after_delete:
  assumes r: "repr s A" and fill: "a_fill A = Null" and d: "afd_at A fd = Some d" and name: "a_dir A name = Some f"
  shows "\<exists>s1 fd' s2 A2. del name s = ret (0, s1) \<and> opn name UFS_CREATE s1 = ret (fd', s2) \<and> repr s2 A2
    \<and> fd' \<noteq> fd \<and> unread A2 fd' = [] \<and> unread A2 fd = unread A fd"
proof -
  define A1 where "A1 = snd (spec_delete name A)"
  obtain s1 where s1: "del name s = ret (0, s1)" "repr s1 A1"
    using deletes [OF r, of name] name by (auto simp: spec_delete_def A1_def)
  have A1: "A1 = reclaim f (A\<lparr>a_dir := (a_dir A)(name := None)\<rparr>)" using name by (simp add: A1_def spec_delete_def)
  have d1: "afd_at A1 fd = Some d" using d by (simp add: A1 reclaim_def afd_at_def split: if_splits)
  have "d \<in> ran (a_fds A)" using d by (auto simp: afd_at_def ran_def split: if_splits)
  then have f1: "a_files A1 (a_file d) = a_files A (a_file d)"
    by (auto simp: A1 reclaim_def used_def)
  have fill1: "a_fill A1 = Null" using fill by (simp add: A1 reclaim_fill)
  obtain new s2 where o: "a_files A1 new = None" "opn name UFS_CREATE s1 = ret (fst (spec_open name UFS_CREATE new A1), s2)"
    "repr s2 (snd (spec_open name UFS_CREATE new A1))"
    using opens [OF s1(2) fill1] by metis
  have none: "a_dir A1 name = None" by (simp add: A1 reclaim_def)
  have i: "first_free (A1\<lparr>a_dir := x, a_files := y\<rparr>) = first_free A1" for x y by (simp add: first_free_def)
  let ?A2 = "snd (spec_open name UFS_CREATE new A1)"
  have A2: "?A2 = A1\<lparr>a_dir := (a_dir A1)(name \<mapsto> new),
      a_files := (a_files A1)(new \<mapsto> \<lparr>a_data = [], a_left = max_size\<rparr>),
      a_fds := (a_fds A1)(first_free A1 \<mapsto> \<lparr>a_file = new, a_pos = 0, a_read = open_can_read UFS_CREATE,
         a_write = open_can_write UFS_CREATE\<rparr>)\<rparr>" "fst (spec_open name UFS_CREATE new A1) = int (first_free A1)"
    using none by (simp_all add: spec_open_def attach_def is_permitted_def i)
  have free: "a_fds A1 (first_free A1) = None"
  proof -
    have "\<exists>i. a_fds A1 i = None"
      using fds_finite [OF s1(2)] infinite_UNIV_nat by (metis UNIV_eq_I domIff)
    then show ?thesis unfolding first_free_def by (metis (mono_tags) LeastI_ex)
  qed
  have ne: "int (first_free A1) \<noteq> fd" using d1 free by (auto simp: afd_at_def split: if_splits)
  have "a_file d \<noteq> new" using o(1) fd_live [OF s1(2) d1] by auto
  then have "unread ?A2 fd = unread A fd"
    using d d1 f1 ne by (auto simp: unread_def A2 afd_at_def split: if_splits)
  moreover have "unread ?A2 (int (first_free A1)) = []" by (simp add: unread_def A2 afd_at_def)
  ultimately show ?thesis using s1(1) o(2,3) A2(2) ne by auto
qed

end

section \<open>userfs.c provides the interface\<close>

lemma refines_fd_live:
  assumes "refines s A" "afd_at A fd = Some d"
  shows "\<exists>x. a_files A (a_file d) = Some x \<and> a_left x + length (a_data x) \<le> max_size"
proof -
  from refines_some [OF assms] obtain fl bl f fi where inv: "ufs_inv s fl bl" and "A = abs_ufs s fl bl"
    and fi: "files s f = Some fi" "a_file d = f" by metis
  with inv_file(3) [OF inv fi(1)] show ?thesis by (simp add: a_files_abs)
qed

lemma refines_fds_finite: "refines s A \<Longrightarrow> finite (dom (a_fds A))"
proof -
  assume "refines s A"
  then obtain fl bl where "A = abs_ufs s fl bl" by (auto simp: refines_def)
  then have "dom (a_fds A) \<subseteq> {..<length (slots s)}"
    by (auto simp: abs_ufs_def abs_fds_def split: if_splits)
  then show ?thesis by (rule finite_subset) simp
qed

interpretation ufs: file_system refines ufs_open ufs_write ufs_read ufs_close ufs_delete
proof unfold_locales
qed (fact ufs_open_refines ufs_write_refines ufs_read_refines ufs_close_refines ufs_delete_refines
      refines_fd_live refines_fds_finite)+

section \<open>Sequences of calls\<close>

datatype ufs_op =
    Open string flags
  | Write int "byte list"
  | Read int nat
  | Close int
  | Delete string
  | Resize int nat

text \<open>A call returns its result and the bytes it read.\<close>

definition run_op :: "ufs_op \<Rightarrow> ufs \<Rightarrow> ((int \<times> byte option list) \<times> ufs) res" where
  "run_op c s = (case c of
      Open name flags \<Rightarrow> bindR (ufs_open name flags s) (\<lambda>(r, s). ret ((r, []), s))
    | Write fd w \<Rightarrow> bindR (ufs_write fd w (word_of_nat (length w)) s) (\<lambda>(r, s). ret ((r, []), s))
    | Read fd k \<Rightarrow> bindR (ufs_read fd (word_of_nat k) s) (\<lambda>(r, out, s). ret ((r, out), s))
    | Close fd \<Rightarrow> bindR (ufs_close fd s) (\<lambda>(r, s). ret ((r, []), s))
    | Delete name \<Rightarrow> bindR (ufs_delete name s) (\<lambda>(r, s). ret ((r, []), s))
    | Resize fd k \<Rightarrow> bindR (ufs_resize fd (word_of_nat k) s) (\<lambda>(r, s). ret ((r, []), s)))"

fun run_ops :: "ufs_op list \<Rightarrow> ufs \<Rightarrow> ((int \<times> byte option list) list \<times> ufs) res" where
  "run_ops [] s = ret ([], s)"
| "run_ops (c # cs) s =
     bindR (run_op c s) (\<lambda>(r, s). bindR (run_ops cs s) (\<lambda>(rs, s). ret (r # rs, s)))"

text \<open>The same on the abstract file system; a created file may get any unused identity.\<close>

inductive spec_op :: "afs \<Rightarrow> ufs_op \<Rightarrow> int \<times> byte option list \<Rightarrow> afs \<Rightarrow> bool" where
  "a_files A new = None \<Longrightarrow> spec_open name flags new A = (r, A') \<Longrightarrow> spec_op A (Open name flags) (r, []) A'"
| "spec_write fd w A = (r, A') \<Longrightarrow> spec_op A (Write fd w) (r, []) A'"
| "spec_read fd k A = (r, out, A') \<Longrightarrow> spec_op A (Read fd k) (r, map Some out) A'"
| "spec_close fd A = (r, A') \<Longrightarrow> spec_op A (Close fd) (r, []) A'"
| "spec_delete name A = (r, A') \<Longrightarrow> spec_op A (Delete name) (r, []) A'"
| "spec_resize fd k A = (r, A') \<Longrightarrow> spec_op A (Resize fd k) (r, []) A'"

inductive spec_ops :: "afs \<Rightarrow> ufs_op list \<Rightarrow> (int \<times> byte option list) list \<Rightarrow> afs \<Rightarrow> bool" where
  spec_ops_Nil: "spec_ops A [] [] A"
| spec_ops_Cons: "spec_op A c r A' \<Longrightarrow> spec_ops A' cs rs A'' \<Longrightarrow> spec_ops A (c # cs) (r # rs) A''"

text \<open>
  The calls that the specification covers: no empty write, sizes below \<open>2 ^ 63\<close>, and no resize
  to zero or to a size that is neither a multiple of the block size nor smaller than the file.
\<close>

definition op_ok :: "afs \<Rightarrow> ufs_op \<Rightarrow> bool" where
  "op_ok A c = (case c of
      Write fd w \<Rightarrow> w \<noteq> [] \<and> length w < 2 ^ 63
    | Read fd k \<Rightarrow> k < 2 ^ 63
    | Resize fd k \<Rightarrow> 0 < k \<and> k < 2 ^ 63 \<and> (case afd_at A fd of None \<Rightarrow> True
        | Some d \<Rightarrow> BLOCK_SIZE dvd k \<or> k < length (a_data (the (a_files A (a_file d)))))
    | _ \<Rightarrow> True)"

inductive ops_ok :: "afs \<Rightarrow> ufs_op list \<Rightarrow> bool" where
  ops_ok_Nil: "ops_ok A []"
| ops_ok_Cons: "op_ok A c \<Longrightarrow> (\<And>r A'. spec_op A c r A' \<Longrightarrow> ops_ok A' cs) \<Longrightarrow> ops_ok A (c # cs)"

inductive_cases ops_ok_ConsE: "ops_ok A (c # cs)"

lemma spec_op_fill: "spec_op A c r A' \<Longrightarrow> a_fill A' = a_fill A"
  by (auto simp: spec_open_def attach_def spec_write_def spec_read_def spec_close_def spec_delete_def
      spec_resize_def reclaim_def Let_def elim!: spec_op.cases split: option.splits if_splits)

lemma refines_fill: "refines s A \<Longrightarrow> a_fill A = heap_fill s"
  by (auto simp: refines_def abs_ufs_def)

lemma size_nonzero: "0 < k \<Longrightarrow> k < 2 ^ 63 \<Longrightarrow> (word_of_nat k :: size_t) \<noteq> 0"
  using size_of_nat(2) [of k] by (metis less_numeral_extra(3) unat_0)

lemma run_op_refines:
  assumes "refines s A" "op_ok A c" "a_fill A = Null"
  shows "\<exists>r s' A'. run_op c s = ret (r, s') \<and> spec_op A c r A' \<and> refines s' A'"
proof (cases c)
  case (Open name flags)
  from ufs_open_refines [OF assms(1,3)] obtain new s' where "a_files A new = None"
    "ufs_open name flags s = ret (fst (spec_open name flags new A), s')"
    "refines s' (snd (spec_open name flags new A))" by metis
  then show ?thesis unfolding Open run_op_def by (auto intro!: spec_op.intros(1) exI)
next
  case (Write fd w)
  let ?sz = "word_of_nat (length w) :: size_t"
  have sz: "unat ?sz = length w" "?sz \<noteq> 0"
    using assms(2) size_nonzero [of "length w"] by (auto simp: op_ok_def Write size_of_nat(2))
  from ufs_write_refines [OF assms(1) sz(2), of w fd] sz(1) obtain s' where
    "ufs_write fd w ?sz s = ret (fst (spec_write fd w A), s')" "refines s' (snd (spec_write fd w A))" by auto
  then show ?thesis unfolding Write run_op_def by (auto intro!: spec_op.intros(2) exI)
next
  case (Read fd k)
  then have k: "unat (word_of_nat k :: size_t) = k" "k < 2 ^ 63" using assms(2) by (auto simp: op_ok_def size_of_nat(2))
  obtain r out A' where sp: "spec_read fd k A = (r, out, A')" by (metis prod_cases3)
  from ufs_read_refines [OF assms(1), of "word_of_nat k" fd] k sp obtain s' where
    "ufs_read fd (word_of_nat k) s = ret (r, map Some out, s')" "refines s' A'" by auto
  then show ?thesis unfolding Read run_op_def by (auto intro!: spec_op.intros(3) [OF sp] exI)
next
  case (Close fd)
  from ufs_close_refines [OF assms(1), of fd] obtain s' where
    "ufs_close fd s = ret (fst (spec_close fd A), s')" "refines s' (snd (spec_close fd A))" by auto
  then show ?thesis unfolding Close run_op_def by (auto intro!: spec_op.intros(4) exI)
next
  case (Delete name)
  from ufs_delete_refines [OF assms(1), of name] obtain s' where
    "ufs_delete name s = ret (fst (spec_delete name A), s')" "refines s' (snd (spec_delete name A))" by auto
  then show ?thesis unfolding Delete run_op_def by (auto intro!: spec_op.intros(5) exI)
next
  case (Resize fd k)
  then have k: "unat (word_of_nat k :: size_t) = k" "0 < k" using assms(2) by (auto simp: op_ok_def size_of_nat(2))
  have "BLOCK_SIZE dvd k \<or> k < length (a_data (the (a_files A (a_file d))))" if "afd_at A fd = Some d" for d
    using assms(2) that by (simp add: op_ok_def Resize)
  with ufs_resize_refines [OF assms(1), of fd "word_of_nat k"] k obtain s' where
    "ufs_resize fd (word_of_nat k) s = ret (fst (spec_resize fd k A), s')" "refines s' (snd (spec_resize fd k A))"
    by auto
  then show ?thesis unfolding Resize run_op_def by (auto intro!: spec_op.intros(6) exI)
qed

lemma run_ops_refines:
  "refines s A \<Longrightarrow> ops_ok A cs \<Longrightarrow> a_fill A = Null \<Longrightarrow> \<exists>rs s' A'. run_ops cs s = ret (rs, s') \<and> spec_ops A cs rs A' \<and> refines s' A'"
proof (induction cs arbitrary: s A)
  case Nil
  then show ?case by (auto intro: spec_ops_Nil)
next
  case (Cons c cs)
  from Cons.prems(2) have ok: "op_ok A c" "\<And>r A'. spec_op A c r A' \<Longrightarrow> ops_ok A' cs"
    by (auto elim: ops_ok_ConsE)
  from run_op_refines [OF Cons.prems(1) ok(1) Cons.prems(3)] obtain r s1 A1 where
    1: "run_op c s = ret (r, s1)" "spec_op A c r A1" "refines s1 A1" by blast
  from Cons.IH [OF 1(3) ok(2) [OF 1(2)]] spec_op_fill [OF 1(2)] Cons.prems(3) obtain rs s2 A2 where
    2: "run_ops cs s1 = ret (rs, s2)" "spec_ops A1 cs rs A2" "refines s2 A2" by metis
  with 1 show ?case by (auto intro!: spec_ops_Cons exI)
qed

text \<open>After any calls: when no file is in the list and no descriptor is open, nothing is allocated.\<close>

lemma run_ops_no_leak:
  assumes "refines s A" "heap_fill s = Null" "ops_ok A cs" "run_ops cs s = ret (rs, s')"
    and none: "file_list s' = Null" "fd_count s' = 0"
  shows "blocks s' = Map.empty \<and> files s' = Map.empty \<and> filedescs s' = Map.empty"
proof -
  from run_ops_refines [OF assms(1,3)] refines_fill [OF assms(1)] assms(2,4) obtain A' where "refines s' A'" by auto
  then show ?thesis using none by (rule counts_zero)
qed

text \<open>
  Truncation moves no descriptor. A descriptor behind the new end stays where it was: after the file has
  grown again it reads from its old position, not (as the comment on \<open>ufs_resize\<close> in userfs.h says) from the
  end that the file had after the truncation.
\<close>

lemma resize_keeps_position:
  assumes r: "refines s A" and d: "afd_at A fd = Some d" "a_write d" and e: "afd_at A fd' = Some e" "a_read e"
    and same: "a_file e = a_file d" "fd' \<noteq> fd"
    and k: "0 < k" "k < length (a_data (the (a_files A (a_file d))))" "k \<le> a_pos d" "k \<le> a_pos e"
    and w: "w \<noteq> []" "length w \<le> max_size - k" and n: "n < 2 ^ 63"
  shows "\<exists>s1 s2 s3. ufs_resize fd (word_of_nat k) s = ret (0, s1)
    \<and> ufs_write fd w (word_of_nat (length w)) s1 = ret (int (length w), s2)
    \<and> ufs_read fd' (word_of_nat n) s2 = (let out = take n (drop (a_pos e - k) w) in ret (int (length out), map Some out, s3))"
proof -
  obtain x where x: "a_files A (a_file d) = Some x" "a_left x + length (a_data x) \<le> max_size"
    using refines_fd_live [OF r d(1)] by blast
  have small: "length w < 2 ^ 63" "k < 2 ^ 63" "k \<le> max_size" using w(2) k(2) x by (auto simp: max_size_def)
  note sz = size_of_nat(2) [OF small(1)] size_of_nat(2) [OF small(2)] size_of_nat(2) [OF n]
  have "(word_of_nat (length w) :: size_t) \<noteq> 0" using sz(1) w(1) by (metis length_0_conv unat_0)
  note nz = this
  define A1 where "A1 = snd (spec_resize fd k A)"
  have A1: "fst (spec_resize fd k A) = 0" "A1 = A\<lparr>a_files := (a_files A)(a_file d \<mapsto>
      \<lparr>a_data = take k (a_data x), a_left = max_size - k\<rparr>)\<rparr>"
    using d k(2) x(1) small(3) by (simp_all add: A1_def spec_resize_def Let_def min_absorb2)
  obtain s1 where s1: "ufs_resize fd (word_of_nat k) s = ret (0, s1)" "refines s1 A1"
    using ufs_resize_refines [OF r, of fd "word_of_nat k"] d k(1,2) A1(1) unfolding A1_def by (auto simp: sz)
  have d1: "afd_at A1 fd = Some d" "afd_at A1 fd' = Some e" using d e by (auto simp: A1(2) afd_at_def split: if_splits)
  define A2 where "A2 = snd (spec_write fd w A1)"
  have A2: "fst (spec_write fd w A1) = int (length w)" "A2 = A1\<lparr>a_files := (a_files A1)(a_file d \<mapsto>
      \<lparr>a_data = take k (a_data x) @ w, a_left = max_size - k - length w\<rparr>),
      a_fds := (a_fds A1)(nat fd \<mapsto> d\<lparr>a_pos := a_pos d + length w\<rparr>)\<rparr>"
    using d d1 k w x by (simp_all add: A2_def spec_write_def Let_def A1(2) write_at_def splice_at_def min_absorb2)
  obtain s2 where s2: "ufs_write fd w (word_of_nat (length w)) s1 = ret (int (length w), s2)" "refines s2 A2"
    using ufs_write_refines [OF s1(2) nz, of w fd] A2(1) unfolding A2_def by (auto simp: sz)
  have "nat fd' \<noteq> nat fd" using same(2) d e by (auto simp: afd_at_def split: if_splits)
  then have e2: "afd_at A2 fd' = Some e" using d1(2) by (simp add: A2(2) afd_at_def split: if_splits)
  have "unread A2 fd' = drop (a_pos e - k) w"
    using e2 same(1) k(2,4) x by (simp add: unread_def A2(2) min_absorb2)
  with ufs.read_rest [OF s2(2) e2 e(2), of "word_of_nat n"] n s1(1) s2(1) show ?thesis by (auto simp: sz Let_def)
qed

section \<open>What a call may return\<close>

text \<open>
  The errors and the results of each call. They are those of the comments of userfs.h but in two places:
  the comments give \<open>ufs_open\<close> only results above 0 (the first descriptor is 0), and they do not mention
  \<open>UFS_ERR_NO_PERMISSION\<close> for \<open>ufs_write\<close> and \<open>ufs_read\<close>.
\<close>

fun possible_errors :: "ufs_op \<Rightarrow> ufs_error_code set" where
  "possible_errors (Open name flags) = {UFS_ERR_NO_FILE}"
| "possible_errors (Write fd w) = {UFS_ERR_NO_FILE, UFS_ERR_NO_PERMISSION, UFS_ERR_NO_MEM}"
| "possible_errors (Read fd k) = {UFS_ERR_NO_FILE, UFS_ERR_NO_PERMISSION}"
| "possible_errors (Close fd) = {UFS_ERR_NO_FILE}"
| "possible_errors (Delete name) = {UFS_ERR_NO_FILE}"
| "possible_errors (Resize fd k) = {UFS_ERR_NO_FILE, UFS_ERR_NO_PERMISSION, UFS_ERR_NO_MEM}"

fun possible_result :: "ufs_op \<Rightarrow> int \<Rightarrow> byte option list \<Rightarrow> bool" where
  "possible_result (Open name flags) r out \<longleftrightarrow> 0 \<le> r \<and> out = []"
| "possible_result (Write fd w) r out \<longleftrightarrow> r = int (length w) \<and> out = []"
| "possible_result (Read fd k) r out \<longleftrightarrow> r = int (length out) \<and> r \<le> int k \<and> None \<notin> set out"
| "possible_result (Close fd) r out \<longleftrightarrow> r = 0 \<and> out = []"
| "possible_result (Delete name) r out \<longleftrightarrow> r = 0 \<and> out = []"
| "possible_result (Resize fd k) r out \<longleftrightarrow> r = 0 \<and> out = []"

lemma spec_op_result:
  assumes "spec_op A c (r, out) A'"
  shows "if r = -1 then a_err A' \<in> possible_errors c \<and> A' = A\<lparr>a_err := a_err A'\<rparr>
    else possible_result c r out \<and> a_err A' = a_err A"
  using assms
proof (cases rule: spec_op.cases)
  case (1 new name flags)
  then show ?thesis by (auto simp: spec_open_def attach_def split: option.splits if_splits)
next
  case (2 fd w)
  then show ?thesis by (auto simp: spec_write_def Let_def split: option.splits if_splits)
next
  case (3 fd k out')
  then show ?thesis by (auto simp: spec_read_def Let_def split: option.splits if_splits)
next
  case (4 fd)
  then show ?thesis by (auto simp: spec_close_def reclaim_def split: option.splits if_splits)
next
  case (5 name)
  then show ?thesis by (auto simp: spec_delete_def reclaim_def split: option.splits if_splits)
next
  case (6 fd k)
  then show ?thesis by (auto simp: spec_resize_def Let_def split: option.splits if_splits)
qed

lemma refines_errno: "refines s A \<Longrightarrow> a_err A = ufs_errno s"
  by (auto simp: refines_def abs_ufs_def ufs_errno_def)

lemma run_op_result:
  assumes "refines s A" "heap_fill s = Null" "op_ok A c"
  shows "\<exists>r out s' A'. run_op c s = ret ((r, out), s') \<and> refines s' A'
    \<and> (if r = -1 then ufs_errno s' \<in> possible_errors c \<and> A' = A\<lparr>a_err := ufs_errno s'\<rparr>
       else possible_result c r out \<and> ufs_errno s' = ufs_errno s)"
proof -
  from run_op_refines [OF assms(1,3)] refines_fill [OF assms(1)] assms(2) obtain r out s' A' where
    run: "run_op c s = ret ((r, out), s')" "spec_op A c (r, out) A'" "refines s' A'" by force
  have e: "a_err A = ufs_errno s" "a_err A' = ufs_errno s'"
    by (fact refines_errno [OF assms(1)] refines_errno [OF run(3)])+
  from spec_op_result [OF run(2), unfolded e] run(1,3) show ?thesis by blast
qed

end
