(* ===== verification/Ufs_Example.thy ===== *)
theory Ufs_Example
  imports Ufs_Client
begin

text \<open>
  A concrete state of the file system, reached by calls of userfs.c: one file of three bytes,
  written through the descriptor 0, with a second descriptor 1 at its start. The witnesses of
  the properties start from it.
\<close>

definition example_fs :: "nat \<Rightarrow> afs" where
  "example_fs f = \<lparr>a_err = UFS_ERR_NO_ERR, a_dir = [''f'' \<mapsto> f],
     a_files = [f \<mapsto> \<lparr>a_data = [7, 8, 9], a_left = max_size - 3\<rparr>],
     a_fds = [0 \<mapsto> \<lparr>a_file = f, a_pos = 3, a_read = True, a_write = True\<rparr>,
              1 \<mapsto> \<lparr>a_file = f, a_pos = 0, a_read = True, a_write = True\<rparr>], a_fill = Null\<rparr>"

lemma open_can_simps: "open_can_read 1" "open_can_read 0" "open_can_write 1" "open_can_write 0"
  by (simp_all add: open_can_read_def open_can_write_def is_permitted_def open_flags_defs)

lemma first_free_0: "a_fds A = Map.empty \<Longrightarrow> first_free A = 0"
  by (simp add: first_free_def)

lemma first_free_1: "a_fds A = [0 \<mapsto> d] \<Longrightarrow> first_free A = 1"
  unfolding first_free_def by (rule Least_equality) (auto split: if_splits)

text \<open>The state after the first call: one empty file with one descriptor.\<close>

definition one_file_fs :: "nat \<Rightarrow> afs" where
  "one_file_fs f = \<lparr>a_err = UFS_ERR_NO_ERR, a_dir = [''f'' \<mapsto> f], a_files = [f \<mapsto> \<lparr>a_data = [], a_left = max_size\<rparr>],
     a_fds = [0 \<mapsto> \<lparr>a_file = f, a_pos = 0, a_read = True, a_write = True\<rparr>], a_fill = Null\<rparr>"

lemma init_fill: "a_fill afs_init = Null"
  by (simp add: afs_init_def)

lemma one_file_open:
  "spec_open ''f'' UFS_CREATE f afs_init = (0, one_file_fs f)" "spec_open ''f'' 1 f afs_init = (0, one_file_fs f)"
  by (simp_all add: spec_open_def afs_init_def attach_def is_permitted_def UFS_CREATE_def open_can_simps first_free_0
      one_file_fs_def)

lemma example_reached: "\<exists>s f. refines s (example_fs f)"
proof -
  obtain f s1 where s1: "refines s1 (one_file_fs f)"
    using ufs_open_refines [OF refines_init init_fill, of "''f''" UFS_CREATE] by (auto simp: one_file_open)
  let ?A1 = "one_file_fs f"
  obtain g s2 where s2: "refines s2 (snd (spec_open ''f'' 0 g ?A1))"
    using ufs_open_refines [OF s1, of "''f''" 0] by (auto simp: one_file_fs_def)
  let ?A2 = "?A1\<lparr>a_fds := [0 \<mapsto> \<lparr>a_file = f, a_pos = 0, a_read = True, a_write = True\<rparr>,
     1 \<mapsto> \<lparr>a_file = f, a_pos = 0, a_read = True, a_write = True\<rparr>]\<rparr>"
  have "snd (spec_open ''f'' 0 g ?A1) = ?A2"
    by (simp add: one_file_fs_def spec_open_def attach_def open_can_simps first_free_1)
  with s2 have s2: "refines s2 ?A2" by simp
  obtain s3 where "refines s3 (snd (spec_write 0 [7, 8, 9] ?A2))"
    using ufs_write_refines [OF s2, of 3 "[7, 8, 9]" 0] by auto
  moreover have "snd (spec_write 0 [7, 8, 9] ?A2) = example_fs f"
    by (simp add: one_file_fs_def spec_write_def afd_at_def example_fs_def write_at_def splice_at_def max_size_def)
      (simp add: fun_eq_iff)
  ultimately show ?thesis by auto
qed

lemma example_fill: "refines s (example_fs f) \<Longrightarrow> heap_fill s = Null"
  using refines_fill [of s "example_fs f"] by (simp add: example_fs_def)

text \<open>A run of calls after which every name and every descriptor is gone.\<close>

lemma used_and_closed:
  "\<exists>rs s'. run_ops [Open ''f'' 1, Write 0 [7], Delete ''f'', Close 0] (ufs_init Null) = ret (rs, s')
    \<and> file_list s' = Null \<and> fd_count s' = 0"
proof -
  obtain f s1 where s1: "ufs_open ''f'' 1 (ufs_init Null) = ret (0, s1)" "refines s1 (one_file_fs f)"
    using ufs_open_refines [OF refines_init init_fill, of "''f''" 1] by (auto simp: one_file_open)
  let ?A2 = "snd (spec_write 0 [7] (one_file_fs f))"
  obtain s2 where s2: "ufs_write 0 [7] 1 s1 = ret (1, s2)" "refines s2 ?A2"
    using ufs_write_refines [OF s1(2), of 1 "[7]" 0]
    by (auto simp: spec_write_def afd_at_def one_file_fs_def max_size_def Let_def)
  let ?A3 = "snd (spec_delete ''f'' ?A2)"
  obtain s3 where s3: "ufs_delete ''f'' s2 = ret (0, s3)" "refines s3 ?A3"
    using ufs_delete_refines [OF s2(2), of "''f''"]
    by (auto simp: spec_delete_def spec_write_def afd_at_def one_file_fs_def max_size_def Let_def)
  let ?A4 = "snd (spec_close 0 ?A3)"
  obtain s4 where s4: "ufs_close 0 s3 = ret (0, s4)" "refines s4 ?A4"
    using ufs_close_refines [OF s3(2), of 0]
    by (auto simp: spec_close_def spec_delete_def reclaim_def spec_write_def afd_at_def one_file_fs_def max_size_def Let_def
        split: if_splits)
  have A4: "a_dir ?A4 = Map.empty" "a_fds ?A4 = Map.empty"
    by (auto simp: spec_close_def spec_delete_def reclaim_def spec_write_def afd_at_def one_file_fs_def max_size_def Let_def
        fun_eq_iff)
  have "run_ops [Open ''f'' 1, Write 0 [7], Delete ''f'', Close 0] (ufs_init Null) = ret ([(0, []), (1, []), (0, []), (0, [])], s4)"
    using s1(1) s2(1) s3(1) s4(1) by (simp add: run_op_def)
  moreover have "file_list s4 = Null \<and> fd_count s4 = 0" using s4(2) A4 by (rule nothing_left)
  ultimately show ?thesis by blast
qed

end
