(* ===== verification/Msort_Model.thy ===== *)
theory Msort_Model
  imports Prelude "HOL-Library.Multiset" "HOL-Library.Signed_Division"
begin

text \<open>
  The sorting functions of homework01/solution.c: arrays of integers, the merge, the recursive
  sort, reading and writing of text files and the arithmetic on clock values. Indices and
  lengths are \<open>int\<close> (the C type is 32 bits wide and holds every length that fits in memory
  here); the elements are only compared and copied, so they are \<open>int\<close> as well.
\<close>

section \<open>Arrays\<close>

record array_of_ints =
  arr :: "int list"
  len :: int

text \<open>
  \<open>malloc\<close> of \<open>n\<close> integers: the content of the cells is arbitrary, given by \<open>fill\<close>.
\<close>

definition malloc_ints :: "(nat \<Rightarrow> int) \<Rightarrow> int \<Rightarrow> int list" where
  "malloc_ints fill n = map fill [0..<nat n]"

definition get_at :: "int list \<Rightarrow> int \<Rightarrow> int res" where
  "get_at xs i = (if 0 \<le> i \<and> i < int (length xs) then ret (xs ! nat i) else fail OutOfBounds)"

definition put_at :: "int list \<Rightarrow> int \<Rightarrow> int \<Rightarrow> int list res" where
  "put_at xs i v = (if 0 \<le> i \<and> i < int (length xs) then ret (xs[nat i := v]) else fail OutOfBounds)"

text \<open>\<open>memcpy\<close> of \<open>n\<close> integers to the offset \<open>i\<close> of a buffer.\<close>

definition copy_ints :: "int list \<Rightarrow> int \<Rightarrow> int list \<Rightarrow> int \<Rightarrow> int list res" where
  "copy_ints dst i src n =
     (if 0 \<le> n \<and> 0 \<le> i \<and> i + n \<le> int (length dst) \<and> n \<le> int (length src)
      then ret (splice_at (nat i) (take (nat n) src) dst)
      else fail OutOfBounds)"

section \<open>Merging\<close>

text \<open>The loops that copy the rest of one array when the other is exhausted.\<close>

partial_function (option) copy_tail :: "int list \<Rightarrow> int \<Rightarrow> int list \<Rightarrow> int \<Rightarrow> int \<Rightarrow> (int list \<times> int \<times> int) res" where
  "copy_tail result idx src i n =
     (if i < n
      then bindR (get_at src i) (\<lambda>v. bindR (put_at result idx v) (\<lambda>result.
           copy_tail result (idx + 1) src (i + 1) n))
      else ret (result, idx, i))"

text \<open>The loop that copies the elements of \<open>right\<close> below the current element of \<open>left\<close>.\<close>

partial_function (option) copy_less ::
  "int list \<Rightarrow> int \<Rightarrow> int list \<Rightarrow> int \<Rightarrow> int list \<Rightarrow> int \<Rightarrow> int \<Rightarrow> (int list \<times> int \<times> int) res" where
  "copy_less result idx left l_idx right r_idx b_len =
     bindR (if r_idx < b_len
            then bindR (get_at right r_idx) (\<lambda>r. bindR (get_at left l_idx) (\<lambda>l. ret (r < l)))
            else ret False) (\<lambda>continue.
     if continue
     then bindR (get_at right r_idx) (\<lambda>v. bindR (put_at result idx v) (\<lambda>result.
          copy_less result (idx + 1) left l_idx right (r_idx + 1) b_len))
     else ret (result, idx, r_idx))"

partial_function (option) merge_loop ::
  "int list \<Rightarrow> int \<Rightarrow> int list \<Rightarrow> int \<Rightarrow> int \<Rightarrow> int list \<Rightarrow> int \<Rightarrow> int \<Rightarrow> int list res" where
  "merge_loop result idx left l_idx a_len right r_idx b_len =
     (if l_idx < a_len \<or> r_idx < b_len
      then
        if l_idx \<ge> a_len then
          bindR (copy_tail result idx right r_idx b_len) (\<lambda>(result, idx, r_idx).
          merge_loop result idx left l_idx a_len right r_idx b_len)
        else if r_idx \<ge> b_len then
          bindR (copy_tail result idx left l_idx a_len) (\<lambda>(result, idx, l_idx).
          merge_loop result idx left l_idx a_len right r_idx b_len)
        else
          bindR (get_at left l_idx) (\<lambda>l.
          bindR (get_at right r_idx) (\<lambda>r.
          if l \<le> r then
            bindR (put_at result idx l) (\<lambda>result.
            merge_loop result (idx + 1) left (l_idx + 1) a_len right r_idx b_len)
          else
            bindR (copy_less result idx left l_idx right r_idx b_len) (\<lambda>(result, idx, r_idx).
            merge_loop result idx left l_idx a_len right r_idx b_len)))
      else ret result)"

definition merge_sorted_arrays :: "(nat \<Rightarrow> int) \<Rightarrow> array_of_ints \<Rightarrow> array_of_ints \<Rightarrow> array_of_ints res" where
  "merge_sorted_arrays fill a b =
     bindR (merge_loop (malloc_ints fill (len a + len b)) 0 (arr a) 0 (len a) (arr b) 0 (len b)) (\<lambda>result.
     ret \<lparr>arr = result, len = len a + len b\<rparr>)"

section \<open>Sorting\<close>

text \<open>
  \<open>get_sorted_numbers\<close> works on memory of its own; what it does to the rest of the program are
  the calls at its end, recorded as events.
\<close>

datatype event = UpdateWorkTime | CoroYield | SetTimestamp

definition sort_events :: "bool \<Rightarrow> event list" where
  "sort_events ctx = (if ctx then [UpdateWorkTime] else []) @ [CoroYield] @ (if ctx then [SetTimestamp] else [])"

partial_function (option) get_sorted_numbers ::
  "(nat \<Rightarrow> int) \<Rightarrow> bool \<Rightarrow> int list \<Rightarrow> int \<Rightarrow> (array_of_ints \<times> event list) res" where
  "get_sorted_numbers fill ctx numbers n =
     bindR
      (if n = 1 then
         bindR (get_at numbers 0) (\<lambda>x. bindR (put_at (malloc_ints fill 1) 0 x) (\<lambda>p.
         ret (\<lparr>arr = p, len = 1\<rparr>, [])))
       else if n = 2 then
         bindR (copy_ints (malloc_ints fill 2) 0 numbers 2) (\<lambda>sorted.
         bindR (get_at sorted 0) (\<lambda>x.
         bindR (get_at sorted 1) (\<lambda>y.
         bindR (if x > y then bindR (put_at sorted 0 y) (\<lambda>sorted. put_at sorted 1 x) else ret sorted) (\<lambda>sorted.
         ret (\<lparr>arr = sorted, len = 2\<rparr>, [])))))
       else
         let left_len = n sdiv 2; right_len = n - left_len in
         bindR (get_sorted_numbers fill ctx numbers left_len) (\<lambda>(left_sorted, left_events).
         bindR (get_sorted_numbers fill ctx (drop (nat left_len) numbers) right_len) (\<lambda>(right_sorted, right_events).
         bindR (merge_sorted_arrays fill left_sorted right_sorted) (\<lambda>result.
         ret (result, left_events @ right_events)))))
      (\<lambda>(result, events). ret (result, events @ sort_events ctx))"

section \<open>Reading and writing\<close>

text \<open>
  A text file as \<open>fscanf\<close> with the conversion \<open>%d\<close> sees it: the numbers, then either the end or
  something that is not a number. The result is the count of conversions (-1 for \<open>EOF\<close>); a
  failing conversion consumes nothing and writes nothing.
\<close>

record text_file =
  numbers_left :: "int list"
  ends_with_junk :: bool

definition fscanf_d :: "text_file \<Rightarrow> int \<times> int option \<times> text_file" where
  "fscanf_d f = (case numbers_left f of
      x # xs \<Rightarrow> (1, Some x, f\<lparr>numbers_left := xs\<rparr>)
    | [] \<Rightarrow> (if ends_with_junk f then 0 else -1, None, f))"

partial_function (option) read_loop_ints ::
  "(nat \<Rightarrow> int) \<Rightarrow> text_file \<Rightarrow> int list \<Rightarrow> int \<Rightarrow> int \<Rightarrow> (int list \<times> int) res" where
  "read_loop_ints fill f numbers idx max_length =
     (let (r, x, f) = fscanf_d f in
      bindR (case x of Some v \<Rightarrow> put_at numbers idx v | None \<Rightarrow> ret numbers) (\<lambda>numbers.
      if r \<noteq> -1
      then
        if idx = max_length - 1
        then bindR (copy_ints (malloc_ints fill (max_length * 2)) 0 numbers (idx + 1)) (\<lambda>numbers.
             read_loop_ints fill f numbers (idx + 1) (max_length * 2))
        else read_loop_ints fill f numbers (idx + 1) max_length
      else ret (numbers, idx)))"

definition read_numbers_from_file :: "(nat \<Rightarrow> int) \<Rightarrow> text_file \<Rightarrow> array_of_ints res" where
  "read_numbers_from_file fill f =
     bindR (read_loop_ints fill f (malloc_ints fill 10000) 0 10000) (\<lambda>(numbers, idx).
     ret \<lparr>arr = numbers, len = idx + 1\<rparr>)"

text \<open>The numbers that \<open>write_numbers_to_file\<close> prints.\<close>

fun write_loop_ints :: "int list \<Rightarrow> int list \<Rightarrow> int list res" where
  "write_loop_ints numbers [] = ret []"
| "write_loop_ints numbers (i # is) =
     bindR (get_at numbers i) (\<lambda>x. bindR (write_loop_ints numbers is) (\<lambda>out. ret (x # out)))"

definition write_numbers_to_file :: "int list \<Rightarrow> int \<Rightarrow> int list res" where
  "write_numbers_to_file numbers n = write_loop_ints numbers [0..n - 1]"

section \<open>Time\<close>

record timespec =
  tv_sec :: int
  tv_nsec :: int

definition get_time_diff :: "timespec \<Rightarrow> timespec \<Rightarrow> timespec" where
  "get_time_diff from to =
     (let sec_diff = tv_sec to - tv_sec from; nsec_diff = tv_nsec to - tv_nsec from in
      if nsec_diff < 0
      then \<lparr>tv_sec = sec_diff - 1, tv_nsec = nsec_diff + 1000000000\<rparr>
      else \<lparr>tv_sec = sec_diff, tv_nsec = nsec_diff\<rparr>)"

text \<open>The result is the new \<open>coro_work_time\<close>; the clock's value is an argument.\<close>

definition update_coro_work_time :: "timespec \<Rightarrow> timespec \<Rightarrow> timespec \<Rightarrow> timespec" where
  "update_coro_work_time prev_timestamp timestamp work =
     (let time_diff = get_time_diff prev_timestamp timestamp;
          work = work\<lparr>tv_sec := tv_sec work + tv_sec time_diff, tv_nsec := tv_nsec work + tv_nsec time_diff\<rparr>;
          additional_secs = tv_nsec work sdiv 1000000000
      in if additional_secs > 0
         then work\<lparr>tv_sec := tv_sec work + additional_secs, tv_nsec := tv_nsec work - additional_secs * 1000000000\<rparr>
         else work)"

end
