(* ===== verification/Signals.thy ===== *)
theory Signals
  imports Prelude
begin

text \<open>
  What libcoro.c uses of POSIX signals, for the one signal SIGUSR2 and one thread of control: the
  signal mask, a pending signal, the action, and the alternate signal stack. A call that fails
  gives \<open>None\<close>. Handlers of the client are opaque: they return and do not touch the library.
\<close>

section \<open>State\<close>

text \<open>A stack that the process can run on; those of coroutines are heap objects.\<close>

datatype stack_id = MainStack | CoroStack ptr | ForeignStack nat

datatype handler = SigDfl | SigIgn | CoroBody | ClientHandler nat

record sigact =
  sa_handler :: handler
  sa_onstack :: bool

text \<open>\<open>altstack\<close> is \<open>None\<close> when the alternate stack is disabled (\<open>SS_DISABLE\<close>).\<close>

record kernel =
  usr2_blocked :: bool
  usr2_pending :: bool
  usr2_action :: sigact
  altstack :: "(stack_id \<times> nat) option"
  os_SIGSTKSZ :: nat
  os_MINSIGSTKSZ :: nat

section \<open>Calls\<close>

text \<open>\<open>sigaction\<close>: the old action and the new state; ignoring the signal discards a pending one.\<close>

definition sigaction_usr2 :: "sigact \<Rightarrow> kernel \<Rightarrow> sigact \<times> kernel" where
  "sigaction_usr2 act k = (usr2_action k,
     k\<lparr>usr2_action := act, usr2_pending := (usr2_pending k \<and> sa_handler act \<noteq> SigIgn)\<rparr>)"

text \<open>Whether execution on the stack \<open>cur\<close> uses the alternate stack.\<close>

definition on_altstack :: "stack_id \<Rightarrow> kernel \<Rightarrow> bool" where
  "on_altstack cur k \<longleftrightarrow> (case altstack k of None \<Rightarrow> False | Some (sp, sz) \<Rightarrow> sp = cur)"

text \<open>\<open>sigaltstack\<close>: \<open>EPERM\<close> while the alternate stack is in use, \<open>ENOMEM\<close> for a stack that is too small.\<close>

definition sigaltstack :: "stack_id \<Rightarrow> (stack_id \<times> nat) option \<Rightarrow> kernel \<Rightarrow> kernel option" where
  "sigaltstack cur ss k =
     (if on_altstack cur k then None
      else case ss of
        None \<Rightarrow> Some (k\<lparr>altstack := None\<rparr>)
      | Some (sp, sz) \<Rightarrow> if sz < os_MINSIGSTKSZ k then None else Some (k\<lparr>altstack := Some (sp, sz)\<rparr>))"

text \<open>The stack a handler of SIGUSR2 runs on when the signal interrupts the stack \<open>cur\<close>.\<close>

definition handler_stack :: "stack_id \<Rightarrow> kernel \<Rightarrow> stack_id" where
  "handler_stack cur k = (if sa_onstack (usr2_action k)
     then (case altstack k of None \<Rightarrow> cur | Some (sp, sz) \<Rightarrow> sp) else cur)"

text \<open>
  \<open>sigprocmask (SIG_SETMASK)\<close>; a pending signal that becomes unblocked is delivered. The library's
  own handler is installed only while the signal is blocked.
\<close>

definition set_mask :: "bool \<Rightarrow> kernel \<Rightarrow> kernel res" where
  "set_mask b k =
     (let k = k\<lparr>usr2_blocked := b\<rparr> in
      if \<not> b \<and> usr2_pending k then
        (case sa_handler (usr2_action k) of
           SigDfl \<Rightarrow> fail Aborted
         | CoroBody \<Rightarrow> fail Aborted
         | _ \<Rightarrow> ret (k\<lparr>usr2_pending := False\<rparr>))
      else ret k)"

section \<open>The state between calls\<close>

text \<open>
  A signal is pending only while it is blocked, and the alternate stack was accepted by
  \<open>sigaltstack\<close>; \<open>MINSIGSTKSZ\<close> is at most \<open>SIGSTKSZ\<close> or a megabyte.
\<close>

definition kernel_ok :: "kernel \<Rightarrow> bool" where
  "kernel_ok k \<longleftrightarrow> (usr2_pending k \<longrightarrow> usr2_blocked k)
     \<and> (case altstack k of None \<Rightarrow> True | Some (sp, sz) \<Rightarrow> os_MINSIGSTKSZ k \<le> sz)
     \<and> os_MINSIGSTKSZ k \<le> max (1024 * 1024) (os_SIGSTKSZ k)"

lemma kernel_ok_consumed: "kernel_ok k \<Longrightarrow> kernel_ok (k\<lparr>usr2_pending := False\<rparr>)"
  by (auto simp: kernel_ok_def split: option.splits)

lemma on_altstack_consumed [simp]: "on_altstack st (k\<lparr>usr2_pending := False\<rparr>) = on_altstack st k"
  by (simp add: on_altstack_def)

end
