(* ===== verification/Coro_Model.thy ===== *)
theory Coro_Model
  imports Linked_List Signals
begin

text \<open>
  The coroutine library of homework01/libcoro.c. A saved context (the \<open>sigjmp_buf\<close>) is a value
  of a type \<open>'k\<close> of continuations with the stack that it lives on; the code that runs from one
  switch to the next is the parameter \<open>turn\<close>: from a continuation and the memory the coroutines
  share it gives either the continuation at the next \<open>coro_yield\<close> (\<open>Inl\<close>) or the value that the
  coroutine's function returns (\<open>Inr\<close>). The list of coroutines, the current coroutine, the
  scheduler's flag, and the signals and stacks with which \<open>coro_new\<close> makes a first context are as
  in the C file. The calls of signal functions are those of the theory \<open>Signals\<close>; a failure
  ends the process (\<open>handle_error\<close>).
\<close>

section \<open>State\<close>

text \<open>
  \<open>func\<close> is the function with its argument. The stack of the saved context is \<open>None\<close> until a context
  has been saved.
\<close>

record 'k coro =
  c_ret :: int
  c_stack :: ptr
  func :: 'k
  saved_ctx :: 'k
  ctx_stack :: "stack_id option"
  is_finished :: bool
  switch_count :: int
  c_next :: ptr
  c_prev :: ptr

text \<open>\<open>coro_this_ptr\<close> points to the scheduler's own \<open>struct coro\<close> or to one in the heap, or is null.\<close>

datatype this = Sched | Running ptr

text \<open>\<open>stacks\<close> has the sizes of the coroutines' stacks; \<open>sched_stack\<close> is the stack of the scheduler's context.\<close>

record ('k, 'g) coros =
  coro_heap :: "nat \<rightharpoonup> 'k coro"
  stacks :: "nat \<rightharpoonup> nat"
  coro_list :: ptr
  coro_this_ptr :: this
  is_sched_waiting :: bool
  sched_switch_count :: int
  sched_stack :: stack_id
  sigs :: kernel
  shared :: 'g
  next_coro :: nat

text \<open>The process before \<open>coro_sched_init\<close>, with the initial values of the static variables.\<close>

definition coro_static :: "kernel \<Rightarrow> 'g \<Rightarrow> ('k, 'g) coros" where
  "coro_static k g = \<lparr>coro_heap = Map.empty, stacks = Map.empty, coro_list = Null, coro_this_ptr = Running Null,
     is_sched_waiting = False, sched_switch_count = 0, sched_stack = MainStack, sigs = k, shared = g, next_coro = 0\<rparr>"

definition coro_sched_init :: "('k, 'g) coros \<Rightarrow> ('k, 'g) coros" where
  "coro_sched_init s = s\<lparr>sched_switch_count := 0, coro_this_ptr := Sched\<rparr>"

definition upd_coro :: "ptr \<Rightarrow> ('k coro \<Rightarrow> 'k coro) \<Rightarrow> ('k, 'g) coros \<Rightarrow> ('k, 'g) coros res" where
  "upd_coro p f s = bindR (store (coro_heap s) p f) (\<lambda>h. ret (s\<lparr>coro_heap := h\<rparr>))"

section \<open>The list of coroutines\<close>

definition coro_list_add :: "ptr \<Rightarrow> ('k, 'g) coros \<Rightarrow> ('k, 'g) coros res" where
  "coro_list_add c s =
     bindR (upd_coro c (\<lambda>x. x\<lparr>c_next := coro_list s, c_prev := Null\<rparr>) s) (\<lambda>s.
     bindR (is_null (coro_list s)) (\<lambda>z.
     bindR (if z then ret s else upd_coro (coro_list s) (\<lambda>x. x\<lparr>c_prev := c\<rparr>) s) (\<lambda>s.
     ret (s\<lparr>coro_list := c\<rparr>))))"

definition coro_list_delete :: "ptr \<Rightarrow> ('k, 'g) coros \<Rightarrow> ('k, 'g) coros res" where
  "coro_list_delete c s =
     bindR (load (coro_heap s) c) (\<lambda>x.
     let prev = c_prev x; next = c_next x in
     bindR (is_null prev) (\<lambda>zp.
     bindR (is_null next) (\<lambda>zn.
     bindR (if zp then ret s else upd_coro prev (\<lambda>x. x\<lparr>c_next := next\<rparr>) s) (\<lambda>s.
     bindR (if zn then ret s else upd_coro next (\<lambda>x. x\<lparr>c_prev := prev\<rparr>) s) (\<lambda>s.
     ret (if zp then s\<lparr>coro_list := next\<rparr> else s))))))"

section \<open>Accessors and deletion\<close>

definition coro_status :: "('k, 'g) coros \<Rightarrow> ptr \<Rightarrow> int res" where
  "coro_status s c = bindR (load (coro_heap s) c) (\<lambda>x. ret (c_ret x))"

definition coro_switch_count :: "('k, 'g) coros \<Rightarrow> ptr \<Rightarrow> int res" where
  "coro_switch_count s c = bindR (load (coro_heap s) c) (\<lambda>x. ret (switch_count x))"

definition coro_is_finished :: "('k, 'g) coros \<Rightarrow> ptr \<Rightarrow> bool res" where
  "coro_is_finished s c = bindR (load (coro_heap s) c) (\<lambda>x. ret (is_finished x))"

definition coro_this :: "('k, 'g) coros \<Rightarrow> this" where
  "coro_this s = coro_this_ptr s"

definition coro_delete :: "ptr \<Rightarrow> ('k, 'g) coros \<Rightarrow> ('k, 'g) coros res" where
  "coro_delete c s =
     bindR (load (coro_heap s) c) (\<lambda>x.
     bindR (release (stacks s) (c_stack x)) (\<lambda>st.
     bindR (release (coro_heap s) c) (\<lambda>h.
     ret (s\<lparr>stacks := st, coro_heap := h\<rparr>))))"

section \<open>Creating a coroutine\<close>

text \<open>The stack that the caller runs on.\<close>

definition caller_stack :: "('k, 'g) coros \<Rightarrow> stack_id res" where
  "caller_stack s = (case coro_this_ptr s of
      Sched \<Rightarrow> ret (sched_stack s)
    | Running c \<Rightarrow>
        bindR (is_null c) (\<lambda>z.
        if z then ret (sched_stack s)
        else bindR (load (coro_heap s) c) (\<lambda>x.
          case ctx_stack x of None \<Rightarrow> fail UninitRead | Some st \<Rightarrow> ret st)))"

text \<open>The two \<open>malloc\<close>s and the first assignments; coroutine and stack get the same number.\<close>

definition coro_alloc :: "'k \<Rightarrow> ('k, 'g) coros \<Rightarrow> ptr \<times> ('k, 'g) coros" where
  "coro_alloc fn s =
     (let c = next_coro s; stack_size = max (1024 * 1024) (os_SIGSTKSZ (sigs s)) in
      (Ptr c, s\<lparr>coro_heap := (coro_heap s)(c \<mapsto> \<lparr>c_ret = 0, c_stack = Ptr c, func = fn, saved_ctx = fn,
                 ctx_stack = None, is_finished = False, switch_count = 0, c_next = Junk, c_prev = Junk\<rparr>),
               stacks := (stacks s)(c \<mapsto> stack_size), next_coro := Suc c\<rparr>))"

text \<open>
  The first part of the handler \<open>coro_body\<close>, which runs on the stack \<open>st\<close>: it saves the context in
  which the coroutine will call its function, and jumps back to \<open>start_point\<close>.
\<close>

definition coro_body_save :: "stack_id \<Rightarrow> ('k, 'g) coros \<Rightarrow> ('k, 'g) coros res" where
  "coro_body_save st s = (case coro_this_ptr s of
      Sched \<Rightarrow> ret (s\<lparr>coro_this_ptr := Running Null, sched_stack := st\<rparr>)
    | Running c \<Rightarrow>
        upd_coro c (\<lambda>x. x\<lparr>saved_ctx := func x, ctx_stack := Some st\<rparr>) (s\<lparr>coro_this_ptr := Running Null\<rparr>))"

text \<open>Delivery of the signal on top of the stack \<open>cur\<close>; the flag says that the handler jumped away.\<close>

definition deliver_usr2 :: "stack_id \<Rightarrow> ('k, 'g) coros \<Rightarrow> (bool \<times> ('k, 'g) coros) res" where
  "deliver_usr2 cur s =
     (let s = s\<lparr>sigs := (sigs s)\<lparr>usr2_pending := False\<rparr>\<rparr> in
      case sa_handler (usr2_action (sigs s)) of
        SigDfl \<Rightarrow> fail Aborted
      | SigIgn \<Rightarrow> ret (False, s)
      | ClientHandler n \<Rightarrow> ret (False, s)
      | CoroBody \<Rightarrow> bindR (coro_body_save (handler_stack cur (sigs s)) s) (\<lambda>s. ret (True, s)))"

definition raise_usr2 :: "stack_id \<Rightarrow> ('k, 'g) coros \<Rightarrow> (bool \<times> ('k, 'g) coros) res" where
  "raise_usr2 cur s =
     (if usr2_blocked (sigs s) then ret (False, s\<lparr>sigs := (sigs s)\<lparr>usr2_pending := True\<rparr>\<rparr>)
      else deliver_usr2 cur s)"

text \<open>The loop around \<open>sigsuspend\<close> with an empty mask; without a pending signal it sleeps for ever.\<close>

partial_function (option) suspend_loop :: "stack_id \<Rightarrow> ('k, 'g) coros \<Rightarrow> ('k, 'g) coros res" where
  "suspend_loop cur s =
     (if coro_this_ptr s = Running Null then ret s
      else if usr2_pending (sigs s) then
        bindR (deliver_usr2 cur s) (\<lambda>(jumped, s). if jumped then ret s else suspend_loop cur s)
      else None)"

text \<open>Back to the signal state before the call.\<close>

definition rollback :: "stack_id \<Rightarrow> (stack_id \<times> nat) option \<Rightarrow> sigact \<Rightarrow> bool \<Rightarrow> kernel \<Rightarrow> kernel res" where
  "rollback cur oldst oldsa olds k =
     (case sigaltstack cur None k of
        None \<Rightarrow> fail Aborted
      | Some k \<Rightarrow>
          (case (if oldst = None then Some k else sigaltstack cur oldst k) of
             None \<Rightarrow> fail Aborted
           | Some k \<Rightarrow> set_mask olds (snd (sigaction_usr2 oldsa k))))"

text \<open>From the blocking of the signal to the end of the rollback.\<close>

definition first_context :: "stack_id \<Rightarrow> ptr \<Rightarrow> nat \<Rightarrow> ('k, 'g) coros \<Rightarrow> ('k, 'g) coros res" where
  "first_context cur c stack_size s =
     (let olds = usr2_blocked (sigs s);
          (oldsa, k) = sigaction_usr2 \<lparr>sa_handler = CoroBody, sa_onstack = True\<rparr> ((sigs s)\<lparr>usr2_blocked := True\<rparr>);
          oldst = altstack k
      in case sigaltstack cur (Some (CoroStack c, stack_size)) k of
           None \<Rightarrow> fail Aborted
         | Some k \<Rightarrow>
             let old_this = coro_this_ptr s; start_mask = usr2_blocked k in
             bindR (raise_usr2 cur (s\<lparr>sigs := k, coro_this_ptr := Running c\<rparr>)) (\<lambda>(jumped, s).
             bindR (if jumped then ret s else suspend_loop cur s) (\<lambda>s.
             bindR (rollback cur oldst oldsa olds ((sigs s)\<lparr>usr2_blocked := start_mask\<rparr>)) (\<lambda>k.
             ret (s\<lparr>coro_this_ptr := old_this, sigs := k\<rparr>)))))"

definition coro_new :: "'k \<Rightarrow> ('k, 'g) coros \<Rightarrow> (ptr \<times> ('k, 'g) coros) res" where
  "coro_new fn s =
     bindR (caller_stack s) (\<lambda>cur.
     let (c, s) = coro_alloc fn s; stack_size = max (1024 * 1024) (os_SIGSTKSZ (sigs s)) in
     bindR (first_context cur c stack_size s) (\<lambda>s.
     bindR (coro_list_add c s) (\<lambda>s.
     ret (c, s))))"

section \<open>Switching\<close>

text \<open>
  \<open>coro_yield_to\<close>: the current coroutine counts the switch and saves its context; control goes
  to \<open>dest\<close>. For the scheduler the saved context is the program point in \<open>coro_sched_wait\<close>.
\<close>

definition coro_yield_to :: "this \<Rightarrow> ('k, 'g) coros \<Rightarrow> ('k, 'g) coros res" where
  "coro_yield_to dest s =
     bindR (case coro_this_ptr s of
         Sched \<Rightarrow> ret (s\<lparr>sched_switch_count := sched_switch_count s + 1\<rparr>)
       | Running c \<Rightarrow> upd_coro c (\<lambda>x. x\<lparr>switch_count := switch_count x + 1\<rparr>) s) (\<lambda>s.
     ret (s\<lparr>coro_this_ptr := dest\<rparr>))"

definition coro_yield :: "('k, 'g) coros \<Rightarrow> ('k, 'g) coros res" where
  "coro_yield s = (case coro_this_ptr s of
      Sched \<Rightarrow> coro_yield_to Sched s
    | Running from \<Rightarrow>
        bindR (load (coro_heap s) from) (\<lambda>x.
        bindR (is_null (c_next x)) (\<lambda>z.
        coro_yield_to (if z then Sched else Running (c_next x)) s)))"

text \<open>The end of \<open>coro_body\<close>: the coroutine's function has returned.\<close>

definition coro_body_end :: "ptr \<Rightarrow> int \<Rightarrow> ('k, 'g) coros \<Rightarrow> ('k, 'g) coros res" where
  "coro_body_end c r s =
     bindR (upd_coro c (\<lambda>x. x\<lparr>c_ret := r, is_finished := True\<rparr>) s) (\<lambda>s.
     if is_sched_waiting s then ret (s\<lparr>coro_this_ptr := Sched\<rparr>) else fail Aborted)"

text \<open>The stack on which a saved context continues; that of a coroutine must not have been freed.\<close>

definition resume_stack :: "('k, 'g) coros \<Rightarrow> 'k coro \<Rightarrow> stack_id res" where
  "resume_stack s x = (case ctx_stack x of
      None \<Rightarrow> fail UninitRead
    | Some (CoroStack p) \<Rightarrow> bindR (load (stacks s) p) (\<lambda>n. ret (CoroStack p))
    | Some st \<Rightarrow> ret st)"

text \<open>The current coroutine runs until it switches or ends.\<close>

definition run_current ::
  "('k \<Rightarrow> 'g \<Rightarrow> (('k + int) \<times> 'g) res) \<Rightarrow> ptr \<Rightarrow> ('k, 'g) coros \<Rightarrow> ('k, 'g) coros res" where
  "run_current turn c s =
     bindR (load (coro_heap s) c) (\<lambda>x.
     bindR (resume_stack s x) (\<lambda>st.
     bindR (turn (saved_ctx x) (shared s)) (\<lambda>(out, g).
     let s = s\<lparr>shared := g\<rparr> in
     case out of
       Inl k \<Rightarrow> bindR (upd_coro c (\<lambda>x. x\<lparr>saved_ctx := k, ctx_stack := Some st\<rparr>) s) coro_yield
     | Inr r \<Rightarrow> coro_body_end c r s)))"

text \<open>Control passes from coroutine to coroutine until it is back in the scheduler.\<close>

partial_function (option) run_coros ::
  "('k \<Rightarrow> 'g \<Rightarrow> (('k + int) \<times> 'g) res) \<Rightarrow> ('k, 'g) coros \<Rightarrow> ('k, 'g) coros res" where
  "run_coros turn s = (case coro_this_ptr s of
      Sched \<Rightarrow> ret s
    | Running c \<Rightarrow> bindR (run_current turn c s) (run_coros turn))"

section \<open>The scheduler\<close>

text \<open>The loop that looks for a finished coroutine.\<close>

partial_function (option) find_finished :: "('k, 'g) coros \<Rightarrow> ptr \<Rightarrow> ptr res" where
  "find_finished s c =
     bindR (is_null c) (\<lambda>z.
     if z then ret Null
     else bindR (load (coro_heap s) c) (\<lambda>x.
          if is_finished x then ret c else find_finished s (c_next x)))"

partial_function (option) coro_sched_wait ::
  "('k \<Rightarrow> 'g \<Rightarrow> (('k + int) \<times> 'g) res) \<Rightarrow> ('k, 'g) coros \<Rightarrow> (ptr \<times> ('k, 'g) coros) res" where
  "coro_sched_wait turn s =
     bindR (is_null (coro_list s)) (\<lambda>z.
     if z then ret (Null, s)
     else
       bindR (find_finished s (coro_list s)) (\<lambda>c.
       bindR (is_null c) (\<lambda>none.
       if \<not> none
       then bindR (coro_list_delete c s) (\<lambda>s. ret (c, s))
       else
         bindR (coro_yield_to (Running (coro_list s)) (s\<lparr>is_sched_waiting := True\<rparr>)) (\<lambda>s.
         bindR (run_coros turn s) (\<lambda>s.
         coro_sched_wait turn (s\<lparr>is_sched_waiting := False\<rparr>))))))"

text \<open>\<open>main\<close>'s loop: wait for finished coroutines and delete them until none is left.\<close>

partial_function (option) wait_all ::
  "('k \<Rightarrow> 'g \<Rightarrow> (('k + int) \<times> 'g) res) \<Rightarrow> ('k, 'g) coros \<Rightarrow> ('k, 'g) coros res" where
  "wait_all turn s =
     bindR (coro_sched_wait turn s) (\<lambda>(c, s).
     bindR (is_null c) (\<lambda>z.
     if z then ret s else bindR (coro_delete c s) (wait_all turn)))"

lemmas coro_unfolds [code] =
  suspend_loop.simps
  run_coros.simps
  find_finished.simps
  coro_sched_wait.simps
  wait_all.simps

end
