(* ===== verification/Sort_Main_Model.thy ===== *)
theory Sort_Main_Model
  imports Msort_Model Coro_Model
begin

text \<open>
  The coroutine of homework01/solution.c and its \<open>main\<close>. The contexts of the coroutines and the
  \<open>struct timespec\<close> objects are in heaps, with every \<open>malloc\<close> and \<open>free\<close> of them; the coroutines share
  the index of the next file and the array of results; each takes the next file, reads and sorts
  it with yields in between, and stores the result. A continuation is the coroutine's context
  together with the sort that is in progress: the numbers it will return and the events (time
  keeping and yields) that are still to come. Reading and sorting work on arrays that no other
  coroutine sees, so they are computed when the file is taken; arrays of numbers are values with
  one owner. The files are a parameter: \<open>disk name\<close> is what \<open>fopen\<close> finds, \<open>None\<close> when it fails. Output
  to the terminal, and the coroutine's name that is only printed, are left out.
\<close>

section \<open>State\<close>

record my_context =
  prev_timestamp :: ptr
  coro_work_time :: ptr

record program =
  filenames :: "string list"
  disk :: "string \<Rightarrow> text_file option"
  heap_ints :: "nat \<Rightarrow> int"
  clock :: "nat \<Rightarrow> timespec"
  ticks :: nat
  times :: "nat \<rightharpoonup> timespec"
  next_time :: nat
  contexts :: "nat \<rightharpoonup> my_context"
  next_context :: nat
  next_file_idx :: int
  dests :: "array_of_ints option list"

type_synonym sorting = "int \<times> array_of_ints \<times> event list"

datatype cont = Begin ptr | Resume ptr sorting

definition files_total :: "program \<Rightarrow> int" where
  "files_total g = int (length (filenames g))"

definition clock_gettime :: "program \<Rightarrow> timespec \<times> program" where
  "clock_gettime g = (clock g (ticks g), g\<lparr>ticks := Suc (ticks g)\<rparr>)"

definition malloc_time :: "timespec \<Rightarrow> program \<Rightarrow> ptr \<times> program" where
  "malloc_time t g = (Ptr (next_time g), g\<lparr>times := (times g)(next_time g \<mapsto> t), next_time := Suc (next_time g)\<rparr>)"

section \<open>The context\<close>

text \<open>
  \<open>my_context_new\<close> allocates the bytes of a pointer for \<open>coro_work_time\<close> and stores a
  \<open>struct timespec\<close> of 16 bytes there; \<open>usable\<close> is the size of the memory \<open>malloc\<close> really gives.
  \<open>left_over\<close> is what \<open>malloc\<close> left in the field \<open>prev_timestamp\<close>.
\<close>

definition my_context_new :: "nat \<Rightarrow> ptr \<Rightarrow> program \<Rightarrow> (ptr \<times> program) res" where
  "my_context_new usable left_over g =
     (if usable < 16 then fail OutOfBounds
      else let (work_time, g) = malloc_time \<lparr>tv_sec = 0, tv_nsec = 0\<rparr> g; n = next_context g in
        ret (Ptr n, g\<lparr>contexts := (contexts g)(n \<mapsto> \<lparr>prev_timestamp = left_over, coro_work_time = work_time\<rparr>),
          next_context := Suc n\<rparr>))"

definition my_context_delete :: "ptr \<Rightarrow> program \<Rightarrow> program res" where
  "my_context_delete ctx g =
     bindR (load (contexts g) ctx) (\<lambda>x.
     bindR (release (times g) (coro_work_time x)) (\<lambda>ts.
     bindR (release ts (prev_timestamp x)) (\<lambda>ts.
     bindR (release (contexts g) ctx) (\<lambda>cs.
     ret (g\<lparr>times := ts, contexts := cs\<rparr>)))))"

definition set_coro_timestamp :: "ptr \<Rightarrow> program \<Rightarrow> program res" where
  "set_coro_timestamp ctx g =
     (let (now, g) = clock_gettime g; (timestamp, g) = malloc_time now g in
      bindR (load (contexts g) ctx) (\<lambda>x.
      bindR (release (times g) (prev_timestamp x)) (\<lambda>ts.
      bindR (store (contexts g) ctx (\<lambda>x. x\<lparr>prev_timestamp := timestamp\<rparr>)) (\<lambda>cs.
      ret (g\<lparr>times := ts, contexts := cs\<rparr>)))))"

definition update_work_time :: "ptr \<Rightarrow> program \<Rightarrow> program res" where
  "update_work_time ctx g =
     (let (now, g) = clock_gettime g; (timestamp, g) = malloc_time now g in
      bindR (load (contexts g) ctx) (\<lambda>x.
      bindR (load (times g) (prev_timestamp x)) (\<lambda>prev.
      let (time_diff, g) = malloc_time (get_time_diff prev now) g in
      bindR (store (times g) (coro_work_time x) (\<lambda>work. update_coro_work_time prev now work)) (\<lambda>ts.
      bindR (release ts timestamp) (\<lambda>ts.
      bindR (release ts time_diff) (\<lambda>ts.
      ret (g\<lparr>times := ts\<rparr>)))))))"

section \<open>The coroutine\<close>

text \<open>The body of the loop: take the next file, read it and sort it.\<close>

definition take_file :: "program \<Rightarrow> (sorting \<times> program) res" where
  "take_file g =
     (let file_idx = next_file_idx g in
      if 0 \<le> file_idx \<and> file_idx < files_total g then
        let g = g\<lparr>next_file_idx := file_idx + 1\<rparr> in
        case disk g (filenames g ! nat file_idx) of
          None \<Rightarrow> fail NullDeref
        | Some f \<Rightarrow>
            bindR (read_numbers_from_file (heap_ints g) f) (\<lambda>read_data.
            bindR (get_sorted_numbers (heap_ints g) True (arr read_data) (len read_data)) (\<lambda>(sorted_data, events).
            ret ((file_idx, sorted_data, events), g)))
      else fail OutOfBounds)"

text \<open>The assignments to \<open>dest\<close> after the sort.\<close>

definition store_result :: "int \<Rightarrow> array_of_ints \<Rightarrow> program \<Rightarrow> program res" where
  "store_result file_idx sorted_data g =
     (if 0 \<le> file_idx \<and> file_idx < int (length (dests g))
      then ret (g\<lparr>dests := (dests g)[nat file_idx := Some sorted_data]\<rparr>) else fail OutOfBounds)"

partial_function (option) coro_loop :: "ptr \<Rightarrow> sorting option \<Rightarrow> program \<Rightarrow> ((cont + int) \<times> program) res" where
  "coro_loop ctx sorting g = (case sorting of
      None \<Rightarrow>
        if next_file_idx g < files_total g
        then bindR (take_file g) (\<lambda>(t, g). coro_loop ctx (Some t) g)
        else bindR (update_work_time ctx g) (\<lambda>g. bindR (my_context_delete ctx g) (\<lambda>g. ret (Inr 0, g)))
    | Some t \<Rightarrow> (case snd (snd t) of
        [] \<Rightarrow> bindR (store_result (fst t) (fst (snd t)) g) (\<lambda>g. coro_loop ctx None g)
      | e # events \<Rightarrow> (case e of
          CoroYield \<Rightarrow> ret (Inl (Resume ctx (fst t, fst (snd t), events)), g)
        | UpdateWorkTime \<Rightarrow>
            bindR (update_work_time ctx g) (\<lambda>g. coro_loop ctx (Some (fst t, fst (snd t), events)) g)
        | SetTimestamp \<Rightarrow>
            bindR (set_coro_timestamp ctx g) (\<lambda>g. coro_loop ctx (Some (fst t, fst (snd t), events)) g))))"

text \<open>What \<open>coroutine_func_f\<close> does from one switch to the next.\<close>

definition coroutine_func_f :: "cont \<Rightarrow> program \<Rightarrow> ((cont + int) \<times> program) res" where
  "coroutine_func_f k g = (case k of
      Begin ctx \<Rightarrow> bindR (set_coro_timestamp ctx g) (\<lambda>g. coro_loop ctx None g)
    | Resume ctx t \<Rightarrow> coro_loop ctx (Some t) g)"

section \<open>main\<close>

fun create_coros :: "nat \<Rightarrow> nat \<Rightarrow> ptr \<Rightarrow> (cont, program) coros \<Rightarrow> (cont, program) coros res" where
  "create_coros 0 usable left_over s = ret s"
| "create_coros (Suc n) usable left_over s =
     bindR (my_context_new usable left_over (shared s)) (\<lambda>(ctx, g).
     bindR (coro_new (Begin ctx) (s\<lparr>shared := g\<rparr>)) (\<lambda>(c, s). create_coros n usable left_over s))"

text \<open>The results are read back; one that was never stored is uninitialised memory.\<close>

fun sum_lengths :: "array_of_ints option list \<Rightarrow> int res" where
  "sum_lengths [] = ret 0"
| "sum_lengths (d # ds) = (case d of
      None \<Rightarrow> fail UninitRead
    | Some a \<Rightarrow> bindR (sum_lengths ds) (\<lambda>n. ret (len a + n)))"

fun copy_results :: "array_of_ints option list \<Rightarrow> int \<Rightarrow> int list \<Rightarrow> int list res" where
  "copy_results [] idx all_numbers = ret all_numbers"
| "copy_results (d # ds) idx all_numbers = (case d of
      None \<Rightarrow> fail UninitRead
    | Some a \<Rightarrow> bindR (copy_ints all_numbers idx (arr a) (len a)) (\<lambda>all_numbers.
        copy_results ds (idx + len a) all_numbers))"

text \<open>
  The argument \<open>coros_total\<close> is \<open>atoi(argv[1])\<close>, \<open>ker\<close> the signal state in which the process starts;
  the result is the content of result.txt, the time \<open>main\<close> prints and the final state.
\<close>

definition program_start :: "string list \<Rightarrow> (string \<Rightarrow> text_file option) \<Rightarrow> (nat \<Rightarrow> int) \<Rightarrow> (nat \<Rightarrow> timespec) \<Rightarrow> program" where
  "program_start names dsk fil clk = \<lparr>filenames = names, disk = dsk, heap_ints = fil, clock = clk, ticks = 0,
     times = Map.empty, next_time = 0, contexts = Map.empty, next_context = 0,
     next_file_idx = 0, dests = replicate (length names) None\<rparr>"

definition main_report :: "ptr \<Rightarrow> program \<Rightarrow> (timespec \<times> program) res" where
  "main_report program_start_timestamp g =
     (let (now, g) = clock_gettime g; (program_end_timestamp, g) = malloc_time now g in
      bindR (load (times g) program_start_timestamp) (\<lambda>start.
      let (program_work_time, g) = malloc_time (get_time_diff start now) g in
      bindR (load (times g) program_work_time) (\<lambda>shown.
      bindR (release (times g) program_start_timestamp) (\<lambda>ts.
      bindR (release ts program_end_timestamp) (\<lambda>ts.
      bindR (release ts program_work_time) (\<lambda>ts.
      ret (shown, g\<lparr>times := ts\<rparr>)))))))"

definition sort_main :: "kernel \<Rightarrow> int \<Rightarrow> string list \<Rightarrow> (string \<Rightarrow> text_file option) \<Rightarrow> (nat \<Rightarrow> int) \<Rightarrow> (nat \<Rightarrow> timespec)
    \<Rightarrow> nat \<Rightarrow> ptr \<Rightarrow> (int list \<times> timespec \<times> (cont, program) coros) res" where
  "sort_main ker coros_total names dsk fil clk usable left_over =
     (let (now, g) = clock_gettime (program_start names dsk fil clk);
          (program_start_timestamp, g) = malloc_time now g;
          s = coro_sched_init (coro_static ker g) in
      bindR (create_coros (nat coros_total) usable left_over s) (\<lambda>s.
      bindR (wait_all coroutine_func_f s) (\<lambda>s.
      let destinations = dests (shared s) in
      bindR (sum_lengths destinations) (\<lambda>final_length.
      bindR (copy_results destinations 0 (malloc_ints fil final_length)) (\<lambda>all_numbers.
      bindR (get_sorted_numbers fil False all_numbers final_length) (\<lambda>(result, events).
      bindR (write_numbers_to_file (arr result) (len result)) (\<lambda>written.
      bindR (main_report program_start_timestamp (shared s)) (\<lambda>(shown, g).
      ret (written, shown, s\<lparr>shared := g\<rparr>)))))))))"

lemmas coro_loop_unfold [code] = coro_loop.simps

end
