(* ===== verification/Owned_Heap.thy ===== *)
theory Owned_Heap
  imports Prelude "HOL-Library.Multiset"
begin

text \<open>
  Ownership of heap objects: \<open>heap_is h M\<close> says that the objects of \<open>h\<close> are exactly those of the
  multiset \<open>M\<close> of addresses, which therefore has every address once. When \<open>M\<close> is the sum of what the
  parts of a program own, the parts own different objects, and when it is empty nothing leaks.
\<close>

definition heap_is :: "(nat \<rightharpoonup> 'a) \<Rightarrow> nat multiset \<Rightarrow> bool" where
  "heap_is h M \<longleftrightarrow> finite (dom h) \<and> mset_set (dom h) = M"

lemma heap_is_dom: "heap_is h M \<Longrightarrow> dom h = set_mset M"
  by (auto simp: heap_is_def)

lemma heap_is_count: "heap_is h M \<Longrightarrow> count M a \<le> 1"
  by (auto simp: heap_is_def count_mset_set')

lemma heap_is_empty [simp]: "heap_is h {#} \<longleftrightarrow> h = Map.empty"
  by (auto simp: heap_is_def mset_set_empty_iff)

lemma heap_is_mem:
  assumes "heap_is h (add_mset a M)"
  shows "\<exists>x. h a = Some x" "a \<notin># M"
proof -
  have "a \<in> dom h" using heap_is_dom [OF assms] by simp
  then show "\<exists>x. h a = Some x" by auto
  from heap_is_count [OF assms, of a] show "a \<notin># M" by (simp add: not_in_iff)
qed

lemma heap_is_alloc: "heap_is h M \<Longrightarrow> h a = None \<Longrightarrow> heap_is (h(a \<mapsto> x)) (add_mset a M)"
  by (simp add: heap_is_def domIff del: fun_upd_apply)

lemma heap_is_upd: "heap_is h M \<Longrightarrow> h a \<noteq> None \<Longrightarrow> heap_is (h(a \<mapsto> x)) M"
  by (simp add: heap_is_def insert_absorb domIff del: fun_upd_apply)

lemma heap_is_drop: "heap_is h (add_mset a M) \<Longrightarrow> heap_is (h(a := None)) M"
  by (auto simp: heap_is_def mset_set_Diff domIff simp del: fun_upd_apply)
    (metis add_mset_remove_trivial heap_is_def heap_is_mem(1) domI mset_set.remove)

lemma heap_is_disjoint:
  assumes "heap_is h (M + N)" "a \<in># M"
  shows "a \<notin># N"
proof -
  have "count M a + count N a \<le> 1" using heap_is_count [OF assms(1), of a] by simp
  moreover have "0 < count M a" using assms(2) by simp
  ultimately have "count N a = 0" by linarith
  then show ?thesis by (simp add: not_in_iff)
qed

definition ptr_mset :: "ptr \<Rightarrow> nat multiset" where
  "ptr_mset p = (case p of Ptr a \<Rightarrow> {#a#} | _ \<Rightarrow> {#})"

lemma ptr_mset_simps [simp]: "ptr_mset (Ptr a) = {#a#}" "ptr_mset Null = {#}" "ptr_mset Junk = {#}"
  by (simp_all add: ptr_mset_def)

end
