(* ===== verification/Sort_Memory.thy ===== *)
theory Sort_Memory
  imports Sort_Main_Model Owned_Heap
begin

text \<open>
  The memory of the contexts: a context owns its work time and its last time stamp. The functions
  of solution.c that keep the time free what they allocate, except for the new time stamp, which
  replaces the old one.
\<close>

definition ctx_times :: "my_context \<Rightarrow> nat multiset" where
  "ctx_times x = ptr_mset (prev_timestamp x) + ptr_mset (coro_work_time x)"

definition fresh_times :: "program \<Rightarrow> bool" where
  "fresh_times g \<longleftrightarrow> (\<forall>a \<ge> next_time g. times g a = None)"

text \<open>
  The context at \<open>n\<close> is live, with a time stamp if \<open>stamped\<close>; \<open>T\<close> are the time objects of the others.
\<close>

definition owns :: "bool \<Rightarrow> program \<Rightarrow> nat \<Rightarrow> nat multiset \<Rightarrow> bool" where
  "owns stamped g n T \<longleftrightarrow> (\<exists>x w. contexts g n = Some x \<and> coro_work_time x = Ptr w
     \<and> (if stamped then \<exists>p. prev_timestamp x = Ptr p else prev_timestamp x = Null)
     \<and> heap_is (times g) (ctx_times x + T)) \<and> fresh_times g"

text \<open>What the memory operations leave alone: the data of the program, and the contexts but for one.\<close>

definition same_data :: "program \<Rightarrow> program \<Rightarrow> bool" where
  "same_data g g' \<longleftrightarrow> filenames g' = filenames g \<and> disk g' = disk g \<and> heap_ints g' = heap_ints g
     \<and> next_file_idx g' = next_file_idx g \<and> dests g' = dests g"

definition same_ctx :: "nat \<Rightarrow> program \<Rightarrow> program \<Rightarrow> bool" where
  "same_ctx n g g' \<longleftrightarrow> next_context g' = next_context g
     \<and> contexts g' = (contexts g)(n := contexts g' n) \<and> (contexts g' n = None \<longleftrightarrow> contexts g n = None)"

definition same_but :: "nat \<Rightarrow> program \<Rightarrow> program \<Rightarrow> bool" where
  "same_but n g g' \<longleftrightarrow> same_data g g' \<and> same_ctx n g g'"

lemma same_data_trans: "same_data g g1 \<Longrightarrow> same_data g1 g2 \<Longrightarrow> same_data g g2"
  by (simp add: same_data_def)

lemma same_ctx_trans: "same_ctx n g g1 \<Longrightarrow> same_ctx n g1 g2 \<Longrightarrow> same_ctx n g g2"
  by (simp add: same_ctx_def) (metis fun_upd_upd)

lemma same_ctx_refl [simp]:
  "same_ctx n g g" "same_ctx n (g\<lparr>next_file_idx := i\<rparr>) g' = same_ctx n g g'"
  "same_ctx n g (g'\<lparr>dests := ds\<rparr>) = same_ctx n g g'"
  by (simp_all add: same_ctx_def)

lemma same_but_refl [simp]: "same_but n g g"
  by (simp add: same_but_def same_data_def)

lemma same_but_trans: "same_but n g g1 \<Longrightarrow> same_but n g1 g2 \<Longrightarrow> same_but n g g2"
  unfolding same_but_def by (blast intro: same_data_trans same_ctx_trans)

lemma owns_data [simp]:
  "owns st (g\<lparr>next_file_idx := i\<rparr>) n T = owns st g n T" "owns st (g\<lparr>dests := ds\<rparr>) n T = owns st g n T"
  by (simp_all add: owns_def fresh_times_def)

lemma fresh_times_notin: "fresh_times g \<Longrightarrow> heap_is (times g) M \<Longrightarrow> next_time g \<notin># M"
  using heap_is_dom [of "times g" M] by (auto simp: fresh_times_def)

lemma set_coro_timestamp_ok:
  assumes "owns st g n T"
  shows "\<exists>g'. set_coro_timestamp (Ptr n) g = ret g' \<and> owns True g' n T \<and> same_but n g g'"
proof -
  obtain x w where x: "contexts g n = Some x" "coro_work_time x = Ptr w"
    "if st then \<exists>p. prev_timestamp x = Ptr p else prev_timestamp x = Null"
    "heap_is (times g) (ctx_times x + T)" "fresh_times g"
    using assms by (auto simp: owns_def)
  let ?t = "next_time g" and ?now = "clock g (ticks g)"
  let ?x = "x\<lparr>prev_timestamp := Ptr ?t\<rparr>"
  have new: "heap_is ((times g)(?t \<mapsto> ?now)) (add_mset ?t (ctx_times x + T))"
    by (rule heap_is_alloc) (use x(4,5) in \<open>simp_all add: fresh_times_def\<close>)
  obtain ts where ts: "release ((times g)(?t \<mapsto> ?now)) (prev_timestamp x) = ret ts"
    "heap_is ts (ctx_times ?x + T)" "\<forall>a \<ge> Suc ?t. ts a = None"
  proof (cases st)
    case True
    with x(3) obtain p where p: "prev_timestamp x = Ptr p" by auto
    from new have new': "heap_is ((times g)(?t \<mapsto> ?now)) (add_mset p (ctx_times ?x + T))"
      using p x(2) by (simp add: ctx_times_def add_mset_commute)
    from heap_is_mem(1) [OF this] obtain y where "((times g)(?t \<mapsto> ?now)) p = Some y" by blast
    with p heap_is_drop [OF new'] x(5) show ?thesis
      by (intro that [of "((times g)(?t \<mapsto> ?now))(p := None)"]) (simp_all add: fresh_times_def del: fun_upd_apply, simp)
  next
    case False
    with x new show ?thesis
      by (intro that [of "(times g)(?t \<mapsto> ?now)"]) (simp_all add: fresh_times_def ctx_times_def add_mset_commute)
  qed
  let ?g = "g\<lparr>ticks := Suc (ticks g), next_time := Suc ?t, times := ts, contexts := (contexts g)(n \<mapsto> ?x)\<rparr>"
  have "set_coro_timestamp (Ptr n) g = ret ?g"
    using x(1) ts(1) by (simp add: set_coro_timestamp_def clock_gettime_def malloc_time_def)
  moreover have "owns True ?g n T" using ts(2,3) x(2) by (simp add: owns_def fresh_times_def)
  ultimately show ?thesis using x(1) by (intro exI [of _ ?g]) (simp add: same_but_def same_data_def same_ctx_def)
qed

lemma update_work_time_ok:
  assumes "owns True g n T"
  shows "\<exists>g'. update_work_time (Ptr n) g = ret g' \<and> owns True g' n T \<and> same_but n g g'"
proof -
  obtain x w p where x: "contexts g n = Some x" "coro_work_time x = Ptr w" "prev_timestamp x = Ptr p"
    "heap_is (times g) (add_mset p (add_mset w T))" "fresh_times g"
    using assms by (auto simp: owns_def ctx_times_def add_mset_commute)
  let ?t = "next_time g" and ?now = "clock g (ticks g)"
  from heap_is_mem(1) [OF x(4)] obtain prev where prev: "times g p = Some prev" by blast
  from x(4) have "heap_is (times g) (add_mset w (add_mset p T))" by (simp add: add_mset_commute)
  from heap_is_mem(1) [OF this] obtain work where work: "times g w = Some work" by blast
  have ne: "p \<noteq> ?t" "w \<noteq> ?t" "p \<noteq> Suc ?t" "w \<noteq> Suc ?t"
    using prev work x(5) by (auto simp: fresh_times_def)
  let ?work = "update_coro_work_time prev ?now work"
  have gone: "((times g)(?t \<mapsto> ?now, Suc ?t \<mapsto> d, w \<mapsto> ?work))(?t := None, Suc ?t := None) = (times g)(w \<mapsto> ?work)" for d
    using ne x(5) by (auto simp: fresh_times_def fun_eq_iff)
  let ?g = "g\<lparr>ticks := Suc (ticks g), next_time := Suc (Suc ?t), times := (times g)(w \<mapsto> ?work)\<rparr>"
  have "update_work_time (Ptr n) g = ret ?g"
    using x(1,2,3) prev work ne gone
    by (simp add: update_work_time_def clock_gettime_def malloc_time_def del: fun_upd_apply)
      (simp add: gone [simplified])
  moreover have "heap_is ((times g)(w \<mapsto> ?work)) (add_mset p (add_mset w T))"
    by (rule heap_is_upd [OF x(4)]) (simp add: work)
  then have "owns True ?g n T"
    using x work by (auto simp: owns_def ctx_times_def fresh_times_def add_mset_commute)
  ultimately show ?thesis by (intro exI [of _ ?g]) (simp add: same_but_def same_data_def same_ctx_def)
qed

lemma my_context_delete_ok:
  assumes "owns st g n T"
  shows "\<exists>g'. my_context_delete (Ptr n) g = ret g' \<and> heap_is (times g') T \<and> fresh_times g'
    \<and> same_data g g' \<and> contexts g' = (contexts g)(n := None) \<and> next_context g' = next_context g"
proof -
  obtain x w where x: "contexts g n = Some x" "coro_work_time x = Ptr w"
    "if st then \<exists>p. prev_timestamp x = Ptr p else prev_timestamp x = Null"
    "heap_is (times g) (add_mset w (ptr_mset (prev_timestamp x) + T))" "fresh_times g"
    using assms by (auto simp: owns_def ctx_times_def)
  from heap_is_mem(1) [OF x(4)] obtain work where work: "times g w = Some work" by blast
  note rest = heap_is_drop [OF x(4)]
  obtain ts where ts: "release ((times g)(w := None)) (prev_timestamp x) = ret ts" "heap_is ts T"
    "\<forall>a \<ge> next_time g. ts a = None"
  proof (cases st)
    case True
    with x(3) obtain p where p: "prev_timestamp x = Ptr p" by auto
    from rest p have r: "heap_is ((times g)(w := None)) (add_mset p T)" by simp
    from heap_is_mem(1) [OF this] obtain y where "((times g)(w := None)) p = Some y" by blast
    with p heap_is_drop [OF r] x(5) show ?thesis
      by (intro that [of "(times g)(w := None, p := None)"]) (simp_all add: fresh_times_def del: fun_upd_apply, simp)
  next
    case False
    with x rest show ?thesis by (intro that [of "(times g)(w := None)"]) (simp_all add: fresh_times_def)
  qed
  let ?g = "g\<lparr>times := ts, contexts := (contexts g)(n := None)\<rparr>"
  have "my_context_delete (Ptr n) g = ret ?g" using x(1,2) work ts(1) by (simp add: my_context_delete_def)
  then show ?thesis using ts(2,3) by (intro exI [of _ ?g]) (simp add: fresh_times_def same_data_def)
qed

lemma my_context_new_ok:
  assumes "16 \<le> usable" "heap_is (times g) T" "fresh_times g"
  shows "\<exists>ts w. my_context_new usable left_over g = ret (Ptr (next_context g),
      g\<lparr>times := ts, next_time := Suc (next_time g), next_context := Suc (next_context g),
        contexts := (contexts g)(next_context g \<mapsto> \<lparr>prev_timestamp = left_over, coro_work_time = Ptr w\<rparr>)\<rparr>)
    \<and> heap_is ts (add_mset w T) \<and> (\<forall>a \<ge> Suc (next_time g). ts a = None)"
proof -
  let ?t0 = "\<lparr>tv_sec = 0, tv_nsec = 0\<rparr> :: timespec"
  have "heap_is ((times g)(next_time g \<mapsto> ?t0)) (add_mset (next_time g) T)"
    by (rule heap_is_alloc [OF assms(2)]) (use assms(3) in \<open>simp add: fresh_times_def\<close>)
  with assms(1,3) show ?thesis
    by (intro exI [of _ "(times g)(next_time g \<mapsto> ?t0)"] exI [of _ "next_time g"])
      (simp add: my_context_new_def malloc_time_def fresh_times_def Let_def)
qed

section \<open>The contexts of all coroutines\<close>

fun is_sorting :: "cont \<Rightarrow> bool" where
  "is_sorting (Begin c) = False"
| "is_sorting (Resume c t) = True"

fun ctx_ptr :: "cont \<Rightarrow> ptr" where
  "ctx_ptr (Begin c) = c"
| "ctx_ptr (Resume c t) = c"

definition ctx_addr :: "cont \<Rightarrow> nat" where
  "ctx_addr k = (case ctx_ptr k of Ptr a \<Rightarrow> a | _ \<Rightarrow> 0)"

definition cont_times :: "program \<Rightarrow> cont \<Rightarrow> nat multiset" where
  "cont_times g k = ctx_times (the (contexts g (ctx_addr k)))"

definition ctx_good :: "program \<Rightarrow> cont \<Rightarrow> bool" where
  "ctx_good g k \<longleftrightarrow> (\<exists>a x w. ctx_ptr k = Ptr a \<and> contexts g a = Some x \<and> coro_work_time x = Ptr w
     \<and> (if is_sorting k then \<exists>p. prev_timestamp x = Ptr p else prev_timestamp x = Null))"

lemma ctx_good_cong:
  assumes "ctx_good g k" "contexts g' (ctx_addr k) = contexts g (ctx_addr k)"
  shows "ctx_good g' k"
proof -
  from assms(1) obtain b x w where b: "ctx_ptr k = Ptr b" "contexts g b = Some x" "coro_work_time x = Ptr w"
    "if is_sorting k then \<exists>p. prev_timestamp x = Ptr p else prev_timestamp x = Null"
    by (auto simp: ctx_good_def)
  with assms(2) have "contexts g' b = Some x" by (simp add: ctx_addr_def)
  with b show ?thesis by (simp add: ctx_good_def)
qed

text \<open>
  Every coroutine has a context of its own, and the time objects are those of the contexts and
  those of \<open>main\<close> (\<open>B\<close>).
\<close>

definition mem_inv :: "nat multiset \<Rightarrow> cont multiset \<Rightarrow> program \<Rightarrow> bool" where
  "mem_inv B M g \<longleftrightarrow> heap_is (contexts g) (image_mset ctx_addr M)
     \<and> heap_is (times g) (B + (\<Sum>k \<in># M. cont_times g k)) \<and> fresh_times g
     \<and> (\<forall>a \<ge> next_context g. contexts g a = None) \<and> (\<forall>k \<in># M. ctx_good g k)"

lemma mem_inv_owns:
  assumes "mem_inv B (add_mset k M) g"
  shows "\<exists>a. ctx_ptr k = Ptr a \<and> ctx_addr k = a \<and> owns (is_sorting k) g a (B + (\<Sum>k \<in># M. cont_times g k))"
proof -
  obtain a x w where a: "ctx_ptr k = Ptr a" "contexts g a = Some x" "coro_work_time x = Ptr w"
    "if is_sorting k then \<exists>p. prev_timestamp x = Ptr p else prev_timestamp x = Null"
    using assms by (auto simp: mem_inv_def ctx_good_def)
  have "ctx_addr k = a" using a(1) by (simp add: ctx_addr_def)
  moreover have "heap_is (times g) (ctx_times x + (B + (\<Sum>k \<in># M. cont_times g k)))"
    using assms a(2) \<open>ctx_addr k = a\<close> by (simp add: mem_inv_def cont_times_def ac_simps)
  ultimately show ?thesis using a assms by (simp add: owns_def mem_inv_def)
qed

text \<open>The contexts of the others are elsewhere.\<close>

lemma mem_inv_others:
  assumes inv: "mem_inv B (add_mset k M) g" and a: "ctx_ptr k = Ptr a"
    and eq: "\<And>b. b \<noteq> a \<Longrightarrow> contexts g' b = contexts g b"
  shows "(\<Sum>k \<in># M. cont_times g' k) = (\<Sum>k \<in># M. cont_times g k)" "\<forall>k \<in># M. ctx_good g' k"
proof -
  have k: "ctx_addr k = a" using a by (simp add: ctx_addr_def)
  have "heap_is (contexts g) (add_mset a (image_mset ctx_addr M))" using inv k by (simp add: mem_inv_def)
  from heap_is_mem(2) [OF this] have ne: "l \<in># M \<Longrightarrow> ctx_addr l \<noteq> a" for l by auto
  show "(\<Sum>k \<in># M. cont_times g' k) = (\<Sum>k \<in># M. cont_times g k)"
    using ne eq by (intro arg_cong [where f = sum_mset] image_mset_cong) (simp add: cont_times_def)
  show "\<forall>k \<in># M. ctx_good g' k"
  proof
    fix l assume l: "l \<in># M"
    then have "ctx_good g l" using inv by (simp add: mem_inv_def)
    then show "ctx_good g' l" by (rule ctx_good_cong) (simp add: eq ne [OF l])
  qed
qed

lemma mem_inv_step:
  assumes inv: "mem_inv B (add_mset k M) g" and a: "ctx_ptr k = Ptr a" "ctx_ptr k' = Ptr a"
    and own: "owns (is_sorting k') g' a (B + (\<Sum>k \<in># M. cont_times g k))" and same: "same_ctx a g g'"
  shows "mem_inv B (add_mset k' M) g'"
proof -
  obtain x w where x: "contexts g' a = Some x" "coro_work_time x = Ptr w"
    "if is_sorting k' then \<exists>p. prev_timestamp x = Ptr p else prev_timestamp x = Null"
    "heap_is (times g') (ctx_times x + (B + (\<Sum>k \<in># M. cont_times g k)))" "fresh_times g'"
    using own by (auto simp: owns_def)
  have addr: "ctx_addr k = a" "ctx_addr k' = a" using a by (simp_all add: ctx_addr_def)
  have cs: "contexts g' = (contexts g)(a \<mapsto> x)" using same x(1) by (simp add: same_ctx_def)
  have alive: "contexts g a \<noteq> None" using same x(1) by (simp add: same_ctx_def)
  then have "a < next_context g" using inv by (auto simp: mem_inv_def intro: ccontr)
  have "b \<noteq> a \<Longrightarrow> contexts g' b = contexts g b" for b unfolding cs by simp
  note others = mem_inv_others [OF inv a(1) this]
  have "heap_is (contexts g') (add_mset a (image_mset ctx_addr M))"
    unfolding cs using inv addr alive by (intro heap_is_upd) (simp_all add: mem_inv_def)
  moreover have "heap_is (times g') (B + (cont_times g' k' + (\<Sum>k \<in># M. cont_times g' k)))"
    using x(1,4) addr(2) others(1) by (simp add: cont_times_def ac_simps)
  moreover have "ctx_good g' k'" using x a(2) by (simp add: ctx_good_def)
  moreover have "contexts g' b = None" if "next_context g \<le> b" for b
    using inv that \<open>a < next_context g\<close> unfolding cs by (auto simp: mem_inv_def)
  ultimately show ?thesis
    using others(2) x(5) same addr(2) by (simp add: mem_inv_def same_ctx_def)
qed

lemma mem_inv_end:
  assumes inv: "mem_inv B (add_mset k M) g" and a: "ctx_ptr k = Ptr a"
    and times: "heap_is (times g') (B + (\<Sum>k \<in># M. cont_times g k))" "fresh_times g'"
    and cs: "contexts g' = (contexts g)(a := None)" "next_context g' = next_context g"
  shows "mem_inv B M g'"
proof -
  have "b \<noteq> a \<Longrightarrow> contexts g' b = contexts g b" for b unfolding cs by simp
  note others = mem_inv_others [OF inv a this]
  have "heap_is (contexts g) (add_mset a (image_mset ctx_addr M))" using inv a by (simp add: mem_inv_def ctx_addr_def)
  from heap_is_drop [OF this] have "heap_is (contexts g') (image_mset ctx_addr M)" unfolding cs .
  with others times cs inv show ?thesis by (simp add: mem_inv_def)
qed

lemma mem_inv_new:
  assumes "16 \<le> usable" "mem_inv B M g"
  shows "\<exists>p g'. my_context_new usable Null g = ret (p, g') \<and> mem_inv B (add_mset (Begin p) M) g'
    \<and> same_data g g'"
proof -
  let ?n = "next_context g" and ?T = "\<lambda>g. \<Sum>k \<in># M. cont_times g k"
  have T: "heap_is (times g) (B + ?T g)" "fresh_times g" using assms(2) by (simp_all add: mem_inv_def)
  obtain ts w where new: "my_context_new usable Null g = ret (Ptr ?n,
      g\<lparr>times := ts, next_time := Suc (next_time g), next_context := Suc ?n,
        contexts := (contexts g)(?n \<mapsto> \<lparr>prev_timestamp = Null, coro_work_time = Ptr w\<rparr>)\<rparr>)"
    "heap_is ts (add_mset w (B + ?T g))" "\<forall>a \<ge> Suc (next_time g). ts a = None"
    using my_context_new_ok [OF assms(1) T, of Null] by blast
  let ?x = "\<lparr>prev_timestamp = Null, coro_work_time = Ptr w\<rparr>"
  define g' where "g' = g\<lparr>times := ts, next_time := Suc (next_time g), next_context := Suc ?n, contexts := (contexts g)(?n \<mapsto> ?x)\<rparr>"
  have fields: "contexts g' = (contexts g)(?n \<mapsto> ?x)" "next_context g' = Suc ?n" "same_data g g'" "times g' = ts" "fresh_times g'"
    using new(3) by (simp_all add: g'_def fresh_times_def same_data_def)
  have fresh: "contexts g ?n = None" using assms(2) by (simp add: mem_inv_def)
  have ne: "ctx_addr k \<noteq> ?n" if "k \<in># M" for k
  proof -
    have "ctx_good g k" using assms(2) that by (simp add: mem_inv_def)
    with fresh show ?thesis by (auto simp: ctx_good_def ctx_addr_def)
  qed
  have "?T g' = ?T g"
    using ne unfolding fields by (intro arg_cong [where f = sum_mset] image_mset_cong) (simp add: cont_times_def fields)
  moreover have "ctx_good g' k" if "k \<in># M" for k
  proof -
    have "ctx_good g k" using assms(2) that by (simp add: mem_inv_def)
    then show ?thesis by (rule ctx_good_cong) (simp add: fields ne [OF that])
  qed
  moreover have "heap_is (contexts g') (add_mset ?n (image_mset ctx_addr M))"
    unfolding fields using assms(2) fresh by (intro heap_is_alloc) (simp_all add: mem_inv_def)
  moreover have "ctx_addr (Begin (Ptr ?n)) = ?n" "cont_times g' (Begin (Ptr ?n)) = {#w#}"
    by (simp_all add: ctx_addr_def cont_times_def fields ctx_times_def)
  moreover have "ctx_good g' (Begin (Ptr ?n))" by (simp add: ctx_good_def fields)
  moreover have "\<forall>a \<ge> Suc ?n. contexts g' a = None" using assms(2) by (simp add: fields mem_inv_def)
  ultimately have "mem_inv B (add_mset (Begin (Ptr ?n)) M) g'"
    using new(2) fields by (simp add: mem_inv_def)
  with new(1) fields show ?thesis unfolding g'_def [symmetric] by blast
qed

end
