(* ===== verification/Msort.thy ===== *)
theory Msort
  imports Msort_Model
begin

text \<open>
  The functions of Msort_Model are correct: the merge loop writes the sorted merge over the
  whole result buffer, the recursive sort sorts, the clock arithmetic is exact; and what
  \<open>read_numbers_from_file\<close> returns, the cell it never wrote included.
\<close>

section \<open>Arrays\<close>

lemma get_at_append [simp]: "i = int (length us) \<Longrightarrow> get_at (us @ x # vs) i = ret x"
  by (simp add: get_at_def)

lemma put_at_append [simp]: "i = int (length us) \<Longrightarrow> put_at (us @ x # vs) i v = ret (us @ v # vs)"
  by (simp add: put_at_def)

lemma length_malloc_ints [simp]: "length (malloc_ints fill n) = nat n"
  by (simp add: malloc_ints_def)

section \<open>Merging\<close>

fun merge :: "int list \<Rightarrow> int list \<Rightarrow> int list" where
  "merge [] rs = rs"
| "merge ls [] = ls"
| "merge (l # ls) (r # rs) = (if l \<le> r then l # merge ls (r # rs) else r # merge (l # ls) rs)"

lemma merge_Nil [simp]: "merge ls [] = ls"
  by (cases ls) simp_all

lemma mset_merge [simp]: "mset (merge ls rs) = mset ls + mset rs"
  by (induction ls rs rule: merge.induct) simp_all

lemma length_merge [simp]: "length (merge ls rs) = length ls + length rs"
  by (induction ls rs rule: merge.induct) simp_all

lemma sorted_merge: "sorted ls \<Longrightarrow> sorted rs \<Longrightarrow> sorted (merge ls rs)"
proof (induction ls rs rule: merge.induct)
  case (3 l ls r rs)
  have "set (merge ls rs) = set ls \<union> set rs" for ls rs
    by (metis mset_merge set_mset_mset set_mset_union)
  with 3 show ?case by auto
qed simp_all

lemma merge_is_sort: "sorted ls \<Longrightarrow> sorted rs \<Longrightarrow> merge ls rs = sort (ls @ rs)"
  by (rule properties_for_sort [symmetric]) (simp_all add: sorted_merge)

lemma merge_takeWhile:
  "merge (l # ls) rs = takeWhile (\<lambda>r. r < l) rs @ merge (l # ls) (dropWhile (\<lambda>r. r < l) rs)"
  by (induction rs) auto

lemma copy_tail_ok:
  assumes "length ss \<le> length rest" "idx = int (length pre)" "i = int (length sp)" "n = int (length (sp @ ss))"
  shows "copy_tail (pre @ rest) idx (sp @ ss) i n =
    ret (pre @ ss @ drop (length ss) rest, idx + int (length ss), n)"
  using assms
proof (induction ss arbitrary: pre rest idx sp i)
  case Nil
  then show ?case by (subst copy_tail.simps) simp
next
  case (Cons x ss)
  then obtain y rest' where rest: "rest = y # rest'" by (cases rest) auto
  have "copy_tail (pre @ rest) idx (sp @ x # ss) i n = copy_tail ((pre @ [x]) @ rest') (idx + 1) ((sp @ [x]) @ ss) (i + 1) n"
    using Cons.prems rest by (subst copy_tail.simps) simp
  then show ?case
    using Cons.IH [of rest' "idx + 1" "pre @ [x]" "i + 1" "sp @ [x]"] Cons.prems rest by simp
qed

lemma copy_less_ok:
  assumes "length rs \<le> length rest" "idx = int (length pre)" "r_idx = int (length rp)"
    "l_idx = int (length lp)" "n = int (length (rp @ rs))"
  shows "copy_less (pre @ rest) idx (lp @ l # ls) l_idx (rp @ rs) r_idx n =
    (let ts = takeWhile (\<lambda>r. r < l) rs in
     ret (pre @ ts @ drop (length ts) rest, idx + int (length ts), r_idx + int (length ts)))"
  using assms
proof (induction rs arbitrary: pre rest idx rp r_idx)
  case Nil
  then show ?case by (subst copy_less.simps) simp
next
  case (Cons r rs)
  then obtain y rest' where rest: "rest = y # rest'" by (cases rest) auto
  show ?case
  proof (cases "r < l")
    case True
    have "copy_less (pre @ rest) idx (lp @ l # ls) l_idx (rp @ r # rs) r_idx n =
      copy_less ((pre @ [r]) @ rest') (idx + 1) (lp @ l # ls) l_idx ((rp @ [r]) @ rs) (r_idx + 1) n"
      using Cons.prems rest True by (subst copy_less.simps) simp
    then show ?thesis
      using Cons.IH [of rest' "idx + 1" "pre @ [r]" "r_idx + 1" "rp @ [r]"] Cons.prems rest True
      by (simp add: Let_def)
  next
    case False
    then show ?thesis
      using Cons.prems by (subst copy_less.simps) simp
  qed
qed

lemma merge_loop_ok:
  assumes "length rest = length ls + length rs" "idx = int (length pre)"
    "l_idx = int (length lp)" "a_len = int (length (lp @ ls))"
    "r_idx = int (length rp)" "b_len = int (length (rp @ rs))"
  shows "merge_loop (pre @ rest) idx (lp @ ls) l_idx a_len (rp @ rs) r_idx b_len = ret (pre @ merge ls rs)"
  using assms
proof (induction "length ls + length rs" arbitrary: pre rest idx lp ls l_idx rp rs r_idx rule: less_induct)
  case less
  show ?case
  proof (cases ls)
    case Nil
    note ls = this
    show ?thesis
    proof (cases rs)
      case Nil
      with less.prems ls show ?thesis by (subst merge_loop.simps) simp
    next
      case (Cons r rs')
      have "merge_loop (pre @ rest) idx (lp @ ls) l_idx a_len (rp @ rs) r_idx b_len =
        merge_loop (pre @ rs) (idx + int (length rs)) (lp @ ls) l_idx a_len (rp @ rs) b_len b_len"
        using less.prems ls Cons copy_tail_ok [of rs rest idx pre r_idx rp b_len]
        by (subst merge_loop.simps) simp
      also have "\<dots> = ret (pre @ rs)"
        using less.prems ls by (subst merge_loop.simps) simp
      finally show ?thesis using ls by simp
    qed
  next
    case (Cons l ls')
    note ls = this
    show ?thesis
    proof (cases rs)
      case Nil
      have "merge_loop (pre @ rest) idx (lp @ ls) l_idx a_len (rp @ rs) r_idx b_len =
        merge_loop (pre @ ls) (idx + int (length ls)) (lp @ ls) a_len a_len (rp @ rs) r_idx b_len"
        using less.prems ls Nil copy_tail_ok [of ls rest idx pre l_idx lp a_len]
        by (subst merge_loop.simps) simp
      also have "\<dots> = ret (pre @ ls)"
        using less.prems Nil by (subst merge_loop.simps) simp
      finally show ?thesis using Nil by simp
    next
      case (Cons r rs')
      note rs = this
      obtain y rest' where rest: "rest = y # rest'" using less.prems(1) ls by (cases rest) auto
      show ?thesis
      proof (cases "l \<le> r")
        case True
        have "merge_loop (pre @ rest) idx (lp @ ls) l_idx a_len (rp @ rs) r_idx b_len =
          merge_loop ((pre @ [l]) @ rest') (idx + 1) ((lp @ [l]) @ ls') (l_idx + 1) a_len (rp @ rs) r_idx b_len"
          using less.prems True rest by (subst merge_loop.simps) (simp add: ls rs)
        also have "\<dots> = ret ((pre @ [l]) @ merge ls' rs)"
          by (rule less.hyps) (use less.prems ls rest in simp_all)
        finally show ?thesis using True ls rs by simp
      next
        case False
        let ?ts = "takeWhile (\<lambda>r. r < l) rs" and ?ds = "dropWhile (\<lambda>r. r < l) rs"
        have split: "rs = ?ts @ ?ds" and pos: "0 < length ?ts" using False rs by auto
        have len: "length rs = length ?ts + length ?ds" using split by (metis length_append)
        have "merge_loop (pre @ rest) idx (lp @ ls) l_idx a_len (rp @ rs) r_idx b_len =
          merge_loop ((pre @ ?ts) @ drop (length ?ts) rest) (idx + int (length ?ts)) (lp @ ls) l_idx a_len
            (rp @ rs) (r_idx + int (length ?ts)) b_len"
          using less.prems False copy_less_ok [of rs rest idx pre r_idx rp l_idx lp b_len l ls']
          by (subst merge_loop.simps) (simp add: ls rs Let_def)
        also have "\<dots> = merge_loop ((pre @ ?ts) @ drop (length ?ts) rest) (idx + int (length ?ts)) (lp @ ls) l_idx a_len
            ((rp @ ?ts) @ ?ds) (r_idx + int (length ?ts)) b_len"
          using split by simp
        also have "\<dots> = ret ((pre @ ?ts) @ merge ls ?ds)"
          by (rule less.hyps) (use less.prems len pos in simp_all)
        finally show ?thesis using merge_takeWhile [of l ls' rs] ls by simp
      qed
    qed
  qed
qed

lemma merge_sorted_arrays_ok:
  assumes "len a = int (length (arr a))" "len b = int (length (arr b))"
  shows "merge_sorted_arrays fill a b = ret \<lparr>arr = merge (arr a) (arr b), len = len a + len b\<rparr>"
  using merge_loop_ok [of "malloc_ints fill (len a + len b)" "arr a" "arr b" 0 "[]" 0 "[]" "len a" 0 "[]" "len b"] assms
  by (simp add: merge_sorted_arrays_def nat_add_distrib)

section \<open>Sorting\<close>

text \<open>What the sort needs of the merge.\<close>

locale merging =
  fixes mrg :: "int list \<Rightarrow> int list \<Rightarrow> int list"
  assumes mrg_mset: "mset (mrg xs ys) = mset xs + mset ys"
    and mrg_sorted: "sorted xs \<Longrightarrow> sorted ys \<Longrightarrow> sorted (mrg xs ys)"
begin

lemma mrg_sort: "mrg (sort xs) (sort ys) = sort (xs @ ys)"
  by (rule properties_for_sort [symmetric]) (simp_all add: mrg_mset mrg_sorted)

lemma mrg_split: "0 \<le> k \<Longrightarrow> k \<le> n \<Longrightarrow> mrg (sort (take k xs)) (sort (take (n - k) (drop k xs))) = sort (take n xs)"
  by (simp add: mrg_sort take_add [symmetric])

end

text \<open>The array that \<open>merge_sorted_arrays\<close> returns.\<close>

definition merged :: "(nat \<Rightarrow> int) \<Rightarrow> int list \<Rightarrow> int list \<Rightarrow> int list" where
  "merged fill xs ys =
     (case merge_sorted_arrays fill \<lparr>arr = xs, len = int (length xs)\<rparr> \<lparr>arr = ys, len = int (length ys)\<rparr> of
        Some (Inr r) \<Rightarrow> arr r | _ \<Rightarrow> [])"

lemma merged_eq: "merged fill xs ys = merge xs ys"
  by (simp add: merged_def merge_sorted_arrays_ok)

interpretation msort: merging "merged fill" for fill
  by unfold_locales (simp_all add: merged_eq sorted_merge)

lemma merge_sorted_arrays_merged:
  "length xs = i \<Longrightarrow> length ys = j \<Longrightarrow>
    merge_sorted_arrays fill \<lparr>arr = xs, len = int i\<rparr> \<lparr>arr = ys, len = int j\<rparr>
      = ret \<lparr>arr = merged fill xs ys, len = int (i + j)\<rparr>"
  by (auto simp add: merge_sorted_arrays_ok merged_eq)

text \<open>The number of times the sort of \<open>n\<close> numbers yields.\<close>

fun sort_yields :: "nat \<Rightarrow> nat" where
  "sort_yields n = (if n \<le> 2 then 1 else sort_yields (n div 2) + sort_yields (n - n div 2) + 1)"

declare sort_yields.simps [simp del]

lemma sort_events_yields [simp]: "count_list (sort_events ctx) CoroYield = 1"
  by (simp add: sort_events_def)

lemma sdiv_half: "int n sdiv 2 = int (n div 2)"
  by (simp add: signed_divide_int_def sgn_if zdiv_int)

lemma splice_at_all: "length xs = n \<Longrightarrow> splice_at 0 xs (map f [0..<n]) = xs"
  by (simp add: splice_at_def)

lemma two_ints: "2 \<le> length xs \<Longrightarrow> \<exists>x y zs. xs = x # y # zs"
  by (cases xs; cases "tl xs") auto

lemma sort_two:
  assumes "2 \<le> length xs"
  shows "bindR (copy_ints (malloc_ints fill 2) 0 xs 2) (\<lambda>sorted.
         bindR (get_at sorted 0) (\<lambda>x.
         bindR (get_at sorted 1) (\<lambda>y.
         bindR (if x > y then bindR (put_at sorted 0 y) (\<lambda>sorted. put_at sorted 1 x) else ret sorted) (\<lambda>sorted.
         ret (\<lparr>arr = sorted, len = 2\<rparr>, []))))) = ret (\<lparr>arr = sort (take 2 xs), len = 2\<rparr>, [] :: event list)"
proof -
  obtain x y zs where xs: "xs = x # y # zs" using two_ints [OF assms] by blast
  have "copy_ints (malloc_ints fill 2) 0 xs 2 = ret [x, y]"
    using splice_at_all [of "[x, y]" 2 fill] by (simp add: copy_ints_def malloc_ints_def xs numeral_2_eq_2)
  then show ?thesis by (auto simp: get_at_def put_at_def xs insort_key.simps)
qed

lemma get_sorted_numbers_ok:
  assumes "0 < n" "n \<le> length xs"
  shows "\<exists>events. get_sorted_numbers fill ctx xs (int n) = ret (\<lparr>arr = sort (take n xs), len = int n\<rparr>, events)
    \<and> count_list events CoroYield = sort_yields n"
  using assms
proof (induction n arbitrary: xs rule: less_induct)
  case (less n)
  consider "n = 1" | "n = 2" | "3 \<le> n" using less.prems(1) by linarith
  then show ?case
  proof cases
    case 1
    with less.prems obtain x zs where "xs = x # zs" by (cases xs) auto
    with 1 show ?thesis
      by (subst get_sorted_numbers.simps)
        (simp add: get_at_def put_at_def malloc_ints_def sort_yields.simps [of "Suc 0"])
  next
    case 2
    then show ?thesis
      using sort_two [of xs fill] less.prems
      by (subst get_sorted_numbers.simps) (simp add: sort_yields.simps [of 2])
  next
    case 3
    let ?l = "n div 2"
    have l: "0 < ?l" "?l < n" "?l \<le> length xs" and r: "0 < n - ?l" "n - ?l < n" "n - ?l \<le> length (drop ?l xs)"
      using 3 less.prems by auto
    obtain e1 where e1: "get_sorted_numbers fill ctx xs (int ?l) = ret (\<lparr>arr = sort (take ?l xs), len = int ?l\<rparr>, e1)"
      "count_list e1 CoroYield = sort_yields ?l"
      using less.IH [OF l(2,1,3)] by blast
    obtain e2 where e2: "get_sorted_numbers fill ctx (drop ?l xs) (int (n - ?l)) =
        ret (\<lparr>arr = sort (take (n - ?l) (drop ?l xs)), len = int (n - ?l)\<rparr>, e2)"
      "count_list e2 CoroYield = sort_yields (n - ?l)"
      using less.IH [OF r(2,1,3)] by blast
    have m: "merge_sorted_arrays fill \<lparr>arr = sort (take ?l xs), len = int ?l\<rparr>
        \<lparr>arr = sort (take (n - ?l) (drop ?l xs)), len = int (n - ?l)\<rparr> = ret \<lparr>arr = sort (take n xs), len = int n\<rparr>"
    proof -
      have "length (sort (take ?l xs)) = ?l" "length (sort (take (n - ?l) (drop ?l xs))) = n - ?l"
        using l r by simp_all
      note merge_sorted_arrays_merged [OF this, of fill]
      then show ?thesis using msort.mrg_split [of ?l n fill xs] l(2) by simp
    qed
    have "int n - int n sdiv 2 = int (n - ?l)" unfolding sdiv_half using l by simp
    moreover have "nat (int n sdiv 2) = ?l" by (simp add: sdiv_half)
    ultimately have "get_sorted_numbers fill ctx xs (int n) =
        ret (\<lparr>arr = sort (take n xs), len = int n\<rparr>, (e1 @ e2) @ sort_events ctx)"
      using 3 e1(1) e2(1) m sdiv_half [of n] by (subst get_sorted_numbers.simps) (simp add: Let_def)
    then show ?thesis using e1(2) e2(2) 3 by (simp add: sort_yields.simps [of n])
  qed
qed

text \<open>Sorting nothing does not return: both halves of an empty array are empty.\<close>

lemma get_sorted_numbers_diverges: "get_sorted_numbers fill ctx xs 0 = None"
proof (rule ccontr)
  let ?P = "\<lambda>(fill :: nat \<Rightarrow> int) (ctx :: bool) (xs :: int list) n (r :: ub + array_of_ints \<times> event list). n \<noteq> (0 :: int)"
  assume "get_sorted_numbers fill ctx xs 0 \<noteq> None"
  then obtain r where r: "get_sorted_numbers fill ctx xs 0 = Some r" by blast
  have "?P fill ctx xs 0 r"
  proof (rule get_sorted_numbers.raw_induct [where P = ?P, OF _ r])
    fix rec fill ctx xs and n :: int and r
    assume IH: "\<And>fill ctx xs n r. rec fill ctx xs n = Some r \<Longrightarrow> n \<noteq> 0"
      and body: "bindR
      (if n = 1 then
         bindR (get_at xs 0) (\<lambda>x. bindR (put_at (malloc_ints fill 1) 0 x) (\<lambda>p.
         ret (\<lparr>arr = p, len = 1\<rparr>, [])))
       else if n = 2 then
         bindR (copy_ints (malloc_ints fill 2) 0 xs 2) (\<lambda>sorted.
         bindR (get_at sorted 0) (\<lambda>x.
         bindR (get_at sorted 1) (\<lambda>y.
         bindR (if x > y then bindR (put_at sorted 0 y) (\<lambda>sorted. put_at sorted 1 x) else ret sorted) (\<lambda>sorted.
         ret (\<lparr>arr = sorted, len = 2\<rparr>, [])))))
       else
         let left_len = n sdiv 2; right_len = n - left_len in
         bindR (rec fill ctx xs left_len) (\<lambda>(left_sorted, left_events).
         bindR (rec fill ctx (drop (nat left_len) xs) right_len) (\<lambda>(right_sorted, right_events).
         bindR (merge_sorted_arrays fill left_sorted right_sorted) (\<lambda>result.
         ret (result, left_events @ right_events)))))
      (\<lambda>(result, events). ret (result, events @ sort_events ctx)) = Some r"
    have "rec fill ctx xs 0 = None" using IH [of fill ctx xs 0] by (cases "rec fill ctx xs 0") auto
    then show "n \<noteq> 0" using body by (cases "n = 0") (simp_all add: Let_def)
  qed
  then show False by simp
qed

section \<open>Reading\<close>

text \<open>
  The numbers of the file are stored in order; the buffer doubles before it is full, so there is
  always one more cell. The returned length counts that cell: the last element of the array
  is whatever the allocator left there.
\<close>

lemma copy_prefix:
  assumes "length us \<le> m"
  shows "copy_ints (malloc_ints fill (int m)) 0 (us @ vs) (int (length us)) = ret (us @ map fill [length us..<m])"
proof -
  have "drop (length us) (map fill [0..<m]) = map fill [length us..<m]"
    by (simp add: drop_map)
  then show ?thesis using assms by (simp add: copy_ints_def malloc_ints_def splice_at_def)
qed

lemma read_loop_ints_ok:
  assumes "length us < m" "numbers_left f = ns" "\<not> ends_with_junk f"
  shows "\<exists>m'. length (us @ ns) < m' \<and>
    read_loop_ints fill f (us @ map fill [length us..<m]) (int (length us)) (int m)
      = ret (us @ ns @ map fill [length (us @ ns)..<m'], int (length (us @ ns)))"
  using assms
proof (induction ns arbitrary: us m f)
  case Nil
  then show ?case
    by (intro exI [of _ m]) (subst read_loop_ints.simps, simp add: fscanf_d_def)
next
  case (Cons x ns)
  have cells: "map fill [length us..<m] = fill (length us) # map fill [Suc (length us)..<m]"
    using Cons.prems(1) by (simp add: upt_rec)
  have next_f: "numbers_left (f\<lparr>numbers_left := ns\<rparr>) = ns" "\<not> ends_with_junk (f\<lparr>numbers_left := ns\<rparr>)"
    using Cons.prems(3) by simp_all
  note step = read_loop_ints.simps [of fill f "us @ map fill [length us..<m]" "int (length us)" "int m"]
  show ?case
  proof (cases "Suc (length us) = m")
    case True
    have "copy_ints (malloc_ints fill (int m * 2)) 0 (us @ [x]) (int (length us) + 1) = ret ((us @ [x]) @ map fill [length (us @ [x])..<2 * m])"
    proof -
      have "int (length us) + 1 = int (length (us @ [x]))" "int m * 2 = int (2 * m)" by simp_all
      moreover have "copy_ints (malloc_ints fill (int (2 * m))) 0 ((us @ [x]) @ []) (int (length (us @ [x])))
          = ret ((us @ [x]) @ map fill [length (us @ [x])..<2 * m])"
        by (rule copy_prefix) (use True in simp)
      ultimately show ?thesis by (simp only: append_Nil2)
    qed
    then have run: "read_loop_ints fill f (us @ map fill [length us..<m]) (int (length us)) (int m) =
      read_loop_ints fill (f\<lparr>numbers_left := ns\<rparr>) ((us @ [x]) @ map fill [length (us @ [x])..<2 * m])
        (int (length (us @ [x]))) (int (2 * m))"
      using True Cons.prems(2) cells by (subst step) (auto simp: fscanf_d_def mult.commute add.commute)
    have "length (us @ [x]) < 2 * m" using True by simp
    from Cons.IH [OF this next_f] show ?thesis unfolding run by simp
  next
    case False
    have run: "read_loop_ints fill f (us @ map fill [length us..<m]) (int (length us)) (int m) =
      read_loop_ints fill (f\<lparr>numbers_left := ns\<rparr>) ((us @ [x]) @ map fill [length (us @ [x])..<m])
        (int (length (us @ [x]))) (int m)"
      using False Cons.prems(2) cells by (subst step) (auto simp: fscanf_d_def add.commute)
    have "length (us @ [x]) < m" using False Cons.prems(1) by simp
    from Cons.IH [OF this next_f] show ?thesis unfolding run by simp
  qed
qed

lemma read_numbers_ok:
  assumes "\<not> ends_with_junk f"
  shows "\<exists>ys. read_numbers_from_file fill f =
    ret \<lparr>arr = numbers_left f @ fill (length (numbers_left f)) # ys, len = int (length (numbers_left f)) + 1\<rparr>"
proof -
  define k :: nat where "k = 10000"
  obtain m where m: "length (numbers_left f) < m"
    "read_loop_ints fill f (malloc_ints fill (int k)) 0 (int k) =
      ret (numbers_left f @ map fill [length (numbers_left f)..<m], int (length (numbers_left f)))"
    using read_loop_ints_ok [of "[]" k f "numbers_left f" fill] assms by (auto simp: k_def malloc_ints_def)
  then have "map fill [length (numbers_left f)..<m] = fill (length (numbers_left f)) # map fill [Suc (length (numbers_left f))..<m]"
    by (simp add: upt_rec)
  moreover have "int k = 10000" by (simp add: k_def)
  ultimately show ?thesis using m(2) by (simp add: read_numbers_from_file_def)
qed

section \<open>Writing\<close>

lemma write_loop_ints_ok:
  "\<forall>k \<in> set ks. k < length xs \<Longrightarrow> write_loop_ints xs (map int ks) = ret (map (\<lambda>k. xs ! k) ks)"
  by (induction ks) (simp_all add: get_at_def)

lemma write_numbers_ok:
  assumes "n \<le> length xs" shows "write_numbers_to_file xs (int n) = ret (take n xs)"
proof -
  have "write_loop_ints xs (map int [0..<n]) = ret (map (\<lambda>k. xs ! k) [0..<n])"
    by (rule write_loop_ints_ok) (use assms in auto)
  moreover have "map (\<lambda>k. xs ! k) [0..<n] = take n xs"
    using assms by (intro nth_equalityI) auto
  ultimately show ?thesis by (simp add: write_numbers_to_file_def upto_map_int)
qed

section \<open>Time\<close>

definition normal_time :: "timespec \<Rightarrow> bool" where
  "normal_time t \<longleftrightarrow> 0 \<le> tv_nsec t \<and> tv_nsec t < 1000000000"

definition nanos :: "timespec \<Rightarrow> int" where
  "nanos t = tv_sec t * 1000000000 + tv_nsec t"

lemma get_time_diff_ok:
  assumes "normal_time from" "normal_time to"
  shows "normal_time (get_time_diff from to)" "nanos (get_time_diff from to) = nanos to - nanos from"
  using assms by (auto simp: normal_time_def nanos_def get_time_diff_def Let_def algebra_simps)

lemma update_coro_work_time_ok:
  assumes "normal_time prev" "normal_time now" "normal_time work"
  shows "normal_time (update_coro_work_time prev now work)"
    and "nanos (update_coro_work_time prev now work) = nanos work + (nanos now - nanos prev)"
proof -
  let ?d = "get_time_diff prev now"
  note d = get_time_diff_ok [OF assms(1,2)]
  let ?n = "tv_nsec work + tv_nsec ?d"
  have n: "0 \<le> ?n" "?n < 2000000000" using d(1) assms(3) by (auto simp: normal_time_def)
  have "?n sdiv 1000000000 = ?n div 1000000000" using n(1) by (simp add: signed_divide_int_def sgn_if)
  moreover have "?n div 1000000000 = (if ?n < 1000000000 then 0 else 1)"
    using n by (auto simp: div_pos_pos_trivial) 
  ultimately have u: "update_coro_work_time prev now work = (if ?n < 1000000000
      then work\<lparr>tv_sec := tv_sec work + tv_sec ?d, tv_nsec := ?n\<rparr>
      else work\<lparr>tv_sec := tv_sec work + tv_sec ?d + 1, tv_nsec := ?n - 1000000000\<rparr>)"
    by (simp add: update_coro_work_time_def Let_def)
  show "normal_time (update_coro_work_time prev now work)"
    unfolding u using n by (auto simp: normal_time_def)
  show "nanos (update_coro_work_time prev now work) = nanos work + (nanos now - nanos prev)"
    unfolding u d(2) [symmetric] by (simp add: nanos_def algebra_simps)
qed

end
