(* ===== verification/Coro.thy ===== *)
theory Coro
  imports Coro_Model "HOL-Library.Multiset"
begin

text \<open>
  The scheduler is correct for every client: if each turn of a coroutine keeps an invariant of
  the unfinished coroutines and the shared memory and lowers a measure, then \<open>coro_sched_wait\<close>
  returns, with a finished coroutine, for as long as there are coroutines, and the loop of
  \<open>main\<close> ends with all of them finished and freed.
\<close>

interpretation cnode: dnode c_next c_prev "\<lambda>p x. x\<lparr>c_next := p\<rparr>" "\<lambda>p x. x\<lparr>c_prev := p\<rparr>"
  by unfold_locales simp_all

abbreviation coro_at :: "('k, 'g) coros \<Rightarrow> nat \<Rightarrow> 'k coro" where
  "coro_at s a \<equiv> the (coro_heap s a)"

abbreviation coro_chain :: "('k, 'g) coros \<Rightarrow> nat list \<Rightarrow> bool" where
  "coro_chain s cs \<equiv> chain c_next c_prev (coro_heap s) Null (coro_list s) cs Null"

definition conts :: "('k, 'g) coros \<Rightarrow> nat list \<Rightarrow> 'k multiset" where
  "conts s cs = mset (map (\<lambda>a. saved_ctx (coro_at s a)) cs)"

lemma conts_simps [simp]:
  "conts s [] = {#}" "conts s (c # cs) = add_mset (saved_ctx (coro_at s c)) (conts s cs)"
  "conts s (cs @ ds) = conts s cs + conts s ds"
  by (simp_all add: conts_def)

lemma conts_cong: "(\<And>a. a \<in> set cs \<Longrightarrow> coro_heap s' a = coro_heap s a) \<Longrightarrow> conts s' cs = conts s cs"
  by (simp add: conts_def cong: map_cong)

definition unfinished :: "('k, 'g) coros \<Rightarrow> nat list \<Rightarrow> bool" where
  "unfinished s cs \<longleftrightarrow> (\<forall>a \<in> set cs. \<not> is_finished (coro_at s a))"

lemma unfinished_simps [simp]:
  "unfinished s []" "unfinished s (c # cs) \<longleftrightarrow> \<not> is_finished (coro_at s c) \<and> unfinished s cs"
  "unfinished s (cs @ ds) \<longleftrightarrow> unfinished s cs \<and> unfinished s ds"
  by (auto simp: unfinished_def)

lemma unfinished_cong: "(\<And>a. a \<in> set cs \<Longrightarrow> coro_heap s' a = coro_heap s a) \<Longrightarrow> unfinished s' cs = unfinished s cs"
  by (simp add: unfinished_def)

text \<open>Every coroutine has a live stack of its own and its context is on it.\<close>

definition own_stacks :: "('k, 'g) coros \<Rightarrow> nat list \<Rightarrow> bool" where
  "own_stacks s cs \<longleftrightarrow> (\<forall>a \<in> set cs. stacks s a \<noteq> None
     \<and> map_option (\<lambda>x. (c_stack x, ctx_stack x)) (coro_heap s a) = Some (Ptr a, Some (CoroStack (Ptr a))))"

lemma own_stacks_simps [simp]:
  "own_stacks s []"
  "own_stacks s (c # cs) \<longleftrightarrow> stacks s c \<noteq> None
     \<and> map_option (\<lambda>x. (c_stack x, ctx_stack x)) (coro_heap s c) = Some (Ptr c, Some (CoroStack (Ptr c))) \<and> own_stacks s cs"
  "own_stacks s (cs @ ds) \<longleftrightarrow> own_stacks s cs \<and> own_stacks s ds"
  by (auto simp: own_stacks_def)

lemma own_stacks_cong:
  "(\<And>a. a \<in> set cs \<Longrightarrow> stacks s' a = stacks s a \<and> map_option (\<lambda>x. (c_stack x, ctx_stack x)) (coro_heap s' a)
      = map_option (\<lambda>x. (c_stack x, ctx_stack x)) (coro_heap s a)) \<Longrightarrow> own_stacks s' cs = own_stacks s cs"
  by (simp add: own_stacks_def)

lemma own_stack_resume:
  assumes "own_stacks s cs" "c \<in> set cs" "coro_heap s c = Some x"
  shows "ctx_stack x = Some (CoroStack (Ptr c)) \<and> c_stack x = Ptr c \<and> resume_stack s x = ret (CoroStack (Ptr c))"
  using assms by (auto simp: own_stacks_def resume_stack_def)

section \<open>The list\<close>

lemma coro_list_add_ok:
  assumes "coro_chain s cs" "coro_heap s n = Some x" "n \<notin> set cs"
  shows "\<exists>h. coro_list_add (Ptr n) s = ret (s\<lparr>coro_heap := h, coro_list := Ptr n\<rparr>)
    \<and> chain c_next c_prev h Null (Ptr n) (n # cs) Null
    \<and> (\<forall>a. map_option (\<lambda>x. x\<lparr>c_next := Null, c_prev := Null\<rparr>) (h a)
         = map_option (\<lambda>x. x\<lparr>c_next := Null, c_prev := Null\<rparr>) (coro_heap s a))"
proof (cases cs)
  case Nil
  then have "coro_list s = Null" using assms(1) by simp
  with assms Nil show ?thesis
    by (intro exI [of _ "(coro_heap s)(n \<mapsto> x\<lparr>c_next := Null, c_prev := Null\<rparr>)"])
      (simp add: coro_list_add_def upd_coro_def)
next
  case (Cons c cs')
  then obtain y where y: "coro_list s = Ptr c" "coro_heap s c = Some y" using assms(1) by auto
  let ?x = "x\<lparr>c_next := Ptr c, c_prev := Null\<rparr>"
  have "chain c_next c_prev ((coro_heap s)(n \<mapsto> ?x, c \<mapsto> y\<lparr>c_prev := Ptr n\<rparr>)) Null (Ptr n) (n # c # cs') Null"
    by (rule cnode.push_front) (use assms Cons y in auto)
  moreover have "n \<noteq> c" using assms(3) Cons by auto
  ultimately show ?thesis
    using assms Cons y
    by (intro exI [of _ "(coro_heap s)(n \<mapsto> ?x, c \<mapsto> y\<lparr>c_prev := Ptr n\<rparr>)"])
      (simp add: coro_list_add_def upd_coro_def)
qed

lemma coro_list_delete_ok:
  assumes ch: "coro_chain s (us @ f # vs)" and f: "coro_heap s f = Some x"
  shows "\<exists>h p. coro_list_delete (Ptr f) s = ret (s\<lparr>coro_heap := h, coro_list := p\<rparr>)
    \<and> chain c_next c_prev h Null p (us @ vs) Null \<and> h f = Some x
    \<and> (\<forall>a. map_option (\<lambda>x. x\<lparr>c_next := Null, c_prev := Null\<rparr>) (h a)
         = map_option (\<lambda>x. x\<lparr>c_next := Null, c_prev := Null\<rparr>) (coro_heap s a))"
proof -
  have dist: "distinct (us @ f # vs)" by (rule chain_distinct [OF ch])
  note defs = coro_list_delete_def upd_coro_def Let_def
  show ?thesis
  proof (cases us rule: rev_cases)
    case Nil
    then have p: "coro_list s = Ptr f" "c_prev x = Null" using ch f by auto
    show ?thesis
    proof (cases vs)
      case Nil
      with \<open>us = []\<close> ch f p show ?thesis
        by (intro exI [of _ "coro_heap s"] exI [of _ Null]) (auto simp: defs)
    next
      case (Cons b vs')
      then obtain y where y: "coro_heap s b = Some y" using chain_alloc [OF ch, of b] by auto
      from cnode.unlink_first [of "coro_heap s" Null _ f b vs' y x] ch Nil Cons y f
      have "c_next x = Ptr b" "chain c_next c_prev ((coro_heap s)(b \<mapsto> y\<lparr>c_prev := Null\<rparr>)) Null (Ptr b) (b # vs') Null"
        by auto
      with Cons Nil dist y f p show ?thesis
        by (intro exI [of _ "(coro_heap s)(b \<mapsto> y\<lparr>c_prev := Null\<rparr>)"] exI [of _ "Ptr b"]) (auto simp: defs)
    qed
  next
    case (snoc us' c)
    then obtain z where z: "coro_heap s c = Some z" using chain_alloc [OF ch, of c] by auto
    show ?thesis
    proof (cases vs)
      case Nil
      from cnode.unlink_last [of "coro_heap s" Null _ us' c f z x] ch Nil snoc z f
      have "c_prev x = Ptr c" "c_next x = Null"
        "chain c_next c_prev ((coro_heap s)(c \<mapsto> z\<lparr>c_next := Null\<rparr>)) Null (coro_list s) (us' @ [c]) Null" by auto
      with Nil snoc dist z f show ?thesis
        by (intro exI [of _ "(coro_heap s)(c \<mapsto> z\<lparr>c_next := Null\<rparr>)"] exI [of _ "coro_list s"]) (auto simp: defs)
    next
      case (Cons b vs')
      then obtain y where y: "coro_heap s b = Some y" using chain_alloc [OF ch, of b] by auto
      from cnode.unlink_middle [of "coro_heap s" Null _ us' c f b vs' z x y] ch Cons snoc z y f
      have "c_prev x = Ptr c" "c_next x = Ptr b"
        "chain c_next c_prev ((coro_heap s)(c \<mapsto> z\<lparr>c_next := Ptr b\<rparr>, b \<mapsto> y\<lparr>c_prev := Ptr c\<rparr>)) Null (coro_list s)
          (us' @ [c, b] @ vs') Null" by auto
      with Cons snoc dist y z f show ?thesis
        by (intro exI [of _ "(coro_heap s)(c \<mapsto> z\<lparr>c_next := Ptr b\<rparr>, b \<mapsto> y\<lparr>c_prev := Ptr c\<rparr>)"]
            exI [of _ "coro_list s"]) (auto simp: defs)
    qed
  qed
qed

lemma same_core:
  assumes "map_option (\<lambda>x. x\<lparr>c_next := Null, c_prev := Null\<rparr>) (h a)
         = map_option (\<lambda>x. x\<lparr>c_next := Null, c_prev := Null\<rparr>) (h' a)" "h' a = Some (x :: 'k coro)"
  shows "\<exists>y. h a = Some y \<and> saved_ctx y = saved_ctx x \<and> is_finished y = is_finished x \<and> c_ret y = c_ret x
    \<and> switch_count y = switch_count x \<and> func y = func x \<and> c_stack y = c_stack x \<and> ctx_stack y = ctx_stack x"
proof -
  from assms obtain y where y: "h a = Some y" "y\<lparr>c_next := Null, c_prev := Null\<rparr> = x\<lparr>c_next := Null, c_prev := Null\<rparr>"
    by (cases "h a") auto
  from y(2) show ?thesis using y(1) by (cases x; cases y) auto
qed

lemma core_stacks:
  fixes h h' :: "nat \<rightharpoonup> 'k coro"
  assumes "\<forall>a. map_option (\<lambda>x. x\<lparr>c_next := Null, c_prev := Null\<rparr>) (h a)
         = map_option (\<lambda>x. x\<lparr>c_next := Null, c_prev := Null\<rparr>) (h' a)"
  shows "map_option (\<lambda>x. (c_stack x, ctx_stack x)) (h a) = map_option (\<lambda>x. (c_stack x, ctx_stack x)) (h' a)"
proof (cases "h' a")
  case (Some x)
  from same_core [of h a h' x, OF assms [rule_format] Some] Some show ?thesis by auto
next
  case None
  with assms have "h a = None" by (metis option.map_disc_iff)
  with None show ?thesis by simp
qed

lemma find_finished_none:
  "chain c_next c_prev (coro_heap s) bk p cs Null \<Longrightarrow> unfinished s cs \<Longrightarrow> find_finished s p = ret Null"
proof (induction cs arbitrary: bk p)
  case Nil
  then show ?case by (subst find_finished.simps) simp
next
  case (Cons c cs)
  then obtain x where "p = Ptr c" "coro_heap s c = Some x"
    "chain c_next c_prev (coro_heap s) (Ptr c) (c_next x) cs Null" by auto
  with Cons show ?case by (subst find_finished.simps) auto
qed

lemma find_finished_some:
  "chain c_next c_prev (coro_heap s) bk p (us @ f # vs) Null \<Longrightarrow> unfinished s us \<Longrightarrow> is_finished (coro_at s f) \<Longrightarrow>
    find_finished s p = ret (Ptr f)"
proof (induction us arbitrary: bk p)
  case Nil
  then show ?case by (subst find_finished.simps) auto
next
  case (Cons c cs)
  then obtain x where "p = Ptr c" "coro_heap s c = Some x"
    "chain c_next c_prev (coro_heap s) (Ptr c) (c_next x) (cs @ f # vs) Null" by auto
  with Cons show ?case by (subst find_finished.simps) auto
qed

section \<open>One turn\<close>

lemma run_current_yield:
  assumes "coro_heap s c = Some x" "resume_stack s x = ret st" "turn (saved_ctx x) (shared s) = ret (Inl k, g)"
    "coro_this_ptr s = Running (Ptr c)" "c_next x \<noteq> Junk"
  shows "run_current turn (Ptr c) s = ret (s\<lparr>shared := g,
      coro_heap := (coro_heap s)(c \<mapsto> x\<lparr>saved_ctx := k, ctx_stack := Some st, switch_count := switch_count x + 1\<rparr>),
      coro_this_ptr := if c_next x = Null then Sched else Running (c_next x)\<rparr>)"
  using assms by (cases "c_next x") (simp_all add: run_current_def upd_coro_def coro_yield_def coro_yield_to_def)

lemma run_current_end:
  assumes "coro_heap s c = Some x" "resume_stack s x = ret st" "turn (saved_ctx x) (shared s) = ret (Inr r, g)"
    "is_sched_waiting s"
  shows "run_current turn (Ptr c) s = ret (s\<lparr>shared := g,
      coro_heap := (coro_heap s)(c \<mapsto> x\<lparr>c_ret := r, is_finished := True\<rparr>), coro_this_ptr := Sched\<rparr>)"
  using assms by (simp add: run_current_def upd_coro_def coro_body_end_def)

text \<open>A turn while the scheduler does not wait would end the process.\<close>

lemma run_current_abort:
  assumes "coro_heap s c = Some x" "resume_stack s x = ret st" "turn (saved_ctx x) (shared s) = ret (Inr r, g)"
    "\<not> is_sched_waiting s"
  shows "run_current turn (Ptr c) s = fail Aborted"
  using assms by (simp add: run_current_def upd_coro_def coro_body_end_def)

text \<open>What the turns do not touch.\<close>

definition system_part :: "('k, 'g) coros \<Rightarrow> (nat \<rightharpoonup> nat) \<times> kernel \<times> nat \<times> stack_id" where
  "system_part s = (stacks s, sigs s, next_coro s, sched_stack s)"

lemma system_part_simps [simp]:
  "system_part (s\<lparr>coro_heap := h\<rparr>) = system_part s" "system_part (s\<lparr>coro_list := p\<rparr>) = system_part s"
  "system_part (s\<lparr>coro_this_ptr := t\<rparr>) = system_part s" "system_part (s\<lparr>is_sched_waiting := b\<rparr>) = system_part s"
  "system_part (s\<lparr>sched_switch_count := n\<rparr>) = system_part s" "system_part (s\<lparr>shared := g\<rparr>) = system_part s"
  by (simp_all add: system_part_def)

lemma system_part_stacks: "system_part s' = system_part s \<Longrightarrow> stacks s' = stacks s"
  by (simp add: system_part_def)

lemma coro_delete_ok:
  assumes "own_stacks s [f]" "f \<notin> set cs"
  shows "\<exists>s'. coro_delete (Ptr f) s = ret s' \<and> (coro_chain s cs \<longrightarrow> coro_chain s' cs) \<and> conts s' cs = conts s cs
    \<and> unfinished s' cs = unfinished s cs \<and> own_stacks s' cs = own_stacks s cs \<and> shared s' = shared s
    \<and> coro_this_ptr s' = coro_this_ptr s \<and> snd (system_part s') = snd (system_part s)
    \<and> dom (coro_heap s') = dom (coro_heap s) - {f} \<and> dom (stacks s') = dom (stacks s) - {f}"
proof -
  obtain y n where y: "coro_heap s f = Some y" "c_stack y = Ptr f" "stacks s f = Some n" using assms(1) by auto
  let ?s = "s\<lparr>stacks := (stacks s)(f := None), coro_heap := (coro_heap s)(f := None)\<rparr>"
  have "conts ?s cs = conts s cs" "unfinished ?s cs = unfinished s cs" "own_stacks ?s cs = own_stacks s cs"
    by (rule conts_cong unfinished_cong own_stacks_cong; use assms(2) in auto)+
  moreover have "coro_delete (Ptr f) s = ret ?s" using y by (simp add: coro_delete_def)
  ultimately show ?thesis using assms(2) by (intro exI [of _ ?s]) (auto simp: system_part_def)
qed

section \<open>What a client provides\<close>

text \<open>
  \<open>I M g\<close>: the invariant of the continuations \<open>M\<close> of the unfinished coroutines and the shared
  memory \<open>g\<close>; \<open>V M g\<close>: a measure of the work left.
\<close>

locale cooperative =
  fixes turn :: "'k \<Rightarrow> 'g \<Rightarrow> (('k + int) \<times> 'g) res"
    and I :: "'k multiset \<Rightarrow> 'g \<Rightarrow> bool"
    and V :: "'k multiset \<Rightarrow> 'g \<Rightarrow> nat"
  assumes turn_ok: "I (add_mset k M) g \<Longrightarrow>
      \<exists>r g'. turn k g = ret (r, g') \<and> (case r of
        Inl k' \<Rightarrow> I (add_mset k' M) g' \<and> V (add_mset k' M) g' < V (add_mset k M) g
      | Inr v \<Rightarrow> v = 0 \<and> I M g' \<and> V M g' < V (add_mset k M) g)"
begin

text \<open>
  The effect of passing control along \<open>rest\<close>, when \<open>M\<close> are the continuations of the other
  coroutines: either every coroutine has had one turn, or the one at \<open>f\<close> has finished.
\<close>

definition passed :: "('k, 'g) coros \<Rightarrow> ('k, 'g) coros \<Rightarrow> nat list \<Rightarrow> 'k multiset \<Rightarrow> bool" where
  "passed s s' rest M \<longleftrightarrow>
     unfinished s' rest \<and> I (M + conts s' rest) (shared s')
       \<and> V (M + conts s' rest) (shared s') < V (M + conts s rest) (shared s)
       \<and> (\<forall>a \<in> set rest. switch_count (coro_at s' a) = switch_count (coro_at s a) + 1)
     \<or> (\<exists>us f vs. rest = us @ f # vs \<and> is_finished (coro_at s' f) \<and> c_ret (coro_at s' f) = 0
       \<and> unfinished s' (us @ vs)
       \<and> I (M + conts s' (us @ vs)) (shared s')
       \<and> V (M + conts s' (us @ vs)) (shared s') < V (M + conts s rest) (shared s))"

definition pass_frame :: "('k, 'g) coros \<Rightarrow> ('k, 'g) coros \<Rightarrow> nat list \<Rightarrow> bool" where
  "pass_frame s s' rest \<longleftrightarrow> coro_list s' = coro_list s
     \<and> is_sched_waiting s' = is_sched_waiting s \<and> system_part s' = system_part s \<and> dom (coro_heap s') = dom (coro_heap s)
     \<and> (\<forall>a. a \<notin> set rest \<longrightarrow> coro_heap s' a = coro_heap s a)
     \<and> (\<forall>a. map_option (\<lambda>x. (c_stack x, ctx_stack x)) (coro_heap s' a) = map_option (\<lambda>x. (c_stack x, ctx_stack x)) (coro_heap s a))
     \<and> (\<forall>bk p us q. chain c_next c_prev (coro_heap s') bk p us q \<longleftrightarrow> chain c_next c_prev (coro_heap s) bk p us q)"

text \<open>A coroutine that yields at the head of the round.\<close>

lemma passed_Cons:
  assumes p: "passed s1 s' ds (add_mset k M)" and y: "coro_heap s' c = Some y" "saved_ctx y = k" "\<not> is_finished y"
    and old: "switch_count y = switch_count (coro_at s c) + 1" "\<And>a. a \<in> set ds \<Longrightarrow> switch_count (coro_at s1 a) = switch_count (coro_at s a)"
    and less: "V (add_mset k M + conts s1 ds) (shared s1) < V (M + conts s (c # ds)) (shared s)"
  shows "passed s s' (c # ds) M"
proof -
  have one: "M + conts s' (c # as) = add_mset k M + conts s' as" for as using y(1,2) by simp
  from p show ?thesis
    unfolding passed_def [of s1]
  proof (elim disjE conjE exE)
    assume a: "unfinished s' ds" "I (add_mset k M + conts s' ds) (shared s')"
      "V (add_mset k M + conts s' ds) (shared s') < V (add_mset k M + conts s1 ds) (shared s1)"
      "\<forall>a \<in> set ds. switch_count (coro_at s' a) = switch_count (coro_at s1 a) + 1"
    then show ?thesis
      unfolding passed_def one using less y old by (intro disjI1 conjI) auto
  next
    fix us f vs
    assume a: "ds = us @ f # vs" "is_finished (coro_at s' f)" "c_ret (coro_at s' f) = 0" "unfinished s' (us @ vs)"
      "I (add_mset k M + conts s' (us @ vs)) (shared s')"
      "V (add_mset k M + conts s' (us @ vs)) (shared s') < V (add_mset k M + conts s1 ds) (shared s1)"
    then show ?thesis
      unfolding passed_def append_Cons [symmetric] using less y one [of "us @ vs"]
      by (intro disjI2 exI [of _ "c # us"] exI [of _ f] exI [of _ vs]) (simp del: conts_simps)
  qed
qed

lemma run_coros_pass:
  assumes "chain c_next c_prev (coro_heap s) bk (Ptr c) (c # cs) Null" "coro_this_ptr s = Running (Ptr c)"
    "is_sched_waiting s" "unfinished s (c # cs)" "I (M + conts s (c # cs)) (shared s)" "own_stacks s (c # cs)"
  shows "\<exists>s'. run_coros turn s = ret s' \<and> coro_this_ptr s' = Sched \<and> passed s s' (c # cs) M \<and> pass_frame s s' (c # cs)"
  using assms
proof (induction cs arbitrary: s bk c M)
  case Nil
  then obtain x where x: "coro_heap s c = Some x" "c_next x = Null" by auto
  note st = own_stack_resume [OF Nil.prems(6) _ x(1), simplified]
  obtain r g where t: "turn (saved_ctx x) (shared s) = ret (r, g)" "case r of
        Inl k' \<Rightarrow> I (add_mset k' M) g \<and> V (add_mset k' M) g < V (add_mset (saved_ctx x) M) (shared s)
      | Inr v \<Rightarrow> v = 0 \<and> I M g \<and> V M g < V (add_mset (saved_ctx x) M) (shared s)"
    using turn_ok [of "saved_ctx x" M "shared s"] Nil.prems(5) x by auto
  show ?case
  proof (cases r)
    case (Inl k)
    let ?s = "s\<lparr>shared := g, coro_heap := (coro_heap s)(c \<mapsto> x\<lparr>saved_ctx := k, ctx_stack := Some (CoroStack (Ptr c)), switch_count := switch_count x + 1\<rparr>),
      coro_this_ptr := Sched\<rparr>"
    have "run_coros turn s = ret ?s"
      using run_current_yield [of s c x "CoroStack (Ptr c)" turn k g] x st t Inl Nil.prems(2)
      by (subst run_coros.simps) (simp add: run_coros.simps [of turn ?s])
    then show ?thesis
      using Nil.prems x st t(2) Inl by (intro exI [of _ ?s]) (auto simp: passed_def pass_frame_def chain_same_links)
  next
    case (Inr v)
    let ?s = "s\<lparr>shared := g, coro_heap := (coro_heap s)(c \<mapsto> x\<lparr>c_ret := v, is_finished := True\<rparr>), coro_this_ptr := Sched\<rparr>"
    have "run_coros turn s = ret ?s"
      using run_current_end [of s c x "CoroStack (Ptr c)" turn v g] x st t(1) Inr Nil.prems(2,3)
      by (subst run_coros.simps) (simp add: run_coros.simps [of turn ?s])
    then show ?thesis
      using Nil.prems x st t(2) Inr by (intro exI [of _ ?s]) (auto simp: passed_def pass_frame_def chain_same_links Cons_eq_append_conv)
  qed
next
  case (Cons d ds)
  then obtain x where x: "coro_heap s c = Some x" "c_next x = Ptr d" by auto
  note st = own_stack_resume [OF Cons.prems(6) _ x(1), simplified]
  have dist: "c \<notin> set (d # ds)" using Cons.prems(1) by (rule chain_hd_notin_tl)
  obtain r g where t: "turn (saved_ctx x) (shared s) = ret (r, g)" "case r of
        Inl k' \<Rightarrow> I (add_mset k' (M + conts s (d # ds))) g \<and> V (add_mset k' (M + conts s (d # ds))) g < V (add_mset (saved_ctx x) (M + conts s (d # ds))) (shared s)
      | Inr v \<Rightarrow> v = 0 \<and> I (M + conts s (d # ds)) g \<and> V (M + conts s (d # ds)) g < V (add_mset (saved_ctx x) (M + conts s (d # ds))) (shared s)"
    using turn_ok [of "saved_ctx x" "M + conts s (d # ds)" "shared s"] Cons.prems(5) x by (auto simp: ac_simps add_mset_commute)
  show ?case
  proof (cases r)
    case (Inr v)
    let ?s = "s\<lparr>shared := g, coro_heap := (coro_heap s)(c \<mapsto> x\<lparr>c_ret := v, is_finished := True\<rparr>), coro_this_ptr := Sched\<rparr>"
    have run: "run_coros turn s = ret ?s"
      using run_current_end [of s c x "CoroStack (Ptr c)" turn v g] x st t(1) Inr Cons.prems(2,3)
      by (subst run_coros.simps) (simp add: run_coros.simps [of turn ?s])
    have same: "conts ?s (d # ds) = conts s (d # ds)" "unfinished ?s (d # ds) = unfinished s (d # ds)"
      by (rule conts_cong unfinished_cong; use dist in auto)+
    have "passed s ?s (c # d # ds) M"
      unfolding passed_def using same t(2) Inr Cons.prems(4) x
      by (intro disjI2 exI [of _ "[]"] exI [of _ c] exI [of _ "d # ds"]) (auto simp del: conts_simps unfinished_simps simp: conts_simps(2) [of s c] unfinished_simps(2) [of s c] )
    moreover have "pass_frame s ?s (c # d # ds)"
      using x st by (auto simp: pass_frame_def chain_same_links)
    ultimately show ?thesis using run by auto
  next
    case (Inl k)
    let ?s = "s\<lparr>shared := g, coro_heap := (coro_heap s)(c \<mapsto> x\<lparr>saved_ctx := k, ctx_stack := Some (CoroStack (Ptr c)), switch_count := switch_count x + 1\<rparr>),
      coro_this_ptr := Running (Ptr d)\<rparr>"
    have run: "run_coros turn s = run_coros turn ?s"
      using run_current_yield [of s c x "CoroStack (Ptr c)" turn k g] x st t Inl Cons.prems(2)
      by (subst run_coros.simps) simp
    have same: "conts ?s (d # ds) = conts s (d # ds)" "unfinished ?s (d # ds) = unfinished s (d # ds)"
      by (rule conts_cong unfinished_cong; use dist in auto)+
    have ch: "chain c_next c_prev (coro_heap ?s) (Ptr c) (Ptr d) (d # ds) Null"
      using Cons.prems(1) x dist by auto
    have "I (add_mset k M + conts ?s (d # ds)) (shared ?s)"
      using t(2) Inl unfolding same by (simp add: ac_simps add_mset_commute)
    moreover have "own_stacks ?s (d # ds)"
      using Cons.prems(6) x(1) by (subst own_stacks_cong [of _ _ s]) (use dist in auto)
    ultimately obtain s' where
      s': "run_coros turn ?s = ret s'" "coro_this_ptr s' = Sched"
      "passed ?s s' (d # ds) (add_mset k M)" "pass_frame ?s s' (d # ds)"
      using Cons.IH [OF ch, of "add_mset k M"] Cons.prems(3,4) unfolding same by auto
    have hc: "coro_heap s' c = Some (x\<lparr>saved_ctx := k, ctx_stack := Some (CoroStack (Ptr c)), switch_count := switch_count x + 1\<rparr>)"
      using s'(4) dist by (simp add: pass_frame_def)
    have less: "V (add_mset k M + conts ?s (d # ds)) (shared ?s) < V (M + conts s (c # d # ds)) (shared s)"
      using t(2) Inl x unfolding same by (simp add: ac_simps add_mset_commute)
    have old: "switch_count (coro_at ?s a) = switch_count (coro_at s a)" if "a \<in> set (d # ds)" for a
      using dist that by auto
    have unf: "\<not> is_finished x" using Cons.prems(4) x by simp
    have "passed s s' (c # d # ds) M"
      by (rule passed_Cons [OF s'(3) hc]) (use less old unf x in simp_all)
    moreover have "pass_frame s s' (c # d # ds)"
      using s'(4) x st by (auto simp: pass_frame_def chain_same_links)
    ultimately show ?thesis using run s'(1,2) by auto
  qed
qed

end

section \<open>The scheduler\<close>

context cooperative
begin

definition waiting_inv :: "('k, 'g) coros \<Rightarrow> nat list \<Rightarrow> bool" where
  "waiting_inv s cs \<longleftrightarrow> coro_chain s cs \<and> unfinished s cs \<and> own_stacks s cs \<and> I (conts s cs) (shared s) \<and> coro_this_ptr s = Sched"

lemma sched_wait_empty: "waiting_inv s [] \<Longrightarrow> coro_sched_wait turn s = ret (Null, s)"
  by (subst coro_sched_wait.simps) (simp add: waiting_inv_def)

lemma sched_wait_found:
  assumes ch: "coro_chain s (us @ f # vs)" and fin: "is_finished (coro_at s f)" and unf: "unfinished s (us @ vs)"
    and I: "I (conts s (us @ vs)) (shared s)" and cur: "coro_this_ptr s = Sched" and own: "own_stacks s (us @ f # vs)"
  shows "\<exists>s'. coro_sched_wait turn s = ret (Ptr f, s') \<and> waiting_inv s' (us @ vs) \<and> is_finished (coro_at s' f)
    \<and> c_ret (coro_at s' f) = c_ret (coro_at s f) \<and> shared s' = shared s \<and> conts s' (us @ vs) = conts s (us @ vs)
    \<and> dom (coro_heap s') = dom (coro_heap s) \<and> system_part s' = system_part s \<and> own_stacks s' [f]"
proof -
  obtain x where x: "coro_heap s f = Some x" using chain_alloc [OF ch, of f] by auto
  obtain h p where d: "coro_list_delete (Ptr f) s = ret (s\<lparr>coro_heap := h, coro_list := p\<rparr>)"
    "chain c_next c_prev h Null p (us @ vs) Null" "h f = Some x"
    "\<forall>a. map_option (\<lambda>x. x\<lparr>c_next := Null, c_prev := Null\<rparr>) (h a)
         = map_option (\<lambda>x. x\<lparr>c_next := Null, c_prev := Null\<rparr>) (coro_heap s a)"
    using coro_list_delete_ok [OF ch x] by blast
  let ?s = "s\<lparr>coro_heap := h, coro_list := p\<rparr>"
  obtain a where a: "coro_list s = Ptr a" using ch by (cases us) auto
  have run: "coro_sched_wait turn s = ret (Ptr f, ?s)"
    using find_finished_some [OF ch _ fin] unf a d(1) by (subst coro_sched_wait.simps) simp
  have same: "saved_ctx (the (h b)) = saved_ctx (coro_at s b) \<and> is_finished (the (h b)) = is_finished (coro_at s b)"
    if b: "b \<in> set (us @ vs)" for b
  proof -
    obtain y where "coro_heap s b = Some y" using chain_alloc [OF ch, of b] b by auto
    with same_core [of h b "coro_heap s" y] d(4) show ?thesis by force
  qed
  have c: "conts ?s (us @ vs) = conts s (us @ vs)"
    unfolding conts_def using same by (intro arg_cong [where f = mset] map_cong) auto
  have u: "unfinished ?s (us @ vs)" using unf same by (auto simp: unfinished_def)
  have dom: "dom h = dom (coro_heap s)"
  proof (intro set_eqI)
    fix b show "b \<in> dom h \<longleftrightarrow> b \<in> dom (coro_heap s)"
      using d(4) [rule_format, of b] by (cases "h b"; cases "coro_heap s b") auto
  qed
  have o: "own_stacks ?s (us @ f # vs)"
    using own core_stacks [OF d(4)] by (subst own_stacks_cong [of _ _ s]) auto
  have "waiting_inv ?s (us @ vs)"
    unfolding waiting_inv_def using d(2) u I c cur o by simp
  with run d(3) x fin c dom o show ?thesis by (intro exI [of _ ?s]) simp
qed

lemma sched_wait_ok:
  assumes "waiting_inv s cs" "cs \<noteq> []"
  shows "\<exists>s' us f vs. coro_sched_wait turn s = ret (Ptr f, s') \<and> cs = us @ f # vs
    \<and> waiting_inv s' (us @ vs) \<and> is_finished (coro_at s' f) \<and> c_ret (coro_at s' f) = 0
    \<and> V (conts s' (us @ vs)) (shared s') < V (conts s cs) (shared s)
    \<and> dom (coro_heap s') = dom (coro_heap s) \<and> system_part s' = system_part s \<and> own_stacks s' [f]"
  using assms
proof (induction "V (conts s cs) (shared s)" arbitrary: s rule: less_induct)
  case less
  from less.prems obtain c cs' where cs: "cs = c # cs'" by (cases cs) auto
  have ch: "coro_chain s cs" and unf: "unfinished s cs" and I: "I (conts s cs) (shared s)" and cur: "coro_this_ptr s = Sched"
    and own: "own_stacks s cs"
    using less.prems(1) by (auto simp: waiting_inv_def)
  have list: "coro_list s = Ptr c" using ch cs by simp
  let ?s1 = "s\<lparr>is_sched_waiting := True, sched_switch_count := sched_switch_count s + 1, coro_this_ptr := Running (Ptr c)\<rparr>"
  have start: "coro_yield_to (Running (coro_list s)) (s\<lparr>is_sched_waiting := True\<rparr>) = ret ?s1"
    by (simp add: coro_yield_to_def cur list)
  have same1: "conts ?s1 cs = conts s cs" "unfinished ?s1 cs = unfinished s cs"
    by (rule conts_cong unfinished_cong; simp)+
  have ch1: "chain c_next c_prev (coro_heap ?s1) Null (Ptr c) (c # cs') Null" using ch list cs by simp
  have own1: "own_stacks ?s1 (c # cs')" unfolding cs [symmetric] using own by (subst own_stacks_cong [of _ _ s]) auto
  have I1: "I ({#} + conts ?s1 (c # cs')) (shared ?s1)" and unf1: "unfinished ?s1 (c # cs')"
    using I unf same1 unfolding cs by simp_all
  obtain s2 where s2: "run_coros turn ?s1 = ret s2" "coro_this_ptr s2 = Sched"
    "passed ?s1 s2 cs {#}" "pass_frame ?s1 s2 cs"
    using run_coros_pass [OF ch1 _ _ unf1 I1 own1] unfolding cs by auto
  let ?s3 = "s2\<lparr>is_sched_waiting := False\<rparr>"
  have run: "coro_sched_wait turn s = coro_sched_wait turn ?s3"
    using find_finished_none [OF ch unf] list start s2(1) by (subst coro_sched_wait.simps) simp
  have ch3: "coro_chain ?s3 cs" and dom3: "dom (coro_heap ?s3) = dom (coro_heap s)" and st3: "system_part ?s3 = system_part s"
    using s2(4) ch by (simp_all add: pass_frame_def)
  have own3: "own_stacks ?s3 cs"
    using own s2(4) by (subst own_stacks_cong [of _ _ s]) (auto simp: pass_frame_def dest: system_part_stacks)
  have same3: "conts ?s3 as = conts s2 as" "unfinished ?s3 as = unfinished s2 as" for as
    by (rule conts_cong unfinished_cong; simp)+
  from s2(3) show ?case
    unfolding passed_def
  proof (elim disjE conjE exE)
    assume a: "unfinished s2 cs" "I ({#} + conts s2 cs) (shared s2)"
      "V ({#} + conts s2 cs) (shared s2) < V ({#} + conts ?s1 cs) (shared ?s1)"
    then have "waiting_inv ?s3 cs" using ch3 same3 own3 s2(2) by (simp add: waiting_inv_def)
    moreover have less3: "V (conts ?s3 cs) (shared ?s3) < V (conts s cs) (shared s)"
      using a(3) same1 same3 by simp
    ultimately obtain s' us f vs where "coro_sched_wait turn ?s3 = ret (Ptr f, s')" "cs = us @ f # vs"
      "waiting_inv s' (us @ vs)" "is_finished (coro_at s' f)" "c_ret (coro_at s' f) = 0"
      "V (conts s' (us @ vs)) (shared s') < V (conts ?s3 cs) (shared ?s3)" "dom (coro_heap s') = dom (coro_heap ?s3)"
      "system_part s' = system_part ?s3" "own_stacks s' [f]"
      using less.hyps [of ?s3] less.prems(2) by blast
    with less3 dom3 st3 run show ?thesis
      by (intro exI [of _ s'] exI [of _ us] exI [of _ f] exI [of _ vs]) simp
  next
    fix us f vs
    assume a: "cs = us @ f # vs" "is_finished (coro_at s2 f)" "c_ret (coro_at s2 f) = 0" "unfinished s2 (us @ vs)"
      "I ({#} + conts s2 (us @ vs)) (shared s2)"
      "V ({#} + conts s2 (us @ vs)) (shared s2) < V ({#} + conts ?s1 cs) (shared ?s1)"
    have "is_finished (coro_at ?s3 f)" "unfinished ?s3 (us @ vs)" "I (conts ?s3 (us @ vs)) (shared ?s3)" "coro_this_ptr ?s3 = Sched"
      using a same3 s2(2) by simp_all
    from sched_wait_found [OF ch3 [unfolded a(1)] this own3 [unfolded a(1)]] obtain s' where
      "coro_sched_wait turn ?s3 = ret (Ptr f, s')" "waiting_inv s' (us @ vs)" "is_finished (coro_at s' f)"
      "c_ret (coro_at s' f) = c_ret (coro_at ?s3 f)" "shared s' = shared ?s3" "conts s' (us @ vs) = conts ?s3 (us @ vs)"
      "dom (coro_heap s') = dom (coro_heap ?s3)" "system_part s' = system_part ?s3" "own_stacks s' [f]" by blast
    with run a same1 same3 dom3 st3 show ?thesis
      by (intro exI [of _ s'] exI [of _ us] exI [of _ f] exI [of _ vs]) simp
  qed
qed

lemma wait_all_ok:
  assumes "waiting_inv s cs"
  shows "\<exists>s'. wait_all turn s = ret s' \<and> coro_list s' = Null \<and> I {#} (shared s') \<and> coro_this_ptr s' = Sched
    \<and> dom (coro_heap s') = dom (coro_heap s) - set cs \<and> dom (stacks s') = dom (stacks s) - set cs"
  using assms
proof (induction "length cs" arbitrary: s cs rule: less_induct)
  case less
  show ?case
  proof (cases cs)
    case Nil
    with less.prems sched_wait_empty show ?thesis
      by (subst wait_all.simps) (auto simp: waiting_inv_def)
  next
    case (Cons c cs')
    then obtain s1 us f vs where s1: "coro_sched_wait turn s = ret (Ptr f, s1)" "cs = us @ f # vs"
      "waiting_inv s1 (us @ vs)" "dom (coro_heap s1) = dom (coro_heap s)" "stacks s1 = stacks s" "own_stacks s1 [f]"
      using sched_wait_ok [OF less.prems] system_part_stacks by blast
    have ch: "coro_chain s cs" using less.prems by (simp add: waiting_inv_def)
    then have "distinct (us @ f # vs)" unfolding s1(2) by (rule chain_distinct)
    then have "f \<notin> set (us @ vs)" by simp
    from coro_delete_ok [OF s1(6) this] obtain s2 where s2: "coro_delete (Ptr f) s1 = ret s2" "waiting_inv s2 (us @ vs)"
      "dom (coro_heap s2) = dom (coro_heap s1) - {f}" "dom (stacks s2) = dom (stacks s1) - {f}"
      using s1(3) by (auto simp: waiting_inv_def)
    then obtain s' where s': "wait_all turn s2 = ret s'" "coro_list s' = Null" "I {#} (shared s')" "coro_this_ptr s' = Sched"
      "dom (coro_heap s') = dom (coro_heap s2) - set (us @ vs)" "dom (stacks s') = dom (stacks s2) - set (us @ vs)"
      using less.hyps [of "us @ vs" s2] s1(2) by auto
    have "wait_all turn s = ret s'"
      using s1(1) s2(1) s'(1) by (subst wait_all.simps) simp
    moreover have "dom (coro_heap s') = dom (coro_heap s) - set cs" "dom (stacks s') = dom (stacks s) - set cs"
      unfolding s'(5,6) s2(3,4) using s1(2,4,5) by auto
    ultimately show ?thesis using s' by blast
  qed
qed

end

section \<open>Creating coroutines\<close>

text \<open>
  The signal part: on a state of the signals that is in order and off the alternate stack the new
  coroutine gets a context on its own stack, and everything else is as before; a pending signal is consumed.
\<close>

lemma set_mask_done: "\<not> usr2_pending k \<Longrightarrow> set_mask b k = ret (k\<lparr>usr2_blocked := b\<rparr>)"
  by (simp add: set_mask_def)

lemma rollback_ok:
  fixes k :: kernel
  assumes k: "kernel_ok k" "\<not> on_altstack cur k" and c: "CoroStack c \<noteq> cur"
  shows "rollback cur (altstack k) (usr2_action k) (usr2_blocked k)
    (k\<lparr>usr2_action := act, altstack := Some (CoroStack c, n), usr2_pending := False, usr2_blocked := True\<rparr>)
    = ret (k\<lparr>usr2_pending := False\<rparr>)"
  using assms
  by (cases "altstack k")
    (auto simp: rollback_def sigaltstack_def on_altstack_def kernel_ok_def sigaction_usr2_def set_mask_done)

lemma first_context_ok:
  assumes k: "kernel_ok (sigs s)" "\<not> on_altstack cur (sigs s)" and c: "CoroStack c \<noteq> cur" "c = Ptr n"
    and x: "coro_heap s n = Some x" and size: "stack_size = max (1024 * 1024) (os_SIGSTKSZ (sigs s))"
  shows "first_context cur c stack_size s = ret (s\<lparr>sigs := (sigs s)\<lparr>usr2_pending := False\<rparr>,
    coro_heap := (coro_heap s)(n \<mapsto> x\<lparr>saved_ctx := func x, ctx_stack := Some (CoroStack c)\<rparr>)\<rparr>)"
proof -
  let ?k = "(sigs s)\<lparr>usr2_action := \<lparr>sa_handler = CoroBody, sa_onstack = True\<rparr>,
    altstack := Some (CoroStack c, stack_size), usr2_pending := False, usr2_blocked := True\<rparr>"
  have alt: "sigaltstack cur (Some (CoroStack c, stack_size)) k' = Some (k'\<lparr>altstack := Some (CoroStack c, stack_size)\<rparr>)"
    if "altstack k' = altstack (sigs s)" "os_MINSIGSTKSZ k' = os_MINSIGSTKSZ (sigs s)" for k'
    using k that size by (auto simp: sigaltstack_def on_altstack_def kernel_ok_def split: option.splits)
  have roll: "rollback cur (altstack (sigs s)) (usr2_action (sigs s)) (usr2_blocked (sigs s)) ?k
      = ret ((sigs s)\<lparr>usr2_pending := False\<rparr>)"
    by (rule rollback_ok [OF k c(1)])
  show ?thesis
    unfolding first_context_def Let_def sigaction_usr2_def prod.case
    using x roll c(2) alt by (simp add: raise_usr2_def suspend_loop.simps deliver_usr2_def handler_stack_def
        coro_body_save_def upd_coro_def Let_def)
qed

text \<open>The caller is the scheduler's thread of control or one of the coroutines.\<close>

definition caller_ok :: "('k, 'g) coros \<Rightarrow> nat list \<Rightarrow> bool" where
  "caller_ok s cs \<longleftrightarrow> (\<forall>p. sched_stack s \<noteq> CoroStack p)
     \<and> (coro_this_ptr s = Sched \<or> coro_this_ptr s = Running Null \<or> (\<exists>a \<in> set cs. coro_this_ptr s = Running (Ptr a)))"

lemma caller_stack_ok:
  assumes "caller_ok s cs" "own_stacks s cs" "n \<notin> set cs"
  shows "\<exists>cur. caller_stack s = ret cur \<and> cur \<noteq> CoroStack (Ptr n)
    \<and> (coro_this_ptr s = Sched \<or> coro_this_ptr s = Running Null \<longrightarrow> cur = sched_stack s)"
  using assms by (auto simp: caller_ok_def caller_stack_def own_stacks_def)

lemma same_links_only:
  assumes "\<forall>a. map_option (\<lambda>x. x\<lparr>c_next := Null, c_prev := Null\<rparr>) (h a)
         = map_option (\<lambda>x. x\<lparr>c_next := Null, c_prev := Null\<rparr>) (h' a)"
  shows "dom h = dom h'"
proof (intro set_eqI)
  fix b show "b \<in> dom h \<longleftrightarrow> b \<in> dom h'"
    using assms [rule_format, of b] by (cases "h b"; cases "h' b") auto
qed

lemma coro_new_ok:
  assumes ch: "coro_chain s cs" and unf: "unfinished s cs" and own: "own_stacks s cs"
    and fr: "\<forall>a \<ge> next_coro s. coro_heap s a = None"
    and cur: "caller_stack s = ret cur" "cur \<noteq> CoroStack (Ptr (next_coro s))"
    and k: "kernel_ok (sigs s)" "\<not> on_altstack cur (sigs s)"
  shows "\<exists>s'. coro_new k s = ret (Ptr (next_coro s), s') \<and> coro_chain s' (next_coro s # cs)
    \<and> unfinished s' (next_coro s # cs) \<and> conts s' (next_coro s # cs) = add_mset k (conts s cs)
    \<and> own_stacks s' (next_coro s # cs) \<and> sigs s' = (sigs s)\<lparr>usr2_pending := False\<rparr>
    \<and> shared s' = shared s \<and> coro_this_ptr s' = coro_this_ptr s \<and> sched_stack s' = sched_stack s \<and> next_coro s' = Suc (next_coro s)
    \<and> (\<forall>a \<ge> next_coro s'. coro_heap s' a = None) \<and> dom (coro_heap s') = insert (next_coro s) (dom (coro_heap s))
    \<and> dom (stacks s') = insert (next_coro s) (dom (stacks s))"
proof -
  let ?n = "next_coro s" and ?size = "max (1024 * 1024) (os_SIGSTKSZ (sigs s))"
  let ?x = "\<lparr>c_ret = 0, c_stack = Ptr ?n, func = k, saved_ctx = k, ctx_stack = Some (CoroStack (Ptr ?n)),
    is_finished = False, switch_count = 0, c_next = Junk, c_prev = Junk\<rparr>"
  let ?s1 = "s\<lparr>coro_heap := (coro_heap s)(?n \<mapsto> ?x\<lparr>ctx_stack := None\<rparr>), stacks := (stacks s)(?n \<mapsto> ?size), next_coro := Suc ?n\<rparr>"
  let ?s2 = "?s1\<lparr>sigs := (sigs s)\<lparr>usr2_pending := False\<rparr>, coro_heap := (coro_heap s)(?n \<mapsto> ?x)\<rparr>"
  have alloc: "a \<in> set cs \<Longrightarrow> \<exists>y. coro_heap s a = Some y" for a using chain_alloc [OF ch] by blast
  have n: "?n \<notin> set cs" using alloc [of ?n] fr by force
  have "first_context cur (Ptr ?n) ?size ?s1 = ret ?s2"
    using first_context_ok [of ?s1 cur "Ptr ?n" ?n "?x\<lparr>ctx_stack := None\<rparr>" ?size] k cur(2) by simp
  then have run: "coro_new k s = bindR (coro_list_add (Ptr ?n) ?s2) (\<lambda>s'. ret (Ptr ?n, s'))"
    using cur(1) by (simp add: coro_new_def coro_alloc_def Let_def)
  have ch2: "coro_chain ?s2 cs" using ch n by simp
  obtain h where h: "coro_list_add (Ptr ?n) ?s2 = ret (?s2\<lparr>coro_heap := h, coro_list := Ptr ?n\<rparr>)"
    "chain c_next c_prev h Null (Ptr ?n) (?n # cs) Null"
    "\<forall>a. map_option (\<lambda>x. x\<lparr>c_next := Null, c_prev := Null\<rparr>) (h a)
         = map_option (\<lambda>x. x\<lparr>c_next := Null, c_prev := Null\<rparr>) (coro_heap ?s2 a)"
    using coro_list_add_ok [OF ch2 _ n] by auto
  let ?s3 = "?s2\<lparr>coro_heap := h, coro_list := Ptr ?n\<rparr>"
  have same: "saved_ctx (the (h a)) = saved_ctx (coro_at s a) \<and> is_finished (the (h a)) = is_finished (coro_at s a)"
    if a: "a \<in> set cs" for a
  proof -
    obtain y where "coro_heap s a = Some y" using alloc [OF a] by blast
    moreover have "a \<noteq> ?n" using a n by auto
    ultimately show ?thesis using same_core [of h a "coro_heap ?s2" y] h(3) by force
  qed
  obtain y where y: "h ?n = Some y" "saved_ctx y = k" "\<not> is_finished y" 
    using same_core [of h ?n "coro_heap ?s2" ?x] h(3) by auto
  have dom: "dom h = insert ?n (dom (coro_heap s))"
    using same_links_only [OF h(3)] by (simp del: fun_upd_apply)
  have "conts ?s3 cs = conts s cs"
    unfolding conts_def using same by (intro arg_cong [where f = mset] map_cong) auto
  then have "conts ?s3 (?n # cs) = add_mset k (conts s cs)" using y by simp
  moreover have "unfinished ?s3 (?n # cs)" using unf same y by (auto simp: unfinished_def)
  moreover have "own_stacks ?s2 (?n # cs)"
  proof -
    have "own_stacks ?s2 cs" using own n by (subst own_stacks_cong [of _ _ s]) auto
    then show ?thesis by simp
  qed
  then have "own_stacks ?s3 (?n # cs)"
    using core_stacks [OF h(3)] by (subst own_stacks_cong [of _ _ ?s2]) auto
  moreover have "\<forall>a \<ge> Suc ?n. h a = None"
  proof (intro allI impI)
    fix a assume "Suc ?n \<le> a"
    then have "a \<notin> dom h" unfolding dom using fr by auto
    then show "h a = None" by auto
  qed
  ultimately show ?thesis
    using h(1,2) dom run by (intro exI [of _ ?s3]) simp
qed

text \<open>The states between calls of the library, for a program whose unfinished coroutines are \<open>cs\<close>.\<close>

definition coros_ok :: "('k, 'g) coros \<Rightarrow> nat list \<Rightarrow> bool" where
  "coros_ok s cs \<longleftrightarrow> coro_chain s cs \<and> unfinished s cs \<and> own_stacks s cs \<and> caller_ok s cs \<and> kernel_ok (sigs s)
     \<and> (\<forall>a \<ge> next_coro s. coro_heap s a = None)"

lemma coros_ok_init: "kernel_ok k \<Longrightarrow> coros_ok (coro_sched_init (coro_static k g)) []"
  by (simp add: coros_ok_def coro_sched_init_def coro_static_def caller_ok_def)

lemma coros_ok_new:
  assumes ok: "coros_ok s cs" and cur: "caller_stack s = ret cur" "\<not> on_altstack cur (sigs s)"
  shows "\<exists>s'. coro_new k s = ret (Ptr (next_coro s), s') \<and> coros_ok s' (next_coro s # cs)
    \<and> conts s' (next_coro s # cs) = add_mset k (conts s cs)
    \<and> sigs s' = (sigs s)\<lparr>usr2_pending := False\<rparr> \<and> shared s' = shared s \<and> coro_this s' = coro_this s"
proof -
  have n: "next_coro s \<notin> set cs"
    using ok chain_alloc [of c_next c_prev "coro_heap s" Null "coro_list s" cs Null] by (force simp: coros_ok_def)
  from caller_stack_ok [of s cs, OF _ _ n] ok cur(1) have "cur \<noteq> CoroStack (Ptr (next_coro s))" by (auto simp: coros_ok_def)
  with ok cur obtain s' where s': "coro_new k s = ret (Ptr (next_coro s), s')" "coro_chain s' (next_coro s # cs)"
    "unfinished s' (next_coro s # cs)" "conts s' (next_coro s # cs) = add_mset k (conts s cs)"
    "own_stacks s' (next_coro s # cs)" "sigs s' = (sigs s)\<lparr>usr2_pending := False\<rparr>" "shared s' = shared s"
    "coro_this_ptr s' = coro_this_ptr s" "sched_stack s' = sched_stack s" "\<forall>a \<ge> next_coro s'. coro_heap s' a = None"
    using coro_new_ok [of s cs cur k] unfolding coros_ok_def by blast
  moreover have "caller_ok s' (next_coro s # cs)" using ok s'(8,9) by (auto simp: coros_ok_def caller_ok_def)
  moreover have "kernel_ok (sigs s')" using ok s'(6) kernel_ok_consumed by (simp add: coros_ok_def)
  ultimately show ?thesis by (simp add: coros_ok_def coro_this_def)
qed

text \<open>The scheduler keeps these states, and so does the deletion of the coroutine that it returns.\<close>

lemma coros_ok_system:
  assumes "coros_ok s cs" "coro_this_ptr s' = Sched" "snd (system_part s') = snd (system_part s)"
    "coro_chain s' ds" "unfinished s' ds" "own_stacks s' ds" "dom (coro_heap s') \<subseteq> dom (coro_heap s)"
  shows "coros_ok s' ds"
  using assms by (auto simp: coros_ok_def caller_ok_def system_part_def)

context cooperative
begin

lemma wait_and_delete:
  assumes ok: "coros_ok s cs" "cs \<noteq> []" "I (conts s cs) (shared s)" "coro_this_ptr s = Sched"
  shows "\<exists>us f vs s1 s2. cs = us @ f # vs
    \<and> coro_sched_wait turn s = ret (Ptr f, s1) \<and> coros_ok s1 (us @ vs) \<and> is_finished (coro_at s1 f) \<and> c_ret (coro_at s1 f) = 0
    \<and> coro_delete (Ptr f) s1 = ret s2 \<and> coros_ok s2 (us @ vs) \<and> I (conts s2 (us @ vs)) (shared s2) \<and> coro_this_ptr s2 = Sched
    \<and> V (conts s2 (us @ vs)) (shared s2) < V (conts s cs) (shared s)
    \<and> dom (coro_heap s2) = dom (coro_heap s) - {f} \<and> dom (stacks s2) = dom (stacks s) - {f}"
proof -
  have w: "waiting_inv s cs" using ok by (simp add: waiting_inv_def coros_ok_def)
  from sched_wait_ok [OF w ok(2)] obtain s1 us f vs where
    s1: "coro_sched_wait turn s = ret (Ptr f, s1)" "cs = us @ f # vs" "waiting_inv s1 (us @ vs)" "is_finished (coro_at s1 f)"
      "c_ret (coro_at s1 f) = 0" "V (conts s1 (us @ vs)) (shared s1) < V (conts s cs) (shared s)"
      "dom (coro_heap s1) = dom (coro_heap s)" "system_part s1 = system_part s" "own_stacks s1 [f]" by blast
  have "coro_chain s cs" using ok(1) by (simp add: coros_ok_def)
  then have "distinct (us @ f # vs)" unfolding s1(2) by (rule chain_distinct)
  then have "f \<notin> set (us @ vs)" by simp
  from coro_delete_ok [OF s1(9) this] obtain s2 where
    s2: "coro_delete (Ptr f) s1 = ret s2" "waiting_inv s2 (us @ vs)" "conts s2 (us @ vs) = conts s1 (us @ vs)" "shared s2 = shared s1"
      "snd (system_part s2) = snd (system_part s1)" "dom (coro_heap s2) = dom (coro_heap s1) - {f}" "dom (stacks s2) = dom (stacks s1) - {f}"
    using s1(3) by (auto simp: waiting_inv_def)
  have "coros_ok s1 (us @ vs)"
    using s1(3,7,8) by (intro coros_ok_system [OF ok(1)]) (simp_all add: waiting_inv_def)
  moreover have "coros_ok s2 (us @ vs)"
    using s2(2,5,6) s1(7,8) by (intro coros_ok_system [OF ok(1)]) (auto simp: waiting_inv_def)
  moreover have "dom (stacks s2) = dom (stacks s) - {f}" using s2(7) system_part_stacks [OF s1(8)] by simp
  ultimately show ?thesis
    using s1 s2 by (intro exI [of _ us] exI [of _ f] exI [of _ vs] exI [of _ s1] exI [of _ s2]) (simp add: waiting_inv_def)
qed

end

text \<open>On the alternate stack itself no coroutine can be made: the process exits.\<close>

lemma coro_new_on_altstack:
  assumes "caller_stack s = ret cur" "on_altstack cur (sigs s)"
  shows "coro_new k s = fail Aborted"
  using assms by (simp add: coro_new_def coro_alloc_def first_context_def sigaction_usr2_def Let_def sigaltstack_def on_altstack_def)

text \<open>A fault in the first turn is the fault of the scheduler.\<close>

lemma sched_wait_fault:
  assumes "coro_chain s (c # cs)" "unfinished s (c # cs)" "turn (saved_ctx (coro_at s c)) (shared s) = fail e"
    "coro_this_ptr s = Sched" "own_stacks s (c # cs)"
  shows "coro_sched_wait turn s = fail e"
proof -
  have list: "coro_list s = Ptr c" using assms(1) by simp
  obtain x where x: "coro_heap s c = Some x" using assms(1) by auto
  let ?s = "s\<lparr>is_sched_waiting := True, sched_switch_count := sched_switch_count s + 1, coro_this_ptr := Running (Ptr c)\<rparr>"
  have "coro_yield_to (Running (Ptr c)) (s\<lparr>is_sched_waiting := True\<rparr>) = ret ?s"
    by (simp add: coro_yield_to_def assms(4))
  moreover have "run_coros turn ?s = fail e"
    using x assms(3,5) by (subst run_coros.simps) (auto simp: run_current_def resume_stack_def)
  ultimately show ?thesis
    using find_finished_none [OF assms(1,2)] list by (subst coro_sched_wait.simps) simp
qed

lemma wait_all_fault: "coro_sched_wait turn s = fail e \<Longrightarrow> wait_all turn s = fail e"
  by (subst wait_all.simps) simp

end
