(* ===== verification/Sort_Main.thy ===== *)
theory Sort_Main
  imports Sort_Memory Msort Coro
begin

text \<open>
  The sorting program as a client of the scheduler: whatever the order in which the coroutines
  get their turns, every file is taken by exactly one of them and its sorted numbers end up in
  its slot, all coroutines finish, and \<open>main\<close> writes the sorted numbers of all files.
\<close>

section \<open>One turn of the coroutine\<close>

text \<open>The numbers of a file as the program reads them, with the unwritten cell at the end.\<close>

definition numbers_read :: "(nat \<Rightarrow> int) \<Rightarrow> text_file \<Rightarrow> int list" where
  "numbers_read fill f = numbers_left f @ [fill (length (numbers_left f))]"

definition sorted_file :: "(nat \<Rightarrow> int) \<Rightarrow> text_file \<Rightarrow> array_of_ints" where
  "sorted_file fill f = \<lparr>arr = sort (numbers_read fill f), len = int (length (numbers_read fill f))\<rparr>"

definition file_events :: "(nat \<Rightarrow> int) \<Rightarrow> text_file \<Rightarrow> event list" where
  "file_events fill f = (case read_numbers_from_file fill f of
     Some (Inr a) \<Rightarrow> (case get_sorted_numbers fill True (arr a) (len a) of Some (Inr (r, es)) \<Rightarrow> es | _ \<Rightarrow> []) | _ \<Rightarrow> [])"

definition file_no :: "program \<Rightarrow> nat \<Rightarrow> text_file" where
  "file_no g j = the (disk g (filenames g ! j))"

lemma sort_yields_pos: "0 < sort_yields n"
  by (subst sort_yields.simps) simp

lemma file_sorted:
  assumes "\<not> ends_with_junk f"
  shows "\<exists>a. read_numbers_from_file fill f = ret a
    \<and> get_sorted_numbers fill True (arr a) (len a) = ret (sorted_file fill f, file_events fill f)
    \<and> CoroYield \<in> set (file_events fill f)"
proof -
  let ?n = "Suc (length (numbers_left f))"
  obtain ys where a: "read_numbers_from_file fill f =
      ret \<lparr>arr = numbers_left f @ fill (length (numbers_left f)) # ys, len = int (length (numbers_left f)) + 1\<rparr>"
    using read_numbers_ok [OF assms] by blast
  let ?xs = "numbers_left f @ fill (length (numbers_left f)) # ys"
  obtain es where es: "get_sorted_numbers fill True ?xs (int ?n) = ret (\<lparr>arr = sort (take ?n ?xs), len = int ?n\<rparr>, es)"
    "count_list es CoroYield = sort_yields ?n"
    using get_sorted_numbers_ok [of ?n ?xs fill True] by auto
  have "take ?n ?xs = numbers_read fill f" by (simp add: numbers_read_def)
  then have r: "\<lparr>arr = sort (take ?n ?xs), len = int ?n\<rparr> = sorted_file fill f"
    by (simp add: sorted_file_def numbers_read_def)
  have n: "int ?n = int (length (numbers_left f)) + 1" by simp
  note es1 = es(1) [unfolded r]
  have "es = file_events fill f"
    using a es1 unfolding n by (simp add: file_events_def)
  moreover have "CoroYield \<in> set es"
    using es(2) sort_yields_pos [of ?n] by (metis count_list_0_iff less_numeral_extra(3))
  ultimately show ?thesis using a es1 unfolding n by (intro exI) (rule conjI, assumption, simp)
qed

text \<open>Time keeping up to the next yield, and after the last one.\<close>

lemma events_yield:
  assumes "owns True g n T" "CoroYield \<in> set es"
  shows "\<exists>es' g'. coro_loop (Ptr n) (Some (i, r, es)) g = ret (Inl (Resume (Ptr n) (i, r, es')), g')
    \<and> owns True g' n T \<and> same_but n g g' \<and> length es' < length es"
  using assms
proof (induction es arbitrary: g)
  case (Cons e es)
  have later: ?case if g1: "coro_loop (Ptr n) (Some (i, r, e # es)) g = coro_loop (Ptr n) (Some (i, r, es)) g1"
    "owns True g1 n T" "same_but n g g1" and e: "e \<noteq> CoroYield" for g1
  proof -
    have "CoroYield \<in> set es" using Cons.prems(2) e by auto
    from Cons.IH [OF g1(2) this] obtain es' g' where
      "coro_loop (Ptr n) (Some (i, r, es)) g1 = ret (Inl (Resume (Ptr n) (i, r, es')), g')"
      "owns True g' n T" "same_but n g1 g'" "length es' < length es" by blast
    with g1(1) same_but_trans [OF g1(3)] show ?thesis by (intro exI [of _ es'] exI [of _ g']) simp
  qed
  show ?case
  proof (cases e)
    case CoroYield
    with Cons.prems(1) show ?thesis
      by (intro exI [of _ es] exI [of _ g]) (subst coro_loop.simps, simp)
  next
    case UpdateWorkTime
    obtain g1 where g1: "update_work_time (Ptr n) g = ret g1" "owns True g1 n T" "same_but n g g1"
      using update_work_time_ok [OF Cons.prems(1)] by blast
    show ?thesis by (rule later [OF _ g1(2,3)]) (subst coro_loop.simps, use g1(1) UpdateWorkTime in simp_all)
  next
    case SetTimestamp
    obtain g1 where g1: "set_coro_timestamp (Ptr n) g = ret g1" "owns True g1 n T" "same_but n g g1"
      using set_coro_timestamp_ok [OF Cons.prems(1)] by blast
    show ?thesis by (rule later [OF _ g1(2,3)]) (subst coro_loop.simps, use g1(1) SetTimestamp in simp_all)
  qed
qed simp

lemma events_end:
  assumes "owns True g n T" "CoroYield \<notin> set es" "i < length (dests g)"
  shows "\<exists>g'. coro_loop (Ptr n) (Some (int i, r, es)) g = coro_loop (Ptr n) None (g'\<lparr>dests := (dests g)[i := Some r]\<rparr>)
    \<and> owns True g' n T \<and> same_but n g g'"
  using assms
proof (induction es arbitrary: g)
  case Nil
  then show ?case by (intro exI [of _ g]) (subst coro_loop.simps, simp add: store_result_def)
next
  case (Cons e es)
  have later: ?case if g1: "coro_loop (Ptr n) (Some (int i, r, e # es)) g = coro_loop (Ptr n) (Some (int i, r, es)) g1"
    "owns True g1 n T" "same_but n g g1" for g1
  proof -
    have d: "dests g1 = dests g" using g1(3) by (simp add: same_but_def same_data_def)
    obtain g' where "coro_loop (Ptr n) (Some (int i, r, es)) g1 = coro_loop (Ptr n) None (g'\<lparr>dests := (dests g1)[i := Some r]\<rparr>)"
      "owns True g' n T" "same_but n g1 g'"
      using Cons.IH [OF g1(2)] Cons.prems(2,3) d by auto
    with g1(1) d same_but_trans [OF g1(3)] show ?thesis by (intro exI [of _ g']) simp
  qed
  show ?case
  proof (cases e)
    case CoroYield
    then show ?thesis using Cons.prems by simp
  next
    case UpdateWorkTime
    obtain g1 where g1: "update_work_time (Ptr n) g = ret g1" "owns True g1 n T" "same_but n g g1"
      using update_work_time_ok [OF Cons.prems(1)] by blast
    show ?thesis by (rule later [OF _ g1(2,3)]) (subst coro_loop.simps, use g1(1) UpdateWorkTime in simp)
  next
    case SetTimestamp
    obtain g1 where g1: "set_coro_timestamp (Ptr n) g = ret g1" "owns True g1 n T" "same_but n g g1"
      using set_coro_timestamp_ok [OF Cons.prems(1)] by blast
    show ?thesis by (rule later [OF _ g1(2,3)]) (subst coro_loop.simps, use g1(1) SetTimestamp in simp)
  qed
qed

text \<open>The head of the loop: take the next file up to the first yield, or end and free the context.\<close>

lemma loop_take:
  assumes "owns True g n T" "next_file_idx g = int j" "j < length (filenames g)"
    "disk g (filenames g ! j) = Some f" "\<not> ends_with_junk f"
  shows "\<exists>es' g'. coro_loop (Ptr n) None g = ret (Inl (Resume (Ptr n) (int j, sorted_file (heap_ints g) f, es')), g')
    \<and> owns True g' n T \<and> same_but n (g\<lparr>next_file_idx := int (Suc j)\<rparr>) g' \<and> length es' < length (file_events (heap_ints g) f)"
proof -
  obtain a where a: "read_numbers_from_file (heap_ints g) f = ret a"
    "get_sorted_numbers (heap_ints g) True (arr a) (len a) = ret (sorted_file (heap_ints g) f, file_events (heap_ints g) f)"
    "CoroYield \<in> set (file_events (heap_ints g) f)"
    using file_sorted [OF assms(5)] by blast
  let ?g = "g\<lparr>next_file_idx := int (Suc j)\<rparr>"
  have "take_file g = ret ((int j, sorted_file (heap_ints g) f, file_events (heap_ints g) f), ?g)"
  proof -
    have "nat (int j) = j" "0 \<le> int j" "int j < int (length (filenames g))" "int j + 1 = int (Suc j)"
      using assms(3) by simp_all
    then show ?thesis using assms(2,4) a(1,2) by (simp only: take_file_def Let_def files_total_def) simp
  qed
  then have "coro_loop (Ptr n) None g = coro_loop (Ptr n) (Some (int j, sorted_file (heap_ints g) f, file_events (heap_ints g) f)) ?g"
    using assms(2,3) by (subst coro_loop.simps) (simp add: files_total_def)
  moreover have "owns True ?g n T" using assms(1) by simp
  ultimately show ?thesis using events_yield [OF _ a(3), of ?g n T "int j" "sorted_file (heap_ints g) f"] by simp
qed

lemma loop_end:
  assumes "owns True g n T" "next_file_idx g = files_total g"
  shows "\<exists>g'. coro_loop (Ptr n) None g = ret (Inr 0, g') \<and> heap_is (times g') T \<and> fresh_times g'
    \<and> same_data g g' \<and> contexts g' = (contexts g)(n := None) \<and> next_context g' = next_context g"
proof -
  obtain g1 where g1: "update_work_time (Ptr n) g = ret g1" "owns True g1 n T" "same_but n g g1"
    using update_work_time_ok [OF assms(1)] by blast
  obtain g2 where g2: "my_context_delete (Ptr n) g1 = ret g2" "heap_is (times g2) T" "fresh_times g2"
    "same_data g1 g2" "contexts g2 = (contexts g1)(n := None)" "next_context g2 = next_context g1"
    using my_context_delete_ok [OF g1(2)] by blast
  have "coro_loop (Ptr n) None g = ret (Inr 0, g2)"
    using assms(2) g1(1) g2(1) by (subst coro_loop.simps) simp
  moreover have "contexts g2 = (contexts g)(n := None)" "next_context g2 = next_context g"
  proof -
    have "contexts g1 = (contexts g)(n := contexts g1 n)" "next_context g1 = next_context g"
      using g1(3) unfolding same_but_def same_ctx_def by blast+
    with g2(5,6) show "contexts g2 = (contexts g)(n := None)" "next_context g2 = next_context g"
      by (metis fun_upd_upd, simp)
  qed
  moreover have "same_data g g2"
    using g1(3) g2(4) same_data_trans by (auto simp: same_but_def)
  ultimately show ?thesis using g2(2,3) by blast
qed

section \<open>The invariant of the program\<close>

fun sorting_idx :: "cont \<Rightarrow> nat" where
  "sorting_idx (Begin c) = 0"
| "sorting_idx (Resume c t) = nat (fst t)"

text \<open>The files being sorted by the coroutines with the continuations \<open>M\<close>.\<close>

definition in_work :: "cont multiset \<Rightarrow> nat multiset" where
  "in_work M = image_mset sorting_idx (filter_mset is_sorting M)"

lemma in_work_simps [simp]:
  "in_work {#} = {#}"
  "in_work (add_mset (Begin c) M) = in_work M"
  "in_work (add_mset (Resume c (i, r, es)) M) = add_mset (nat i) (in_work M)"
  by (simp_all add: in_work_def)

fun cont_ok :: "program \<Rightarrow> cont \<Rightarrow> bool" where
  "cont_ok g (Begin c) \<longleftrightarrow> True"
| "cont_ok g (Resume c t) \<longleftrightarrow> (\<exists>j. fst t = int j \<and> j < length (filenames g)
     \<and> fst (snd t) = sorted_file (heap_ints g) (file_no g j))"

definition files_ok :: "string list \<Rightarrow> (string \<Rightarrow> text_file option) \<Rightarrow> bool" where
  "files_ok names dsk \<longleftrightarrow> (\<forall>name \<in> set names. \<exists>f. dsk name = Some f \<and> \<not> ends_with_junk f)"

definition work_inv :: "cont multiset \<Rightarrow> program \<Rightarrow> bool" where
  "work_inv M g \<longleftrightarrow> files_ok (filenames g) (disk g) \<and> length (dests g) = length (filenames g)
     \<and> 0 \<le> next_file_idx g \<and> next_file_idx g \<le> files_total g
     \<and> (\<forall>k \<in># M. cont_ok g k) \<and> in_work M \<subseteq># mset [0..<nat (next_file_idx g)]
     \<and> (\<forall>j < nat (next_file_idx g). j \<notin># in_work M \<longrightarrow>
          dests g ! j = Some (sorted_file (heap_ints g) (file_no g j)))"

definition program_inv :: "string list \<Rightarrow> (string \<Rightarrow> text_file option) \<Rightarrow> (nat \<Rightarrow> int) \<Rightarrow> cont multiset \<Rightarrow> program \<Rightarrow> bool" where
  "program_inv names dsk fil M g \<longleftrightarrow> filenames g = names \<and> disk g = dsk \<and> heap_ints g = fil
     \<and> work_inv M g \<and> mem_inv {#0#} M g \<and> (M = {#} \<longrightarrow> next_file_idx g = files_total g)"

fun cont_cost :: "cont \<Rightarrow> nat" where
  "cont_cost (Begin c) = 1"
| "cont_cost (Resume c t) = length (snd (snd t)) + 1"

definition files_cost :: "program \<Rightarrow> nat" where
  "files_cost g = (\<Sum>j \<in> {nat (next_file_idx g)..<length (filenames g)}.
     length (file_events (heap_ints g) (file_no g j)) + 1)"

definition work_left :: "cont multiset \<Rightarrow> program \<Rightarrow> nat" where
  "work_left M g = (\<Sum>k \<in># M. cont_cost k) + files_cost g"

lemma cont_ok_cong: "filenames g' = filenames g \<Longrightarrow> disk g' = disk g \<Longrightarrow> heap_ints g' = heap_ints g \<Longrightarrow>
    cont_ok g' k = cont_ok g k"
  by (cases k) (auto simp: file_no_def)

lemma work_inv_cong: "same_data g g' \<Longrightarrow> work_inv M g' = work_inv M g"
  using cont_ok_cong [of g' g] by (auto simp: work_inv_def files_total_def same_data_def file_no_def)

lemma files_cost_cong: "same_data g g' \<Longrightarrow> files_cost g' = files_cost g"
  by (simp add: files_cost_def file_no_def same_data_def)

text \<open>A file that is taken leaves the files to be taken and is in work.\<close>

lemma take_work_inv:
  fixes g :: program
  assumes inv: "work_inv M g" and j: "next_file_idx g = int j" "j < length (filenames g)"
  defines "g' \<equiv> g\<lparr>next_file_idx := int (Suc j)\<rparr>"
  shows "work_inv (add_mset (Resume c (int j, sorted_file (heap_ints g) (file_no g j), es)) M) g'"
    and "files_cost g' + length (file_events (heap_ints g) (file_no g j)) + 1 = files_cost g"
proof -
  have ok: "cont_ok g' k = cont_ok g k" for k by (rule cont_ok_cong) (simp_all add: g'_def)
  have fno: "file_no g' = file_no g" by (simp add: g'_def file_no_def fun_eq_iff)
  have "mset [0..<Suc j] = add_mset j (mset [0..<j])" by simp
  then have "add_mset j (in_work M) \<subseteq># mset [0..<Suc j]"
    using inv j by (simp add: work_inv_def del: upt_Suc)
  moreover have "dests g ! i = Some (sorted_file (heap_ints g) (file_no g i))"
    if "i < Suc j" "i \<notin># add_mset j (in_work M)" for i
    using inv j that by (auto simp: work_inv_def less_Suc_eq)
  ultimately show "work_inv (add_mset (Resume c (int j, sorted_file (heap_ints g) (file_no g j), es)) M) g'"
    using inv j ok fno by (simp add: work_inv_def files_total_def g'_def nat_add_distrib del: upt_Suc)
  have "{j..<length (filenames g)} = insert j {Suc j..<length (filenames g)}" using j(2) by auto
  then show "files_cost g' + length (file_events (heap_ints g) (file_no g j)) + 1 = files_cost g"
    using j(1) fno by (simp add: files_cost_def g'_def nat_add_distrib)
qed

lemma store_work_inv:
  assumes inv: "work_inv (add_mset (Resume c (int j, r, es)) M) g"
  shows "work_inv M (g\<lparr>dests := (dests g)[j := Some r]\<rparr>)" (is "work_inv M ?g")
    and "files_cost (g\<lparr>dests := (dests g)[j := Some r]\<rparr>) = files_cost g"
proof -
  have ok: "cont_ok ?g k = cont_ok g k" for k by (rule cont_ok_cong) simp_all
  have fno: "file_no ?g = file_no g" by (simp add: file_no_def fun_eq_iff)
  have r: "r = sorted_file (heap_ints g) (file_no g j)" "j < length (dests g)"
    using inv by (auto simp: work_inv_def)
  have "add_mset j (in_work M) \<subseteq># mset [0..<nat (next_file_idx g)]"
    using inv by (simp add: work_inv_def)
  then have "in_work M \<subseteq># mset [0..<nat (next_file_idx g)]"
    by (rule subset_mset.order_trans [rotated]) simp
  moreover have "(dests g)[j := Some r] ! i = Some (sorted_file (heap_ints g) (file_no g i))"
    if "i < nat (next_file_idx g)" "i \<notin># in_work M" for i
  proof (cases "i = j")
    case True
    with r show ?thesis by simp
  next
    case False
    with inv that show ?thesis by (simp add: work_inv_def)
  qed
  ultimately show "work_inv M ?g" using inv ok fno by (simp add: work_inv_def files_total_def)
  show "files_cost (g\<lparr>dests := (dests g)[j := Some r]\<rparr>) = files_cost g"
    using fno by (simp add: files_cost_def)
qed

text \<open>The part of a turn from the head of the loop, with what it does to the memory.\<close>

definition turn_mem :: "nat \<Rightarrow> nat multiset \<Rightarrow> program \<Rightarrow> program \<Rightarrow> cont + int \<Rightarrow> bool" where
  "turn_mem n T g g' r \<longleftrightarrow> (case r of
      Inl k \<Rightarrow> (\<exists>t. k = Resume (Ptr n) t) \<and> owns True g' n T \<and> same_ctx n g g'
    | Inr v \<Rightarrow> heap_is (times g') T \<and> fresh_times g' \<and> contexts g' = (contexts g)(n := None) \<and> next_context g' = next_context g)"

lemma loop_turn:
  assumes inv: "work_inv M g" and own: "owns True g n T"
  shows "\<exists>r g'. coro_loop (Ptr n) None g = ret (r, g') \<and> filenames g' = filenames g \<and> disk g' = disk g \<and> heap_ints g' = heap_ints g
    \<and> (case r of
        Inl k \<Rightarrow> work_inv (add_mset k M) g' \<and> cont_cost k + files_cost g' \<le> files_cost g
      | Inr v \<Rightarrow> v = 0 \<and> work_inv M g' \<and> files_cost g' = files_cost g \<and> next_file_idx g' = files_total g')
    \<and> turn_mem n T g g' r"
proof (cases "next_file_idx g < files_total g")
  case True
  define j where "j = nat (next_file_idx g)"
  have j: "next_file_idx g = int j" "j < length (filenames g)"
    using True inv by (auto simp: j_def work_inv_def files_total_def)
  have "filenames g ! j \<in> set (filenames g)" using j(2) by simp
  then obtain f where f: "disk g (filenames g ! j) = Some f" "\<not> ends_with_junk f"
    using inv unfolding work_inv_def files_ok_def by blast
  then have fj: "file_no g j = f" by (simp add: file_no_def)
  let ?g = "g\<lparr>next_file_idx := int (Suc j)\<rparr>"
  obtain es' g' where l: "coro_loop (Ptr n) None g = ret (Inl (Resume (Ptr n) (int j, sorted_file (heap_ints g) f, es')), g')"
    "owns True g' n T" "same_but n ?g g'" "length es' < length (file_events (heap_ints g) f)"
    using loop_take [OF own j f] by blast
  have d: "same_data ?g g'" "same_ctx n g g'" using l(3) by (simp_all add: same_but_def)
  have conf: "filenames g' = filenames g" "disk g' = disk g" "heap_ints g' = heap_ints g"
    using d(1) by (simp_all add: same_data_def)
  have "work_inv (add_mset (Resume (Ptr n) (int j, sorted_file (heap_ints g) f, es')) M) g'"
    using take_work_inv(1) [OF inv j, of "Ptr n" es'] work_inv_cong [OF d(1)] by (simp add: fj)
  moreover have "files_cost g' + length (file_events (heap_ints g) f) + 1 = files_cost g"
    using take_work_inv(2) [OF inv j] files_cost_cong [OF d(1)] by (simp add: fj)
  ultimately show ?thesis using l(1,2,4) d(2) conf by (simp add: turn_mem_def)
next
  case False
  then have e: "next_file_idx g = files_total g" using inv by (simp add: work_inv_def)
  from loop_end [OF own e] obtain g' where l: "coro_loop (Ptr n) None g = ret (Inr 0, g')" "heap_is (times g') T" "fresh_times g'"
    "same_data g g'" "contexts g' = (contexts g)(n := None)" "next_context g' = next_context g" by blast
  from l(4) have "filenames g' = filenames g" "disk g' = disk g" "heap_ints g' = heap_ints g" "next_file_idx g' = files_total g'"
    using e by (simp_all add: same_data_def files_total_def)
  with l inv work_inv_cong [OF l(4)] files_cost_cong [OF l(4)] show ?thesis by (simp add: turn_mem_def)
qed

text \<open>What the memory looks like after a turn.\<close>

lemma turn_mem_inv:
  assumes inv: "mem_inv B (add_mset k M) g" and a: "ctx_ptr k = Ptr a"
    and before: "same_ctx a g g1"
    and turn: "turn_mem a (B + (\<Sum>k \<in># M. cont_times g k)) g1 g' r"
  shows "case r of Inl k' \<Rightarrow> mem_inv B (add_mset k' M) g' | Inr v \<Rightarrow> mem_inv B M g'"
proof (cases r)
  case (Inl k')
  then obtain t where t: "k' = Resume (Ptr a) t" "owns True g' a (B + (\<Sum>k \<in># M. cont_times g k))" "same_ctx a g1 g'"
    using turn by (auto simp: turn_mem_def)
  have "mem_inv B (add_mset k' M) g'"
    by (rule mem_inv_step [OF inv a]) (use t same_ctx_trans [OF before t(3)] in simp_all)
  with Inl show ?thesis by simp
next
  case (Inr v)
  then have t: "heap_is (times g') (B + (\<Sum>k \<in># M. cont_times g k))" "fresh_times g'"
    "contexts g' = (contexts g1)(a := None)" "next_context g' = next_context g1"
    using turn by (auto simp: turn_mem_def)
  have "contexts g1 = (contexts g)(a := contexts g1 a)" "next_context g1 = next_context g"
    using before unfolding same_ctx_def by blast+
  with t(3,4) have "contexts g' = (contexts g)(a := None)" "next_context g' = next_context g"
    by (metis fun_upd_upd, simp)
  from mem_inv_end [OF inv a t(1,2) this] Inr show ?thesis by simp
qed

lemma turn_keeps_inv:
  assumes "program_inv names dsk fil (add_mset k M) g"
  shows "\<exists>r g'. coroutine_func_f k g = ret (r, g') \<and> (case r of
      Inl k' \<Rightarrow> program_inv names dsk fil (add_mset k' M) g' \<and> work_left (add_mset k' M) g' < work_left (add_mset k M) g
    | Inr v \<Rightarrow> v = 0 \<and> program_inv names dsk fil M g' \<and> work_left M g' < work_left (add_mset k M) g)"
proof -
  have conf: "filenames g = names" "disk g = dsk" "heap_ints g = fil" and inv: "work_inv (add_mset k M) g"
    and mem: "mem_inv {#0#} (add_mset k M) g"
    using assms by (simp_all add: program_inv_def)
  let ?T = "{#0#} + (\<Sum>k \<in># M. cont_times g k)"
  obtain a where a: "ctx_ptr k = Ptr a" "owns (is_sorting k) g a ?T" using mem_inv_owns [OF mem] by blast
  have loop: ?thesis if run: "coroutine_func_f k g = coro_loop (Ptr a) None g1" and own: "owns True g1 a ?T" and inv1: "work_inv M g1"
    and conf1: "filenames g1 = names" "disk g1 = dsk" "heap_ints g1 = fil" and cost: "files_cost g1 \<le> files_cost g"
    and ctx: "same_ctx a g g1" for g1
  proof -
    obtain r g' where r: "coro_loop (Ptr a) None g1 = ret (r, g')" "filenames g' = filenames g1" "disk g' = disk g1" "heap_ints g' = heap_ints g1"
      "case r of Inl k \<Rightarrow> work_inv (add_mset k M) g' \<and> cont_cost k + files_cost g' \<le> files_cost g1
        | Inr v \<Rightarrow> v = 0 \<and> work_inv M g' \<and> files_cost g' = files_cost g1 \<and> next_file_idx g' = files_total g'"
      "turn_mem a ?T g1 g' r"
      using loop_turn [OF inv1 own] by blast
    have "0 < cont_cost k" by (cases k) simp_all
    with r run conf1 cost turn_mem_inv [OF mem a(1) ctx r(6)] show ?thesis
      by (cases r) (auto simp: program_inv_def work_left_def)
  qed
  show ?thesis
  proof (cases k)
    case (Begin c)
    have c: "c = Ptr a" using a(1) Begin by simp
    obtain g1 where g1: "set_coro_timestamp (Ptr a) g = ret g1" "owns True g1 a ?T" "same_data g g1" "same_ctx a g g1"
      using set_coro_timestamp_ok [OF a(2)] by (auto simp: same_but_def)
    have "work_inv M g" using inv Begin by (simp add: work_inv_def)
    then have "work_inv M g1" using work_inv_cong [OF g1(3)] by simp
    moreover have "filenames g1 = names" "disk g1 = dsk" "heap_ints g1 = fil" using g1(3) conf by (simp_all add: same_data_def)
    ultimately show ?thesis
      using loop [of g1] g1 files_cost_cong [OF g1(3)] by (simp add: coroutine_func_f_def Begin c)
  next
    case (Resume c s)
    obtain i r es where s: "s = (i, r, es)" by (metis prod_cases3)
    have c: "c = Ptr a" using a(1) Resume by simp
    have own: "owns True g a ?T" using a(2) Resume by simp
    obtain j where j: "i = int j" "j < length (dests g)" using inv Resume s by (auto simp: work_inv_def)
    show ?thesis
    proof (cases "CoroYield \<in> set es")
      case True
      from events_yield [OF own True, of i r] obtain es' g' where
        y: "coro_loop (Ptr a) (Some (i, r, es)) g = ret (Inl (Resume (Ptr a) (i, r, es')), g')"
        "owns True g' a ?T" "same_but a g g'" "length es' < length es" by blast
      have d: "same_data g g'" "same_ctx a g g'" using y(3) by (simp_all add: same_but_def)
      have "work_inv (add_mset (Resume (Ptr a) (i, r, es')) M) g"
        using inv Resume s by (simp add: work_inv_def)
      then have "work_inv (add_mset (Resume (Ptr a) (i, r, es')) M) g'" using work_inv_cong [OF d(1)] by simp
      moreover have "mem_inv {#0#} (add_mset (Resume (Ptr a) (i, r, es')) M) g'"
        by (rule mem_inv_step [OF mem a(1)]) (use y(2) d(2) in simp_all)
      moreover have "filenames g' = names" "disk g' = dsk" "heap_ints g' = fil" using d(1) conf by (simp_all add: same_data_def)
      ultimately show ?thesis
        using y(1,4) Resume s c files_cost_cong [OF d(1)]
        by (auto simp: coroutine_func_f_def program_inv_def work_left_def)
    next
      case False
      from events_end [OF own False j(2), of r] obtain g1 where
        e: "coro_loop (Ptr a) (Some (int j, r, es)) g = coro_loop (Ptr a) None (g1\<lparr>dests := (dests g)[j := Some r]\<rparr>)"
        "owns True g1 a ?T" "same_data g g1" "same_ctx a g g1" by (auto simp: same_but_def)
      have inv1: "work_inv (add_mset (Resume c (int j, r, es)) M) g1"
        using inv work_inv_cong [OF e(3)] by (simp add: Resume s j(1))
      have d: "dests g1 = dests g" "filenames g1 = names" "disk g1 = dsk" "heap_ints g1 = fil"
        using e(3) conf by (simp_all add: same_data_def)
      from store_work_inv [OF inv1] d(1) files_cost_cong [OF e(3)] show ?thesis
        using loop [of "g1\<lparr>dests := (dests g)[j := Some r]\<rparr>"] e(1,2,4) d j(1)
        by (simp add: coroutine_func_f_def Resume s c)
    qed
  qed
qed

interpretation sorters: cooperative coroutine_func_f "program_inv names dsk fil" work_left for names dsk fil
  by unfold_locales (rule turn_keeps_inv)

section \<open>main\<close>

lemma shared_simps [simp]:
  "conts (s\<lparr>shared := g\<rparr>) cs = conts s cs" "unfinished (s\<lparr>shared := g\<rparr>) cs = unfinished s cs"
  "own_stacks (s\<lparr>shared := g\<rparr>) cs = own_stacks s cs" "caller_stack (s\<lparr>shared := g\<rparr>) = caller_stack s"
  by (simp_all add: conts_def unfinished_def own_stacks_def caller_stack_def split: this.split cong: if_cong)

text \<open>The scheduler holds the new coroutines; \<open>P\<close> is what their contexts satisfy.\<close>

definition ready_coros :: "(cont, program) coros \<Rightarrow> nat list \<Rightarrow> bool" where
  "ready_coros s cs \<longleftrightarrow> coro_chain s cs \<and> unfinished s cs \<and> own_stacks s cs \<and> (\<forall>a \<ge> next_coro s. coro_heap s a = None)
     \<and> kernel_ok (sigs s) \<and> \<not> on_altstack (sched_stack s) (sigs s) \<and> coro_this_ptr s = Sched
     \<and> (\<forall>p. sched_stack s \<noteq> CoroStack p) \<and> set cs = dom (coro_heap s) \<and> dom (stacks s) = dom (coro_heap s)"

lemma ready_coros_ok: "ready_coros s cs \<Longrightarrow> coros_ok s cs"
  by (simp add: ready_coros_def coros_ok_def caller_ok_def)

lemma create_coros_ok:
  assumes step: "\<And>M g. P M g \<Longrightarrow> \<exists>p g'. my_context_new usable left_over g = ret (p, g') \<and> P (add_mset (Begin p) M) g'"
    and "ready_coros s cs" "P (conts s cs) (shared s)"
  shows "\<exists>s' cs'. create_coros n usable left_over s = ret s' \<and> ready_coros s' cs' \<and> P (conts s' cs') (shared s')
    \<and> length cs' = n + length cs"
  using assms(2,3)
proof (induction n arbitrary: s cs)
  case 0
  then show ?case by auto
next
  case (Suc n)
  obtain p g where g: "my_context_new usable left_over (shared s) = ret (p, g)" "P (add_mset (Begin p) (conts s cs)) g"
    using step [OF Suc.prems(2)] by blast
  let ?s = "s\<lparr>shared := g\<rparr>" and ?n = "next_coro s"
  note R = Suc.prems(1) [unfolded ready_coros_def]
  have cur: "caller_stack ?s = ret (sched_stack s)" using R by (simp add: caller_stack_def)
  obtain s1 where s1: "coro_new (Begin p) ?s = ret (Ptr ?n, s1)" "coro_chain s1 (?n # cs)"
    "unfinished s1 (?n # cs)" "own_stacks s1 (?n # cs)" "\<forall>a \<ge> next_coro s1. coro_heap s1 a = None"
    "conts s1 (?n # cs) = add_mset (Begin p) (conts s cs)"
    "shared s1 = g" "coro_this_ptr s1 = coro_this_ptr s" "sched_stack s1 = sched_stack s"
    "sigs s1 = (sigs s)\<lparr>usr2_pending := False\<rparr>"
    "dom (coro_heap s1) = insert ?n (dom (coro_heap s))" "dom (stacks s1) = insert ?n (dom (stacks s))"
    using coro_new_ok [of ?s cs "sched_stack s" "Begin p"] R cur by auto
  have "kernel_ok (sigs s1)" "\<not> on_altstack (sched_stack s1) (sigs s1)"
    using R unfolding s1(9,10) by (simp_all add: kernel_ok_consumed)
  with s1 R have "ready_coros s1 (?n # cs)" by (simp add: ready_coros_def)
  moreover have "P (conts s1 (?n # cs)) (shared s1)" using g(2) s1(6,7) by simp
  ultimately obtain s2 cs2 where "create_coros n usable left_over s1 = ret s2" "ready_coros s2 cs2"
    "P (conts s2 cs2) (shared s2)" "length cs2 = n + length (?n # cs)"
    using Suc.IH by blast
  with s1(1) g(1) show ?case by (intro exI [of _ s2] exI [of _ cs2]) simp
qed

lemma sum_lengths_ok: "sum_lengths (map Some as) = ret (sum_list (map len as))"
  by (induction as) simp_all

lemma copy_results_ok:
  assumes "\<forall>a \<in> set as. len a = int (length (arr a))" "length tail = length (concat (map arr as))"
  shows "copy_results (map Some as) (int (length pre)) (pre @ tail) = ret (pre @ concat (map arr as))"
  using assms
proof (induction as arbitrary: pre tail)
  case (Cons a as)
  have "copy_ints (pre @ tail) (int (length pre)) (arr a) (len a) = ret ((pre @ arr a) @ drop (length (arr a)) tail)"
    using Cons.prems by (simp add: copy_ints_def splice_at_def)
  moreover have "int (length pre) + len a = int (length (pre @ arr a))" using Cons.prems(1) by simp
  ultimately show ?case
    using Cons.IH [of "drop (length (arr a)) tail" "pre @ arr a"] Cons.prems by simp
qed simp

lemma sum_list_len: "\<forall>a \<in> set as. len a = int (length (arr a)) \<Longrightarrow>
    sum_list (map len as) = int (length (concat (map arr as)))"
  by (induction as) simp_all

lemma mset_concat_sort: "mset (concat (map (\<lambda>x. sort (F x)) xs)) = mset (concat (map F xs))"
  by (induction xs) simp_all

text \<open>\<open>main\<close> up to the wait: the scheduler holds the new coroutines, all at their beginning.\<close>

lemma ready_at_start:
  assumes "kernel_ok ker" "\<not> on_altstack MainStack ker"
  shows "ready_coros (coro_sched_init (coro_static ker g)) []"
  using assms by (simp add: ready_coros_def coro_sched_init_def coro_static_def)

lemma start_shared [simp]: "shared (coro_sched_init (coro_static ker g)) = g"
  by (simp add: coro_sched_init_def coro_static_def)

definition main_start :: "string list \<Rightarrow> (string \<Rightarrow> text_file option) \<Rightarrow> (nat \<Rightarrow> int) \<Rightarrow> (nat \<Rightarrow> timespec) \<Rightarrow> program" where
  "main_start names dsk fil clk = (program_start names dsk fil clk)\<lparr>ticks := 1, times := [0 \<mapsto> clk 0], next_time := 1\<rparr>"

lemma main_begins:
  "malloc_time (fst (clock_gettime (program_start names dsk fil clk))) (snd (clock_gettime (program_start names dsk fil clk)))
    = (Ptr 0, main_start names dsk fil clk)"
  by (simp add: clock_gettime_def malloc_time_def program_start_def main_start_def)

lemma start_mem: "mem_inv {#0#} {#} (main_start names dsk fil clk)"
proof -
  have "heap_is [0 \<mapsto> clk 0] {#0#}" using heap_is_alloc [of Map.empty "{#}" 0] by simp
  then show ?thesis by (simp add: mem_inv_def main_start_def program_start_def fresh_times_def)
qed

lemma create_coros_start:
  assumes "16 \<le> usable" "kernel_ok ker" "\<not> on_altstack MainStack ker" "files_ok names dsk" "0 < n"
  shows "\<exists>s cs. create_coros n usable Null (coro_sched_init (coro_static ker (main_start names dsk fil clk))) = ret s
    \<and> ready_coros s cs \<and> program_inv names dsk fil (conts s cs) (shared s) \<and> length cs = n"
proof -
  let ?g = "main_start names dsk fil clk"
  let ?s = "coro_sched_init (coro_static ker ?g) :: (cont, program) coros"
  let ?P = "\<lambda>M g. mem_inv {#0#} M g \<and> (\<forall>k \<in># M. \<not> is_sorting k) \<and> same_data ?g g"
  have step: "\<exists>p g'. my_context_new usable Null g = ret (p, g') \<and> ?P (add_mset (Begin p) M) g'" if "?P M g" for M g
    using mem_inv_new [OF assms(1), of "{#0#}" M g] that same_data_trans by fastforce
  have "?P (conts ?s []) (shared ?s)" using start_mem by (simp add: same_data_def)
  from create_coros_ok [where P = ?P, OF step ready_at_start [OF assms(2,3)] this, of n] obtain s cs where
    s: "create_coros n usable Null ?s = ret s" "ready_coros s cs" "mem_inv {#0#} (conts s cs) (shared s)"
      "\<forall>k \<in># conts s cs. \<not> is_sorting k" "same_data ?g (shared s)" "length cs = n" by auto
  have "in_work (conts s cs) = {#}" using s(4) by (auto simp: in_work_def filter_mset_eq_conv)
  moreover have "cont_ok (shared s) k" if "k \<in># conts s cs" for k using s(4) that by (cases k) auto
  ultimately have "work_inv (conts s cs) (shared s)"
    using s(5) assms(4) by (simp add: work_inv_def same_data_def main_start_def program_start_def files_total_def)
  moreover have "conts s cs \<noteq> {#}" using s(6) assms(5) by (cases cs) auto
  ultimately have "program_inv names dsk fil (conts s cs) (shared s)"
    using s(3,5) by (simp add: program_inv_def same_data_def main_start_def program_start_def)
  with s show ?thesis by blast
qed

lemma end_dests:
  assumes "program_inv names dsk fil {#} g"
  shows "dests g = map (\<lambda>name. Some (sorted_file fil (the (dsk name)))) names"
proof (rule nth_equalityI)
  show "length (dests g) = length (map (\<lambda>name. Some (sorted_file fil (the (dsk name)))) names)"
    using assms by (simp add: program_inv_def work_inv_def)
next
  fix i assume "i < length (dests g)"
  with assms show "dests g ! i = map (\<lambda>name. Some (sorted_file fil (the (dsk name)))) names ! i"
    by (auto simp: program_inv_def work_inv_def files_total_def file_no_def)
qed

text \<open>The end of \<open>main\<close> prints the time since its start and frees the three time objects.\<close>

lemma main_report_ok:
  assumes "heap_is (times g) {#0#}" "fresh_times g"
  shows "\<exists>shown g'. main_report (Ptr 0) g = ret (shown, g') \<and> times g' = Map.empty \<and> contexts g' = contexts g"
proof -
  obtain t where t: "times g 0 = Some t" using heap_is_mem(1) [of "times g" 0 "{#}"] assms(1) by auto
  have "dom (times g) = {0}" using heap_is_dom [OF assms(1)] by simp
  then have only: "a \<noteq> 0 \<Longrightarrow> times g a = None" for a by (metis domIff singletonD)
  have n: "next_time g \<noteq> 0" using t assms(2) by (auto simp: fresh_times_def intro: ccontr)
  have gone: "((times g)(next_time g \<mapsto> x, Suc (next_time g) \<mapsto> y, 0 := None, next_time g := None, Suc (next_time g) := None)) = Map.empty" for x y
    using only n by (auto simp: fun_eq_iff)
  show ?thesis
    using t n gone by (simp add: main_report_def clock_gettime_def malloc_time_def Let_def del: fun_upd_apply) simp
qed

lemma sort_main_ok:
  assumes "0 < coros_total" "names \<noteq> []" "files_ok names dsk" "16 \<le> usable" "kernel_ok ker" "\<not> on_altstack MainStack ker"
  shows "\<exists>shown s. sort_main ker coros_total names dsk fil clk usable Null =
      ret (sort (concat (map (\<lambda>name. numbers_read fil (the (dsk name))) names)), shown, s)
    \<and> coro_heap s = Map.empty \<and> stacks s = Map.empty \<and> times (shared s) = Map.empty \<and> contexts (shared s) = Map.empty"
proof -
  let ?g = "main_start names dsk fil clk"
  let ?s = "coro_sched_init (coro_static ker ?g) :: (cont, program) coros" and ?n = "nat coros_total"
  let ?F = "\<lambda>name. sorted_file fil (the (dsk name))"
  from create_coros_start [OF assms(4-6,3), of ?n fil clk] assms(1) obtain s1 cs where
    s1: "create_coros ?n usable Null ?s = ret s1" "ready_coros s1 cs" "program_inv names dsk fil (conts s1 cs) (shared s1)"
    by auto
  then have "sorters.waiting_inv names dsk fil s1 cs"
    by (simp add: sorters.waiting_inv_def ready_coros_def)
  from sorters.wait_all_ok [OF this] obtain s2 where
    s2: "wait_all coroutine_func_f s1 = ret s2" "program_inv names dsk fil {#} (shared s2)"
      "dom (coro_heap s2) = dom (coro_heap s1) - set cs" "dom (stacks s2) = dom (stacks s1) - set cs" by blast
  have empty: "coro_heap s2 = Map.empty" "stacks s2 = Map.empty"
    using s2(3,4) s1(2) by (simp_all add: ready_coros_def)
  have mem: "mem_inv {#0#} {#} (shared s2)" using s2(2) by (simp add: program_inv_def)
  from mem obtain shown g where rep: "main_report (Ptr 0) (shared s2) = ret (shown, g)" "times g = Map.empty" "contexts g = contexts (shared s2)"
    using main_report_ok [of "shared s2"] by (auto simp: mem_inv_def)
  have d: "dests (shared s2) = map Some (map ?F names)"
    using end_dests [OF s2(2)] by simp
  have lens: "\<forall>a \<in> set (map ?F names). len a = int (length (arr a))"
    by (auto simp: sorted_file_def)
  let ?all = "concat (map arr (map ?F names))"
  have sum: "sum_lengths (dests (shared s2)) = ret (int (length ?all))"
    unfolding d sum_lengths_ok using sum_list_len [OF lens] by simp
  have copy: "copy_results (dests (shared s2)) 0 (malloc_ints fil (int (length ?all))) = ret ?all"
    unfolding d using copy_results_ok [OF lens, of "malloc_ints fil (int (length ?all))" "[]"] by simp
  have "0 < length ?all"
  proof -
    obtain n ns where "names = n # ns" using assms(2) by (cases names) auto
    then show ?thesis by (simp add: sorted_file_def numbers_read_def)
  qed
  from get_sorted_numbers_ok [OF this order_refl] obtain es where
    st: "get_sorted_numbers fil False ?all (int (length ?all)) = ret (\<lparr>arr = sort ?all, len = int (length ?all)\<rparr>, es)"
    by auto
  have "mset ?all = mset (concat (map (\<lambda>name. numbers_read fil (the (dsk name))) names))"
    using mset_concat_sort [of "\<lambda>name. numbers_read fil (the (dsk name))" names]
    by (simp add: sorted_file_def o_def)
  then have eq: "sort ?all = sort (concat (map (\<lambda>name. numbers_read fil (the (dsk name))) names))"
    by (intro properties_for_sort) simp_all
  have "write_numbers_to_file (sort ?all) (int (length ?all)) = ret (sort ?all)"
    using write_numbers_ok [of "length ?all" "sort ?all"] by simp
  with s1(1) s2(1) sum copy st rep(1)
  have "sort_main ker coros_total names dsk fil clk usable Null = ret (sort ?all, shown, s2\<lparr>shared := g\<rparr>)"
    using main_begins [of names dsk fil clk] unfolding sort_main_def Let_def case_prod_beta by simp
  with empty rep(2,3) mem show ?thesis unfolding eq by (simp add: mem_inv_def)
qed

section \<open>Faults\<close>

text \<open>Without files nothing was read, and the final sort of no numbers does not return.\<close>

lemma sort_main_no_files:
  assumes "16 \<le> usable" "0 < coros_total" "kernel_ok ker" "\<not> on_altstack MainStack ker"
  shows "sort_main ker coros_total [] dsk fil clk usable Null = None"
proof -
  let ?s = "coro_sched_init (coro_static ker (main_start [] dsk fil clk)) :: (cont, program) coros" and ?n = "nat coros_total"
  have "files_ok [] dsk" by (simp add: files_ok_def)
  from create_coros_start [OF assms(1,3,4) this, of ?n fil clk] assms(2) obtain s1 cs where
    s1: "create_coros ?n usable Null ?s = ret s1" "ready_coros s1 cs" "program_inv [] dsk fil (conts s1 cs) (shared s1)"
    by auto
  then have "sorters.waiting_inv [] dsk fil s1 cs"
    by (simp add: sorters.waiting_inv_def ready_coros_def)
  from sorters.wait_all_ok [OF this] obtain s2 where
    s2: "wait_all coroutine_func_f s1 = ret s2" "program_inv [] dsk fil {#} (shared s2)" by blast
  have "dests (shared s2) = []" using end_dests [OF s2(2)] by simp
  with s1(1) s2(1) main_begins [of "[]" dsk fil clk] show ?thesis
    by (simp add: sort_main_def Let_def case_prod_beta get_sorted_numbers_diverges)
qed

text \<open>\<open>set_coro_timestamp\<close> frees the pointer that \<open>my_context_new\<close> never wrote.\<close>

lemma sort_main_junk_timestamp:
  assumes "16 \<le> usable" "0 < coros_total" "kernel_ok ker" "\<not> on_altstack MainStack ker"
  shows "sort_main ker coros_total names dsk fil clk usable Junk = fail UninitRead"
proof -
  let ?s = "coro_sched_init (coro_static ker (main_start names dsk fil clk)) :: (cont, program) coros" and ?n = "nat coros_total"
  let ?P = "\<lambda>M g. (\<forall>k \<in># M. \<exists>a x. k = Begin (Ptr a) \<and> a < next_context g \<and> contexts g a = Some x \<and> prev_timestamp x = Junk)"
  have step: "\<exists>p g'. my_context_new usable Junk g = ret (p, g') \<and> ?P (add_mset (Begin p) M) g'" if "?P M g" for M g
    using that assms(1) by (fastforce simp: my_context_new_def malloc_time_def Let_def)
  have "?P (conts ?s []) (shared ?s)" by simp
  from create_coros_ok [where P = ?P, OF step ready_at_start [OF assms(3,4)] this, of ?n] obtain s1 cs where
    s1: "create_coros ?n usable Junk ?s = ret s1" "ready_coros s1 cs" "?P (conts s1 cs) (shared s1)" "length cs = ?n" by auto
  then obtain c cs' where cs: "cs = c # cs'" using assms(2) by (cases cs) auto
  then obtain a x where a: "saved_ctx (coro_at s1 c) = Begin (Ptr a)" "contexts (shared s1) a = Some x" "prev_timestamp x = Junk"
    using s1(3) by auto
  then have "coroutine_func_f (saved_ctx (coro_at s1 c)) (shared s1) = fail UninitRead"
    by (simp add: coroutine_func_f_def set_coro_timestamp_def clock_gettime_def malloc_time_def)
  then have "coro_sched_wait coroutine_func_f s1 = fail UninitRead"
    by (intro sched_wait_fault [of s1 c cs']) (use s1(2) cs in \<open>simp_all add: ready_coros_def\<close>)
  from wait_all_fault [OF this] s1(1) main_begins [of names dsk fil clk] show ?thesis
    by (simp add: sort_main_def Let_def case_prod_beta)
qed

text \<open>The store of 16 bytes into the memory of a pointer.\<close>

lemma sort_main_overflow:
  assumes "usable < 16" "0 < coros_total"
  shows "sort_main ker coros_total names dsk fil clk usable left_over = fail OutOfBounds"
proof -
  obtain n where "nat coros_total = Suc n" using assms(2) by (cases "nat coros_total") auto
  with assms(1) show ?thesis by (simp add: sort_main_def my_context_new_def Let_def case_prod_beta)
qed

section \<open>An example\<close>

definition plain_kernel :: kernel where
  "plain_kernel = \<lparr>usr2_blocked = False, usr2_pending = False, usr2_action = \<lparr>sa_handler = SigDfl, sa_onstack = False\<rparr>,
     altstack = None, os_SIGSTKSZ = 8192, os_MINSIGSTKSZ = 2048\<rparr>"

lemma plain_kernel_ok [simp]: "kernel_ok plain_kernel" "\<not> on_altstack st plain_kernel"
  by (simp_all add: plain_kernel_def kernel_ok_def on_altstack_def)

definition example_program :: program where
  "example_program = main_start [''a''] [''a'' \<mapsto> \<lparr>numbers_left = [5, 3], ends_with_junk = False\<rparr>]
     (\<lambda>_. 7) (\<lambda>_. \<lparr>tv_sec = 0, tv_nsec = 0\<rparr>)"

lemma example_start:
  "\<exists>s c c'. create_coros 2 24 Null (coro_sched_init (coro_static plain_kernel example_program)) = ret s
    \<and> coros_ok s [c, c'] \<and> coro_chain s [c, c'] \<and> unfinished s [c, c'] \<and> own_stacks s [c, c']
    \<and> program_inv [''a''] (disk example_program) (\<lambda>_. 7) (conts s [c, c']) (shared s) \<and> coro_this_ptr s = Sched"
proof -
  let ?dsk = "[''a'' \<mapsto> \<lparr>numbers_left = [5, 3], ends_with_junk = False\<rparr>] :: string \<Rightarrow> text_file option"
  have "files_ok [''a''] ?dsk" by (simp add: files_ok_def)
  from create_coros_start [OF _ plain_kernel_ok this, of 24 2 "\<lambda>_. 7" "\<lambda>_. \<lparr>tv_sec = 0, tv_nsec = 0\<rparr>"] obtain s cs where
    s: "create_coros 2 24 Null (coro_sched_init (coro_static plain_kernel example_program)) = ret s" "ready_coros s cs"
      "program_inv [''a''] ?dsk (\<lambda>_. 7) (conts s cs) (shared s)" "length cs = 2"
    by (auto simp: example_program_def)
  from s(4) obtain c c' where cs: "cs = [c, c']"
    by (auto simp: length_Suc_conv numeral_2_eq_2)
  have "disk example_program = ?dsk" by (simp add: example_program_def main_start_def program_start_def)
  with s cs ready_coros_ok [OF s(2)] show ?thesis unfolding ready_coros_def by metis
qed

end
