(* ===== verification/Tp_Model.thy ===== *)
theory Tp_Model
  imports Linked_List
begin

text \<open>
  The thread pool of homework04/thread_pool.c. Every section of code between locking and
  unlocking the pool's mutex is one function on the state (the mutex makes it atomic); a wait on
  a condition variable ends one section and begins the next. The worker threads are part of the
  state, each at a program point outside the critical sections, and so is the client that deletes
  the pool. A thread that waits for a condition variable takes no step until it is woken by a
  signal, a broadcast or spuriously; waking it moves it to the point before the next section.
  Locking the mutex of a freed pool is a use after free.

  One pool is modelled. A task's function is a function from the argument to the result; calling
  it is a step of its worker outside the mutex. Flags, counters, the queue and the lists of a
  task are as in the C code; a result that was never stored is \<open>None\<close>.
\<close>

section \<open>State\<close>

record tp_task =
  thread_task :: ptr
  t_result :: "int option"
  t_finished :: bool
  t_running :: bool
  is_pushed :: bool
  is_joined :: bool
  is_detached :: bool
  t_next :: ptr
  t_prev :: ptr

record tp_task_list =
  l_tp_task :: ptr
  l_next :: ptr

record thread_task =
  t_function :: "int \<Rightarrow> int"
  t_arg :: int
  t_list :: ptr

text \<open>
  A worker is before the test for a task (at the top of its loop, or woken in the loop of the wait,
  where the same test follows), blocked in the wait for \<open>work_cond\<close>, runs a task outside the mutex,
  has run it, or has ended.
\<close>

datatype worker = AtTop | Waiting | Executing ptr | Executed ptr | Exited

text \<open>
  The client that deletes the pool: none yet, blocked in the wait for \<open>thread_finish_cond\<close>, woken there,
  or done, and the pool is freed.
\<close>

datatype deleter = NotDeleting | DeleteWaits | DeleteWoken | PoolFreed

record pool =
  max_threads_cnt :: int
  threads_cnt :: int
  active_threads_cnt :: int
  is_active :: bool
  p_task :: ptr
  last_task :: ptr
  tasks_cnt :: int
  tps :: "nat \<rightharpoonup> tp_task"
  cells :: "nat \<rightharpoonup> tp_task_list"
  ttasks :: "nat \<rightharpoonup> thread_task"
  next_addr :: nat
  workers :: "worker list"
  deleter :: deleter

definition TPOOL_MAX_THREADS :: int where "TPOOL_MAX_THREADS = 20"
definition TPOOL_MAX_TASKS :: int where "TPOOL_MAX_TASKS = 100000"

text \<open>The return value 0 is \<open>TpOk\<close>.\<close>

datatype tp_code = TpOk | INVALID_ARGUMENT | TOO_MANY_TASKS | HAS_TASKS | TASK_NOT_PUSHED
  | TASK_IN_POOL | NOT_IMPLEMENTED | TIMEOUT

definition upd_tp :: "ptr \<Rightarrow> (tp_task \<Rightarrow> tp_task) \<Rightarrow> pool \<Rightarrow> pool res" where
  "upd_tp p f s = bindR (store (tps s) p f) (\<lambda>h. ret (s\<lparr>tps := h\<rparr>))"

definition upd_ttask :: "ptr \<Rightarrow> (thread_task \<Rightarrow> thread_task) \<Rightarrow> pool \<Rightarrow> pool res" where
  "upd_ttask p f s = bindR (store (ttasks s) p f) (\<lambda>h. ret (s\<lparr>ttasks := h\<rparr>))"

section \<open>The mutex and the condition variables\<close>

definition pool_lock :: "pool \<Rightarrow> pool res" where
  "pool_lock s = (if deleter s = PoolFreed then fail UseAfterFree else ret s)"

fun wake :: "worker \<Rightarrow> worker" where
  "wake Waiting = AtTop"
| "wake w = w"

text \<open>\<open>pthread_cond_broadcast\<close> on \<open>work_cond\<close>, and \<open>pthread_cond_signal\<close> on \<open>thread_finish_cond\<close>.\<close>

definition broadcast_work :: "pool \<Rightarrow> pool" where
  "broadcast_work s = s\<lparr>workers := map wake (workers s)\<rparr>"

definition signal_finish :: "pool \<Rightarrow> pool" where
  "signal_finish s = (if deleter s = DeleteWaits then s\<lparr>deleter := DeleteWoken\<rparr> else s)"

section \<open>Creating pools and tasks\<close>

definition thread_pool_new :: "int \<Rightarrow> tp_code \<times> pool option" where
  "thread_pool_new max_thread_count =
     (if max_thread_count > TPOOL_MAX_THREADS \<or> max_thread_count \<le> 0
      then (INVALID_ARGUMENT, None)
      else (TpOk, Some \<lparr>max_threads_cnt = max_thread_count, threads_cnt = 0, active_threads_cnt = 0,
        is_active = True, p_task = Null, last_task = Null, tasks_cnt = 0, tps = Map.empty,
        cells = Map.empty, ttasks = Map.empty, next_addr = 0, workers = [], deleter = NotDeleting\<rparr>))"

definition thread_pool_thread_count :: "pool \<Rightarrow> int res" where
  "thread_pool_thread_count s = (if deleter s = PoolFreed then fail UseAfterFree else ret (threads_cnt s))"

definition thread_task_new :: "(int \<Rightarrow> int) \<Rightarrow> int \<Rightarrow> pool \<Rightarrow> ptr \<times> pool" where
  "thread_task_new f a s =
     (Ptr (next_addr s), s\<lparr>ttasks := (ttasks s)(next_addr s \<mapsto> \<lparr>t_function = f, t_arg = a, t_list = Null\<rparr>),
        next_addr := Suc (next_addr s)\<rparr>)"

definition get_tp_task :: "pool \<Rightarrow> ptr \<Rightarrow> ptr res" where
  "get_tp_task s task =
     bindR (load (ttasks s) task) (\<lambda>t.
     bindR (is_null (t_list t)) (\<lambda>z.
     if z then ret Null else bindR (load (cells s) (t_list t)) (\<lambda>c. ret (l_tp_task c))))"

definition make_thread_pool_task :: "ptr \<Rightarrow> pool \<Rightarrow> (ptr \<times> pool) res" where
  "make_thread_pool_task task s =
     (let tp = next_addr s; c = Suc tp;
          s = s\<lparr>tps := (tps s)(tp \<mapsto> \<lparr>thread_task = task, t_result = None, t_finished = False, t_running = False,
                is_pushed = False, is_joined = False, is_detached = False, t_next = Null, t_prev = Null\<rparr>)\<rparr>
      in bindR (load (ttasks s) task) (\<lambda>t.
         let s = s\<lparr>cells := (cells s)(c \<mapsto> \<lparr>l_tp_task = Ptr tp, l_next = t_list t\<rparr>), next_addr := Suc c\<rparr>
         in bindR (upd_ttask task (\<lambda>t. t\<lparr>t_list := Ptr c\<rparr>) s) (\<lambda>s. ret (Ptr tp, s))))"

section \<open>Pushing\<close>

text \<open>\<open>pthread_create\<close> stores the new thread in the array \<open>threads\<close> of \<open>max_threads_cnt\<close> cells.\<close>

definition create_thread :: "pool \<Rightarrow> pool res" where
  "create_thread s =
     (if 0 \<le> threads_cnt s \<and> threads_cnt s < max_threads_cnt s
      then ret (s\<lparr>workers := workers s @ [AtTop], threads_cnt := threads_cnt s + 1\<rparr>) else fail OutOfBounds)"

definition thread_pool_push_task :: "ptr \<Rightarrow> pool \<Rightarrow> (tp_code \<times> pool) res" where
  "thread_pool_push_task task s =
     bindR (pool_lock s) (\<lambda>s.
      if tasks_cnt s = TPOOL_MAX_TASKS then ret (TOO_MANY_TASKS, s)
      else
        bindR (if active_threads_cnt s = threads_cnt s \<and> threads_cnt s < max_threads_cnt s
               then create_thread s else ret s) (\<lambda>s.
        bindR (make_thread_pool_task task s) (\<lambda>(tp, s).
        let s = s\<lparr>tasks_cnt := tasks_cnt s + 1\<rparr> in
        bindR (upd_tp tp (\<lambda>x. x\<lparr>is_pushed := True, t_next := p_task s\<rparr>) s) (\<lambda>s.
        bindR (is_null (p_task s)) (\<lambda>z.
        bindR (if z then ret s else upd_tp (p_task s) (\<lambda>x. x\<lparr>t_prev := tp\<rparr>) s) (\<lambda>s.
        let s = s\<lparr>p_task := tp\<rparr> in
        bindR (is_null (last_task s)) (\<lambda>zl.
        ret (TpOk, broadcast_work (if zl then s\<lparr>last_task := tp\<rparr> else s)))))))))"

section \<open>The workers\<close>

partial_function (option) get_task_from :: "pool \<Rightarrow> ptr \<Rightarrow> ptr res" where
  "get_task_from s task =
     bindR (is_null task) (\<lambda>z.
     if z then ret Null
     else bindR (load (tps s) task) (\<lambda>x.
          if t_running x \<or> t_finished x then get_task_from s (t_next x) else ret task))"

definition get_task :: "pool \<Rightarrow> ptr res" where
  "get_task s = get_task_from s (p_task s)"

text \<open>The task that is taken moves to the end of the queue.\<close>

definition move_to_end :: "ptr \<Rightarrow> pool \<Rightarrow> pool res" where
  "move_to_end tp s =
     (if tp = last_task s then ret s
      else bindR (load (tps s) tp) (\<lambda>x.
        let tp_next = t_next x; tp_prev = t_prev x in
        if p_task s = tp then
          let s = s\<lparr>p_task := tp_next\<rparr> in
          bindR (upd_tp tp_next (\<lambda>y. y\<lparr>t_prev := Null\<rparr>) s) (\<lambda>s.
          bindR (upd_tp tp (\<lambda>y. y\<lparr>t_prev := last_task s\<rparr>) s) (\<lambda>s.
          bindR (upd_tp (last_task s) (\<lambda>y. y\<lparr>t_next := tp\<rparr>) s) (\<lambda>s.
          bindR (upd_tp tp (\<lambda>y. y\<lparr>t_next := Null\<rparr>) s) (\<lambda>s.
          ret (s\<lparr>last_task := tp\<rparr>)))))
        else
          bindR (upd_tp tp_next (\<lambda>y. y\<lparr>t_prev := tp_prev\<rparr>) s) (\<lambda>s.
          bindR (upd_tp tp_prev (\<lambda>y. y\<lparr>t_next := tp_next\<rparr>) s) (\<lambda>s.
          bindR (upd_tp tp (\<lambda>y. y\<lparr>t_prev := last_task s, t_next := Null\<rparr>) s) (\<lambda>s.
          ret (s\<lparr>last_task := tp\<rparr>))))))"

text \<open>
  The first critical section of \<open>thread_pool_worker\<close>, up to the wait, to the call of the task's
  function or to the end of the thread.
\<close>

definition worker_take :: "nat \<Rightarrow> pool \<Rightarrow> pool res" where
  "worker_take i s =
     bindR (pool_lock s) (\<lambda>s.
     bindR (get_task s) (\<lambda>tp.
     bindR (is_null tp) (\<lambda>z.
     if z \<and> is_active s then ret (s\<lparr>workers := (workers s)[i := Waiting]\<rparr>)
     else
       let s = s\<lparr>active_threads_cnt := active_threads_cnt s + 1\<rparr> in
       if \<not> is_active s then
         ret (signal_finish (s\<lparr>threads_cnt := threads_cnt s - 1, active_threads_cnt := active_threads_cnt s - 1,
                workers := (workers s)[i := Exited]\<rparr>))
       else
         bindR (upd_tp tp (\<lambda>x. x\<lparr>t_running := True\<rparr>) s) (\<lambda>s.
         bindR (move_to_end tp s) (\<lambda>s.
         ret (s\<lparr>workers := (workers s)[i := Executing tp]\<rparr>))))))"

text \<open>The call of the task's function, outside the mutex.\<close>

definition worker_call :: "nat \<Rightarrow> ptr \<Rightarrow> pool \<Rightarrow> pool res" where
  "worker_call i tp s =
     bindR (load (tps s) tp) (\<lambda>x.
     bindR (load (ttasks s) (thread_task x)) (\<lambda>t.
     bindR (upd_tp tp (\<lambda>x. x\<lparr>t_result := Some (t_function t (t_arg t))\<rparr>) s) (\<lambda>s.
     ret (s\<lparr>workers := (workers s)[i := Executed tp]\<rparr>))))"

section \<open>Deleting tasks\<close>

text \<open>The loop that checks whether all pushes of the task can be dropped.\<close>

partial_function (option) can_drop :: "pool \<Rightarrow> ptr \<Rightarrow> bool res" where
  "can_drop s list_it =
     bindR (is_null list_it) (\<lambda>z.
     if z then ret True
     else bindR (load (cells s) list_it) (\<lambda>c.
          bindR (load (tps s) (l_tp_task c)) (\<lambda>x.
          if \<not> (is_joined x \<or> (is_detached x \<and> t_finished x)) then ret False
          else can_drop s (l_next c))))"

text \<open>One round of the loop that removes a push from the queue and frees it.\<close>

definition drop_tp :: "ptr \<Rightarrow> pool \<Rightarrow> pool res" where
  "drop_tp tp s =
     bindR (load (tps s) tp) (\<lambda>x.
     let tp_prev = t_prev x; tp_next = t_next x;
         s = (if last_task s = tp then s\<lparr>last_task := tp_prev\<rparr> else s) in
     bindR (is_null tp_prev) (\<lambda>zp.
     bindR (is_null tp_next) (\<lambda>zn.
     bindR (if zp
            then bindR (if zn then ret s else upd_tp tp_next (\<lambda>y. y\<lparr>t_prev := Null\<rparr>) s) (\<lambda>s.
                 ret (s\<lparr>p_task := tp_next\<rparr>))
            else bindR (if zn then ret s else upd_tp tp_next (\<lambda>y. y\<lparr>t_prev := tp_prev\<rparr>) s) (\<lambda>s.
                 upd_tp tp_prev (\<lambda>y. y\<lparr>t_next := tp_next\<rparr>) s)) (\<lambda>s.
     bindR (release (tps s) tp) (\<lambda>h. ret (s\<lparr>tps := h\<rparr>))))))"

partial_function (option) drop_all :: "pool \<Rightarrow> ptr \<Rightarrow> int \<Rightarrow> (int \<times> pool) res" where
  "drop_all s list_it deleted_tasks_cnt =
     bindR (is_null list_it) (\<lambda>z.
     if z then ret (deleted_tasks_cnt, s)
     else bindR (load (cells s) list_it) (\<lambda>c.
          bindR (drop_tp (l_tp_task c) s) (\<lambda>s.
          drop_all s (l_next c) (deleted_tasks_cnt + 1))))"

partial_function (option) free_cells :: "pool \<Rightarrow> ptr \<Rightarrow> pool res" where
  "free_cells s list_it =
     bindR (is_null list_it) (\<lambda>z.
     if z then ret s
     else bindR (load (cells s) list_it) (\<lambda>c.
          bindR (release (cells s) list_it) (\<lambda>h.
          free_cells (s\<lparr>cells := h\<rparr>) (l_next c))))"

definition free_ttask :: "ptr \<Rightarrow> pool \<Rightarrow> pool res" where
  "free_ttask task s = bindR (release (ttasks s) task) (\<lambda>h. ret (s\<lparr>ttasks := h\<rparr>))"

definition delete_task :: "ptr \<Rightarrow> pool \<Rightarrow> (tp_code \<times> pool) res" where
  "delete_task task s =
     bindR (get_tp_task s task) (\<lambda>tp.
     bindR (is_null tp) (\<lambda>z.
     if z then bindR (free_ttask task s) (\<lambda>s. ret (TpOk, s))
     else bindR (load (ttasks s) task) (\<lambda>t.
       bindR (can_drop s (t_list t)) (\<lambda>ok.
       if \<not> ok then ret (TASK_IN_POOL, s)
       else bindR (drop_all s (t_list t) 0) (\<lambda>(deleted_tasks_cnt, s).
            bindR (free_cells s (t_list t)) (\<lambda>s.
            bindR (free_ttask task s) (\<lambda>s.
            ret (TpOk, s\<lparr>tasks_cnt := tasks_cnt s - deleted_tasks_cnt\<rparr>))))))))"

text \<open>
  \<open>thread_task_delete\<close> frees a task that was never pushed without locking. Deleting and detaching a
  task are one step: no other client may use the task meanwhile.
\<close>

definition thread_task_delete :: "ptr \<Rightarrow> pool \<Rightarrow> (tp_code \<times> pool) res" where
  "thread_task_delete task s =
     bindR (get_tp_task s task) (\<lambda>tp.
     bindR (is_null tp) (\<lambda>z.
     if z then bindR (free_ttask task s) (\<lambda>s. ret (TpOk, s))
     else bindR (pool_lock s) (delete_task task)))"

text \<open>
  The last critical section of a worker's round. \<open>pthread_cond_signal\<close> on the end condition
  touches the task's memory, after a detached task has been deleted; which client it wakes is in
  the theory Tp_Run.
\<close>

definition worker_finish :: "nat \<Rightarrow> ptr \<Rightarrow> pool \<Rightarrow> pool res" where
  "worker_finish i tp s =
     bindR (pool_lock s) (\<lambda>s.
     bindR (upd_tp tp (\<lambda>x. x\<lparr>t_finished := True, t_running := False\<rparr>) s) (\<lambda>s.
     let s = s\<lparr>active_threads_cnt := active_threads_cnt s - 1\<rparr> in
     bindR (load (tps s) tp) (\<lambda>x.
     bindR (if is_detached x then bindR (delete_task (thread_task x) s) (\<lambda>(code, s). ret s) else ret s) (\<lambda>s.
     bindR (load (tps s) tp) (\<lambda>signalled.
     ret (s\<lparr>workers := (workers s)[i := AtTop]\<rparr>))))))"

section \<open>Queries and joins\<close>

definition thread_task_is_finished :: "pool \<Rightarrow> ptr \<Rightarrow> bool res" where
  "thread_task_is_finished s task =
     bindR (get_tp_task s task) (\<lambda>tp.
     bindR (is_null tp) (\<lambda>z.
     if z then ret False
     else bindR (pool_lock s) (\<lambda>s. bindR (load (tps s) tp) (\<lambda>x. ret (t_finished x)))))"

definition thread_task_is_running :: "pool \<Rightarrow> ptr \<Rightarrow> bool res" where
  "thread_task_is_running s task =
     bindR (get_tp_task s task) (\<lambda>tp.
     bindR (is_null tp) (\<lambda>z.
     if z then ret False
     else bindR (pool_lock s) (\<lambda>s. bindR (load (tps s) tp) (\<lambda>x. ret (t_running x)))))"

text \<open>
  Both joins read the task's last push and its pool before they lock the mutex. A join ends at once
  (\<open>Inl\<close>: the code, and the result when there is one) or goes on with a push (\<open>Inr\<close>), first to the lock,
  then to the wait for the push's end condition.
\<close>

type_synonym join_out = "(tp_code \<times> int option) + ptr"

definition read_result :: "pool \<Rightarrow> ptr \<Rightarrow> join_out res" where
  "read_result s tp =
     bindR (load (tps s) tp) (\<lambda>x. case t_result x of None \<Rightarrow> fail UninitRead | Some r \<Rightarrow> ret (Inl (TpOk, Some r)))"

definition join_lookup :: "ptr \<Rightarrow> pool \<Rightarrow> join_out res" where
  "join_lookup task s =
     bindR (get_tp_task s task) (\<lambda>tp.
     bindR (is_null tp) (\<lambda>z.
     if z then ret (Inl (TASK_NOT_PUSHED, None))
     else bindR (load (tps s) tp) (\<lambda>x. ret (Inr tp))))"

definition join_begin :: "ptr \<Rightarrow> pool \<Rightarrow> (join_out \<times> pool) res" where
  "join_begin tp s =
     bindR (pool_lock s) (\<lambda>s.
     bindR (upd_tp tp (\<lambda>x. x\<lparr>is_joined := True\<rparr>) s) (\<lambda>s.
     bindR (load (tps s) tp) (\<lambda>x.
     if \<not> t_finished x then ret (Inr tp, s)
     else bindR (read_result s tp) (\<lambda>out. ret (out, s)))))"

text \<open>
  After the wait of \<open>thread_task_join\<close> the result is read, whatever ended the wait. Of the timeout
  of a timed join only the sign matters before the wait; whether the time ran out is an argument
  of the part after it.
\<close>

definition join_end :: "ptr \<Rightarrow> pool \<Rightarrow> join_out res" where
  "join_end tp s = bindR (pool_lock s) (\<lambda>s. read_result s tp)"

definition timed_join_begin :: "int \<Rightarrow> ptr \<Rightarrow> pool \<Rightarrow> (join_out \<times> pool) res" where
  "timed_join_begin timeout tp s =
     bindR (pool_lock s) (\<lambda>s.
     if timeout \<le> 0 then ret (Inl (TIMEOUT, None), s)
     else bindR (upd_tp tp (\<lambda>x. x\<lparr>is_joined := True\<rparr>) s) (\<lambda>s.
          bindR (load (tps s) tp) (\<lambda>x.
          if \<not> t_finished x then ret (Inr tp, s)
          else bindR (read_result s tp) (\<lambda>out. ret (out, s)))))"

definition timed_join_end :: "bool \<Rightarrow> ptr \<Rightarrow> pool \<Rightarrow> join_out res" where
  "timed_join_end timed_out tp s =
     bindR (pool_lock s) (\<lambda>s. if timed_out then ret (Inl (TIMEOUT, None)) else read_result s tp)"

definition thread_task_detach :: "ptr \<Rightarrow> pool \<Rightarrow> (tp_code \<times> pool) res" where
  "thread_task_detach task s =
     bindR (get_tp_task s task) (\<lambda>tp.
     bindR (is_null tp) (\<lambda>z.
     if z then ret (TASK_NOT_PUSHED, s)
     else bindR (pool_lock s) (\<lambda>s.
          bindR (upd_tp tp (\<lambda>x. x\<lparr>is_detached := True\<rparr>) s) (\<lambda>s.
          bindR (load (tps s) tp) (\<lambda>x.
          bindR (if t_finished x then bindR (delete_task task s) (\<lambda>(code, s). ret s) else ret s) (\<lambda>s.
          ret (TpOk, s)))))))"

section \<open>Deleting the pool\<close>

text \<open>
  The loop of the wait for the threads: while there are threads the caller is blocked, afterwards it
  destroys mutex and condition variables and frees the pool. \<open>None\<close>: it has not returned yet.
\<close>

definition delete_loop :: "pool \<Rightarrow> tp_code option \<times> pool" where
  "delete_loop s =
     (if threads_cnt s \<noteq> 0 then (None, s\<lparr>deleter := DeleteWaits\<rparr>) else (Some TpOk, s\<lparr>deleter := PoolFreed\<rparr>))"

definition pool_delete_begin :: "pool \<Rightarrow> (tp_code option \<times> pool) res" where
  "pool_delete_begin s =
     bindR (pool_lock s) (\<lambda>s.
     if tasks_cnt s > 0 then ret (Some HAS_TASKS, s)
     else ret (delete_loop (broadcast_work (s\<lparr>is_active := False\<rparr>))))"

text \<open>The caller has been woken in the wait.\<close>

definition pool_delete_end :: "pool \<Rightarrow> (tp_code option \<times> pool) res" where
  "pool_delete_end s = bindR (pool_lock s) (\<lambda>s. ret (delete_loop s))"

lemmas tp_unfolds [code] =
  get_task_from.simps
  can_drop.simps
  drop_all.simps
  free_cells.simps

end
