(* ===== verification/Tp_Inv.thy ===== *)
theory Tp_Inv
  imports Tp_Model "HOL-Library.Multiset"
begin

text \<open>
  The invariant of the thread pool: the queue is a doubly linked list whose front part are the
  pushes that wait for a worker; every push belongs to one task and is reached through the
  task's list; the flags, the counters and the states of the workers agree.
\<close>

interpretation qnode: dnode t_next t_prev "\<lambda>p x. x\<lparr>t_next := p\<rparr>" "\<lambda>p x. x\<lparr>t_prev := p\<rparr>"
  by unfold_locales simp_all

section \<open>Links\<close>

text \<open>Two heaps that differ in the links of the queue only.\<close>

definition core :: "tp_task \<Rightarrow> tp_task" where
  "core x = x\<lparr>t_next := Null, t_prev := Null\<rparr>"

lemma core_upd [simp]: "core (x\<lparr>t_next := n\<rparr>) = core x" "core (x\<lparr>t_prev := n\<rparr>) = core x"
  by (simp_all add: core_def)

lemma core_eq: "core y = core x \<longleftrightarrow> (\<exists>n p. y = x\<lparr>t_next := n, t_prev := p\<rparr>)"
proof
  assume "core y = core x"
  then have "y = x\<lparr>t_next := t_next y, t_prev := t_prev y\<rparr>"
    unfolding core_def by (cases x; cases y) simp
  then show "\<exists>n p. y = x\<lparr>t_next := n, t_prev := p\<rparr>" by blast
qed auto

definition same_tasks :: "(nat \<rightharpoonup> tp_task) \<Rightarrow> (nat \<rightharpoonup> tp_task) \<Rightarrow> bool" where
  "same_tasks h h' \<longleftrightarrow> (\<forall>a. map_option core (h' a) = map_option core (h a))"

lemma same_tasks_refl [simp]: "same_tasks h h"
  by (simp add: same_tasks_def)

lemma same_tasks_trans: "same_tasks h h' \<Longrightarrow> same_tasks h' h'' \<Longrightarrow> same_tasks h h''"
  by (simp add: same_tasks_def)

lemma same_tasks_sym: "same_tasks h h' \<Longrightarrow> same_tasks h' h"
  by (simp add: same_tasks_def)

lemma same_tasks_upd:
  assumes "same_tasks h h'" "h' a = Some x" "core x' = core x"
  shows "same_tasks h (h'(a \<mapsto> x'))"
  unfolding same_tasks_def
proof
  fix b
  show "map_option core ((h'(a \<mapsto> x')) b) = map_option core (h b)"
    using assms(1) [unfolded same_tasks_def, rule_format, of b] assms(2,3) by (cases "b = a") simp_all
qed

lemma same_tasks_Some:
  assumes "same_tasks h h'" "h a = Some x"
  shows "\<exists>n p. h' a = Some (x\<lparr>t_next := n, t_prev := p\<rparr>)"
proof -
  from assms have "map_option core (h' a) = Some (core x)"
    by (simp add: same_tasks_def)
  then obtain y where "h' a = Some y" "core y = core x" by (cases "h' a") auto
  then show ?thesis unfolding core_eq by blast
qed

lemma same_tasks_None: "same_tasks h h' \<Longrightarrow> h a = None \<Longrightarrow> h' a = None"
proof -
  assume "same_tasks h h'" "h a = None"
  then have "map_option core (h' a) = None" by (simp add: same_tasks_def)
  then show ?thesis by simp
qed

lemma same_tasks_dom: "same_tasks h h' \<Longrightarrow> dom h' = dom h"
proof (intro set_eqI)
  fix a assume "same_tasks h h'"
  then show "a \<in> dom h' \<longleftrightarrow> a \<in> dom h"
    using same_tasks_Some [of h h' a] same_tasks_None [of h h' a] by (cases "h a") auto
qed

section \<open>The lists of the tasks\<close>

text \<open>The list of a task: pairs of a cell and the push it points to, the last push first.\<close>

fun cell_list :: "(nat \<rightharpoonup> tp_task_list) \<Rightarrow> ptr \<Rightarrow> (nat \<times> nat) list \<Rightarrow> bool" where
  "cell_list h p [] \<longleftrightarrow> p = Null"
| "cell_list h p ((c, a) # cs) \<longleftrightarrow> p = Ptr c \<and> (\<exists>x. h c = Some x \<and> l_tp_task x = Ptr a \<and> cell_list h (l_next x) cs)"

lemma cell_list_frame: "cell_list h p cs \<Longrightarrow> (\<And>c. c \<in> fst ` set cs \<Longrightarrow> h' c = h c) \<Longrightarrow> cell_list h' p cs"
  by (induction cs arbitrary: p) auto

lemma cell_list_cell: "cell_list h p cs \<Longrightarrow> (c, a) \<in> set cs \<Longrightarrow> \<exists>x. h c = Some x \<and> l_tp_task x = Ptr a"
  by (induction cs arbitrary: p) auto

text \<open>\<open>own k\<close> are the cells and pushes of the task at \<open>k\<close>.\<close>

definition own_inv :: "(nat \<rightharpoonup> tp_task) \<Rightarrow> (nat \<rightharpoonup> tp_task_list) \<Rightarrow> (nat \<rightharpoonup> thread_task)
    \<Rightarrow> (nat \<Rightarrow> (nat \<times> nat) list) \<Rightarrow> bool" where
  "own_inv h cl tt own \<longleftrightarrow>
     (\<forall>k t. tt k = Some t \<longrightarrow> cell_list cl (t_list t) (own k))
     \<and> (\<forall>k. tt k = None \<longrightarrow> own k = [])
     \<and> (\<forall>k. distinct (map snd (own k)))
     \<and> (\<forall>k c a. (c, a) \<in> set (own k) \<longrightarrow> (\<exists>x. h a = Some x \<and> thread_task x = Ptr k))
     \<and> (\<forall>c. c \<in> dom cl \<longrightarrow> (\<exists>k a. (c, a) \<in> set (own k)))
     \<and> (\<forall>a x k. h a = Some x \<longrightarrow> thread_task x = Ptr k \<longrightarrow> (\<exists>c. (c, a) \<in> set (own k)))"

lemma own_invD:
  assumes "own_inv h cl tt own"
  shows "tt k = Some t \<Longrightarrow> cell_list cl (t_list t) (own k)"
    and "tt k = None \<Longrightarrow> own k = []"
    and "distinct (map snd (own k))"
    and "(c, a) \<in> set (own k) \<Longrightarrow> \<exists>x. h a = Some x \<and> thread_task x = Ptr k"
    and "c \<in> dom cl \<Longrightarrow> \<exists>k a. (c, a) \<in> set (own k)"
    and "h a = Some x \<Longrightarrow> thread_task x = Ptr k \<Longrightarrow> \<exists>c. (c, a) \<in> set (own k)"
  using assms unfolding own_inv_def by blast+

lemma own_task: "own_inv h cl tt own \<Longrightarrow> own k \<noteq> [] \<Longrightarrow> \<exists>t. tt k = Some t"
  using own_invD(2) by (cases "tt k") blast+

text \<open>What holds of every push.\<close>

definition push_ok :: "(nat \<rightharpoonup> thread_task) \<Rightarrow> tp_task \<Rightarrow> bool" where
  "push_ok tt x \<longleftrightarrow> is_pushed x \<and> \<not> (t_running x \<and> t_finished x) \<and> (is_detached x \<longrightarrow> t_finished x)
     \<and> (\<exists>k t. thread_task x = Ptr k \<and> tt k = Some t
          \<and> (t_finished x \<longrightarrow> t_result x = Some (t_function t (t_arg t))))"

definition is_idle :: "tp_task \<Rightarrow> bool" where
  "is_idle x \<longleftrightarrow> \<not> t_running x \<and> \<not> t_finished x"

text \<open>A cell belongs to one task.\<close>

lemma own_unique:
  assumes "own_inv h cl tt own" "(c, a) \<in> set (own k)" "(c, a') \<in> set (own k')"
  shows "k = k' \<and> a = a'"
proof -
  have "own k \<noteq> []" "own k' \<noteq> []" using assms(2,3) by auto
  then obtain t t' where "tt k = Some t" "tt k' = Some t'"
    using own_task [OF assms(1)] by blast
  then have "cell_list cl (t_list t) (own k)" "cell_list cl (t_list t') (own k')"
    using own_invD(1) [OF assms(1)] by blast+
  from cell_list_cell [OF this(1) assms(2)] cell_list_cell [OF this(2) assms(3)] have "a = a'" by auto
  moreover obtain x where "h a = Some x" "thread_task x = Ptr k" using own_invD(4) [OF assms(1,2)] by blast
  moreover obtain x where "h a' = Some x" "thread_task x = Ptr k'" using own_invD(4) [OF assms(1,3)] by blast
  ultimately show ?thesis by simp
qed

section \<open>The workers\<close>

fun worker_task :: "worker \<Rightarrow> ptr multiset" where
  "worker_task (Executing p) = {#p#}"
| "worker_task (Executed p) = {#p#}"
| "worker_task w = {#}"

definition busy :: "worker list \<Rightarrow> ptr multiset" where
  "busy ws = sum_list (map worker_task ws)"

lemma busy_simps [simp]:
  "busy [] = {#}" "busy (w # ws) = worker_task w + busy ws" "busy (ws @ vs) = busy ws + busy vs"
  by (simp_all add: busy_def)

lemma busy_upd: "i < length ws \<Longrightarrow> busy (ws[i := w]) + worker_task (ws ! i) = busy ws + worker_task w"
  by (induction ws arbitrary: i) (auto simp: nth_Cons' ac_simps split: nat.split)

definition alive :: "worker list \<Rightarrow> nat" where
  "alive ws = length (filter (\<lambda>w. w \<noteq> Exited) ws)"

lemma alive_simps [simp]:
  "alive [] = 0" "alive (w # ws) = (if w = Exited then 0 else 1) + alive ws" "alive (ws @ vs) = alive ws + alive vs"
  by (simp_all add: alive_def)

lemma alive_upd: "i < length ws \<Longrightarrow>
    alive (ws[i := w]) + (if ws ! i = Exited then 0 else 1) = alive ws + (if w = Exited then 0 else 1)"
proof (induction ws arbitrary: i)
  case (Cons v ws)
  show ?case
  proof (cases i)
    case (Suc j)
    with Cons.IH [of j] Cons.prems show ?thesis by auto
  qed auto
qed simp

lemma busy_alive: "size (busy ws) \<le> alive ws"
proof (induction ws)
  case (Cons w ws)
  then show ?case by (cases w) auto
qed simp

definition running_at :: "(nat \<rightharpoonup> tp_task) \<Rightarrow> ptr \<Rightarrow> bool" where
  "running_at h p \<longleftrightarrow> (\<exists>a x. p = Ptr a \<and> h a = Some x \<and> t_running x)"

definition workers_inv :: "(nat \<rightharpoonup> tp_task) \<Rightarrow> (nat \<rightharpoonup> thread_task) \<Rightarrow> worker list \<Rightarrow> bool" where
  "workers_inv h tt ws \<longleftrightarrow>
     (\<forall>p. count (busy ws) p = (if running_at h p then 1 else 0))
     \<and> (\<forall>a x k t. Executed (Ptr a) \<in> set ws \<longrightarrow> h a = Some x \<longrightarrow> thread_task x = Ptr k \<longrightarrow> tt k = Some t
          \<longrightarrow> t_result x = Some (t_function t (t_arg t)))"

section \<open>The invariant\<close>

text \<open>\<open>pend\<close> are the waiting pushes, the next one first, \<open>rest\<close> the others in the queue.\<close>

definition tp_inv :: "pool \<Rightarrow> nat list \<Rightarrow> nat list \<Rightarrow> (nat \<Rightarrow> (nat \<times> nat) list) \<Rightarrow> bool" where
  "tp_inv s pend rest own \<longleftrightarrow>
     chain t_next t_prev (tps s) Null (p_task s) (pend @ rest) Null
     \<and> last_task s = last_ptr Null (pend @ rest)
     \<and> dom (tps s) = set (pend @ rest)
     \<and> (\<forall>a \<in> set pend. is_idle (the (tps s a))) \<and> (\<forall>a \<in> set rest. \<not> is_idle (the (tps s a)))
     \<and> (\<forall>a x. tps s a = Some x \<longrightarrow> push_ok (ttasks s) x)
     \<and> own_inv (tps s) (cells s) (ttasks s) own
     \<and> workers_inv (tps s) (ttasks s) (workers s)
     \<and> (\<forall>a \<ge> next_addr s. tps s a = None \<and> cells s a = None \<and> ttasks s a = None)
     \<and> tasks_cnt s = int (length (pend @ rest)) \<and> tasks_cnt s \<le> TPOOL_MAX_TASKS
     \<and> active_threads_cnt s = int (size (busy (workers s))) \<and> threads_cnt s = int (alive (workers s))
     \<and> threads_cnt s \<le> max_threads_cnt s \<and> 0 < max_threads_cnt s \<and> max_threads_cnt s \<le> TPOOL_MAX_THREADS
     \<and> (deleter s = PoolFreed \<longrightarrow> pend @ rest = [] \<and> alive (workers s) = 0)"

lemma thread_pool_new_inv:
  "thread_pool_new n = (TpOk, Some s) \<Longrightarrow> tp_inv s [] [] (\<lambda>_. [])"
  by (auto simp: thread_pool_new_def tp_inv_def own_inv_def workers_inv_def running_at_def TPOOL_MAX_TASKS_def split: if_splits)

section \<open>Steps that leave parts of the invariant alone\<close>

lemma own_inv_cong:
  assumes "own_inv h cl tt own" "\<And>a. map_option thread_task (h' a) = map_option thread_task (h a)"
  shows "own_inv h' cl tt own"
proof -
  have ex: "\<exists>x. h' a = Some x \<and> thread_task x = p" if "h a = Some x" "thread_task x = p" for a x p
    using assms(2) [of a] that by (cases "h' a") auto
  have ex': "\<exists>x. h a = Some x \<and> thread_task x = p" if "h' a = Some x" "thread_task x = p" for a x p
    using assms(2) [of a] that by (cases "h a") auto
  note D = own_invD [OF assms(1)]
  show ?thesis
    unfolding own_inv_def
  proof (intro conjI allI impI)
    fix k t assume "tt k = Some t" then show "cell_list cl (t_list t) (own k)" by (rule D(1))
  next
    fix k assume "tt k = None" then show "own k = []" by (rule D(2))
  next
    fix k show "distinct (map snd (own k))" by (rule D(3))
  next
    fix k c a assume "(c, a) \<in> set (own k)"
    then show "\<exists>x. h' a = Some x \<and> thread_task x = Ptr k" using D(4) ex by blast
  next
    fix c assume "c \<in> dom cl" then show "\<exists>k a. (c, a) \<in> set (own k)" by (rule D(5))
  next
    fix a x k assume "h' a = Some x" "thread_task x = Ptr k"
    then show "\<exists>c. (c, a) \<in> set (own k)" using D(6) ex' by blast
  qed
qed

lemma own_inv_same: "own_inv h cl tt own \<Longrightarrow> same_tasks h h' \<Longrightarrow> own_inv h' cl tt own"
proof (erule own_inv_cong)
  fix a assume "same_tasks h h'"
  then show "map_option thread_task (h' a) = map_option thread_task (h a)"
    using same_tasks_Some [of h h' a] same_tasks_None [of h h' a] by (cases "h a") auto
qed

lemma own_inv_upd: "own_inv h cl tt own \<Longrightarrow> h a = Some x \<Longrightarrow> thread_task x' = thread_task x \<Longrightarrow>
    own_inv (h(a \<mapsto> x')) cl tt own"
  by (erule own_inv_cong) simp

lemma running_at_same: "same_tasks h h' \<Longrightarrow> running_at h' p = running_at h p"
proof -
  assume same: "same_tasks h h'"
  have "running_at h' p" if "running_at h p" "same_tasks h h'" for h h'
  proof -
    from that(1) obtain a x where a: "p = Ptr a" "h a = Some x" "t_running x" by (auto simp: running_at_def)
    from same_tasks_Some [OF that(2) a(2)] a show ?thesis by (auto simp: running_at_def)
  qed
  from this [of h h'] this [of h' h] same same_tasks_sym [OF same] show ?thesis by blast
qed

lemma workers_inv_same:
  assumes "workers_inv h tt ws" "same_tasks h h'"
  shows "workers_inv h' tt ws"
  unfolding workers_inv_def
proof (intro conjI allI impI)
  fix p show "count (busy ws) p = (if running_at h' p then 1 else 0)"
    using assms by (simp add: workers_inv_def running_at_same)
next
  fix a x k t assume *: "Executed (Ptr a) \<in> set ws" "h' a = Some x" "thread_task x = Ptr k" "tt k = Some t"
  from same_tasks_Some [OF same_tasks_sym [OF assms(2)] *(2)] obtain n p where
    "h a = Some (x\<lparr>t_next := n, t_prev := p\<rparr>)" by blast
  with * assms(1) show "t_result x = Some (t_function t (t_arg t))" by (force simp: workers_inv_def)
qed

text \<open>A worker that changes its state together with the push it handles.\<close>

lemma workers_inv_step:
  assumes inv: "workers_inv h tt ws" and i: "i < length ws"
    and busy: "worker_task (ws ! i) = (if t_running x then {#Ptr a#} else {#})"
      "worker_task w = (if t_running x' then {#Ptr a#} else {#})"
    and a: "h a = Some x" "thread_task x' = thread_task x"
    and res: "w = Executed (Ptr a) \<Longrightarrow> \<exists>k t. thread_task x = Ptr k \<and> tt k = Some t \<and> t_result x' = Some (t_function t (t_arg t))"
    and w: "\<And>p. w = Executed p \<Longrightarrow> p = Ptr a"
    and keep: "t_result x' = t_result x \<or> w = Executed (Ptr a)"
  shows "workers_inv (h(a \<mapsto> x')) tt (ws[i := w])"
  unfolding workers_inv_def
proof (intro conjI allI impI)
  fix p
  have "count (busy (ws[i := w])) p + count (worker_task (ws ! i)) p = count (busy ws) p + count (worker_task w) p"
    using arg_cong [OF busy_upd [OF i, of w], of "\<lambda>M. count M p"] by simp
  moreover have "count (busy ws) p = (if running_at h p then 1 else 0)"
    using inv by (simp add: workers_inv_def)
  ultimately show "count (busy (ws[i := w])) p = (if running_at (h(a \<mapsto> x')) p then 1 else 0)"
    using a(1) busy by (cases "p = Ptr a") (auto simp: running_at_def split: if_splits)
next
  fix b y k t assume *: "Executed (Ptr b) \<in> set (ws[i := w])" "(h(a \<mapsto> x')) b = Some y" "thread_task y = Ptr k" "tt k = Some t"
  have "Executed (Ptr b) \<in> set ws \<or> w = Executed (Ptr b)"
    using *(1) set_update_subset_insert [of ws i w] by blast
  then show "t_result y = Some (t_function t (t_arg t))"
  proof
    assume ws: "Executed (Ptr b) \<in> set ws"
    show ?thesis
    proof (cases "b = a")
      case True
      then have y: "y = x'" "thread_task x = Ptr k" using *(2,3) a(2) by auto
      with ws True a(1) *(4) inv have "t_result x = Some (t_function t (t_arg t))"
        unfolding workers_inv_def by blast
      with keep res y *(4) show ?thesis by auto
    next
      case False
      with ws * inv show ?thesis by (auto simp: workers_inv_def)
    qed
  next
    assume "w = Executed (Ptr b)"
    with w res * a show ?thesis by auto
  qed
qed

lemma push_ok_links [simp]: "push_ok tt (x\<lparr>t_next := n\<rparr>) = push_ok tt x" "push_ok tt (x\<lparr>t_prev := n\<rparr>) = push_ok tt x"
  by (simp_all add: push_ok_def)

lemma is_idle_links [simp]: "is_idle (x\<lparr>t_next := n\<rparr>) = is_idle x" "is_idle (x\<lparr>t_prev := n\<rparr>) = is_idle x"
  by (simp_all add: is_idle_def)

lemma push_ok_same:
  assumes "same_tasks h h'" "\<And>a x. h a = Some x \<Longrightarrow> push_ok tt x" "h' a = Some x"
  shows "push_ok tt x"
  using same_tasks_Some [OF same_tasks_sym [OF assms(1)] assms(3)] assms(2) by force

lemma is_idle_same: "same_tasks h h' \<Longrightarrow> a \<in> dom h \<Longrightarrow> is_idle (the (h' a)) = is_idle (the (h a))"
  using same_tasks_Some [of h h' a] by force

lemma tp_invD:
  assumes "tp_inv s pend rest own"
  shows "chain t_next t_prev (tps s) Null (p_task s) (pend @ rest) Null"
    "last_task s = last_ptr Null (pend @ rest)"
    "dom (tps s) = set (pend @ rest)"
    "a \<in> set pend \<Longrightarrow> is_idle (the (tps s a))"
    "a \<in> set rest \<Longrightarrow> \<not> is_idle (the (tps s a))"
    "tps s a = Some x \<Longrightarrow> push_ok (ttasks s) x"
    "own_inv (tps s) (cells s) (ttasks s) own"
    "workers_inv (tps s) (ttasks s) (workers s)"
    "next_addr s \<le> a \<Longrightarrow> tps s a = None \<and> cells s a = None \<and> ttasks s a = None"
    "tasks_cnt s = int (length (pend @ rest))" "tasks_cnt s \<le> TPOOL_MAX_TASKS"
    "active_threads_cnt s = int (size (busy (workers s)))" "threads_cnt s = int (alive (workers s))"
    "threads_cnt s \<le> max_threads_cnt s" "0 < max_threads_cnt s" "max_threads_cnt s \<le> TPOOL_MAX_THREADS"
    "deleter s = PoolFreed \<Longrightarrow> pend @ rest = [] \<and> alive (workers s) = 0"
  using assms unfolding tp_inv_def by blast+

lemma tp_inv_distinct: "tp_inv s pend rest own \<Longrightarrow> distinct (pend @ rest)"
  by (rule chain_distinct [OF tp_invD(1)])

text \<open>The state of a push under the invariant.\<close>

lemma tp_inv_push:
  assumes "tp_inv s pend rest own" "tps s a = Some x"
  shows "\<exists>k t. thread_task x = Ptr k \<and> ttasks s k = Some t"
  using tp_invD(6) [OF assms] by (auto simp: push_ok_def)

text \<open>As long as a push or a thread is there, the pool is not freed.\<close>

lemma lock_push:
  assumes "tp_inv s pend rest own" "tps s a = Some x"
  shows "pool_lock s = ret s"
proof -
  have "a \<in> set (pend @ rest)" using tp_invD(3) [OF assms(1)] assms(2) by blast
  then have "deleter s \<noteq> PoolFreed" using tp_invD(17) [OF assms(1)] by auto
  then show ?thesis by (simp add: pool_lock_def)
qed

lemma lock_worker:
  assumes "tp_inv s pend rest own" "i < length (workers s)" "workers s ! i \<noteq> Exited"
  shows "pool_lock s = ret s"
proof -
  have "alive (workers s) \<noteq> 0"
    using assms(2,3) nth_mem [OF assms(2)] by (auto simp: alive_def filter_empty_conv)
  then have "deleter s \<noteq> PoolFreed" using tp_invD(17) [OF assms(1)] by auto
  then show ?thesis by (simp add: pool_lock_def)
qed

section \<open>Waking\<close>

lemma wake_simps [simp]: "worker_task (wake w) = worker_task w" "wake w = Exited \<longleftrightarrow> w = Exited"
  "Executed p = wake w \<longleftrightarrow> w = Executed p" "wake w = Executed p \<longleftrightarrow> w = Executed p" "wake w \<noteq> Waiting"
  by (cases w; auto)+

lemma busy_wake [simp]: "busy (map wake ws) = busy ws"
  by (induction ws) simp_all

lemma alive_wake [simp]: "alive (map wake ws) = alive ws"
  by (induction ws) simp_all

lemma broadcast_simps [simp]:
  "tps (broadcast_work s) = tps s" "ttasks (broadcast_work s) = ttasks s" "cells (broadcast_work s) = cells s"
  "next_addr (broadcast_work s) = next_addr s" "is_active (broadcast_work s) = is_active s"
  "p_task (broadcast_work s) = p_task s" "last_task (broadcast_work s) = last_task s" "tasks_cnt (broadcast_work s) = tasks_cnt s"
  "threads_cnt (broadcast_work s) = threads_cnt s" "active_threads_cnt (broadcast_work s) = active_threads_cnt s"
  "max_threads_cnt (broadcast_work s) = max_threads_cnt s" "deleter (broadcast_work s) = deleter s"
  "workers (broadcast_work s) = map wake (workers s)"
  by (simp_all add: broadcast_work_def)

lemma broadcast_inv: "tp_inv s pend rest own \<Longrightarrow> tp_inv (broadcast_work s) pend rest own"
  by (auto simp: tp_inv_def workers_inv_def)

end
