(* ===== verification/Tp_Work.thy ===== *)
theory Tp_Work
  imports Tp_Inv
begin

text \<open>
  The worker threads: taking the next waiting push, calling its function, storing that it has
  finished; and the creation and pushing of tasks.
\<close>

section \<open>The next task\<close>

lemma get_task_next:
  assumes "tp_inv s (a # pend) rest own"
  shows "get_task s = ret (Ptr a)"
proof -
  from tp_invD(1) [OF assms] obtain x where x: "p_task s = Ptr a" "tps s a = Some x" by auto
  have "is_idle x" using tp_invD(4) [OF assms, of a] x by simp
  then show ?thesis
    using x by (simp add: get_task_def is_idle_def get_task_from.simps)
qed

lemma get_task_from_none:
  assumes "chain t_next t_prev (tps s) bk p us Null" "\<forall>a \<in> set us. \<not> is_idle (the (tps s a))"
  shows "get_task_from s p = ret Null"
  using assms
proof (induction us arbitrary: bk p)
  case Nil
  then show ?case by (simp add: get_task_from.simps)
next
  case (Cons a us)
  from Cons.prems(1) obtain x where x: "p = Ptr a" "tps s a = Some x" "chain t_next t_prev (tps s) (Ptr a) (t_next x) us Null"
    by auto
  from Cons.IH [OF x(3)] Cons.prems(2) x show ?case
    by (subst get_task_from.simps) (auto simp: is_idle_def)
qed

lemma get_task_none: "tp_inv s [] rest own \<Longrightarrow> get_task s = ret Null"
  unfolding get_task_def
  by (rule get_task_from_none) (use tp_invD(1) [of s "[]" rest own] tp_invD(5) [of s "[]" rest own] in auto)

section \<open>Moving a push to the end of the queue\<close>

lemma move_to_end_ok:
  assumes ch: "chain t_next t_prev (tps s) Null (p_task s) (a # ts) Null" and l: "last_task s = last_ptr Null (a # ts)"
  shows "\<exists>h p. move_to_end (Ptr a) s = ret (s\<lparr>tps := h, p_task := p, last_task := Ptr a\<rparr>)
    \<and> chain t_next t_prev h Null p (ts @ [a]) Null \<and> same_tasks (tps s) h"
proof (cases ts rule: rev_cases)
  case Nil
  with ch l show ?thesis
    by (intro exI [of _ "tps s"] exI [of _ "p_task s"]) (simp add: move_to_end_def)
next
  case (snoc us l)
  have d: "distinct (a # ts)" by (rule chain_distinct [OF ch])
  have "a \<notin> set ts" "l \<in> set ts" using d snoc by simp_all
  then have al: "a \<noteq> l" by blast
  obtain b vs where ts: "ts = b # vs" using snoc by (cases "us @ [l]") auto
  from ch ts obtain x y where x: "tps s a = Some x" "t_next x = Ptr b" "p_task s = Ptr a" and y: "tps s b = Some y" by auto
  let ?h1 = "(tps s)(b \<mapsto> y\<lparr>t_prev := Null\<rparr>)"
  have ch1: "chain t_next t_prev ?h1 Null (Ptr b) (us @ [l]) Null"
    using qnode.unlink_first (2) [OF ch [unfolded ts] y x(1)] ts snoc by simp
  then obtain z where z: "?h1 l = Some z" using chain_alloc [OF ch1, of l] by auto
  let ?x = "x\<lparr>t_prev := Ptr l, t_next := Null\<rparr>"
  let ?h = "?h1(a \<mapsto> ?x, l \<mapsto> z\<lparr>t_next := Ptr a\<rparr>)"
  have "chain t_next t_prev ?h Null (Ptr b) (us @ [l, a]) Null"
    by (rule qnode.append_node [OF ch1 _ z]) (use d ts snoc in auto)
  then have ch2: "chain t_next t_prev ?h Null (Ptr b) (ts @ [a]) Null" using snoc by simp
  have ne: "a \<noteq> b" "a \<noteq> l" using d ts al by auto
  have same: "same_tasks (tps s) ?h"
    by (intro same_tasks_upd [where x = z] same_tasks_upd [where x = x] same_tasks_upd [where x = y])
      (use x y z ne in \<open>simp_all add: core_def\<close>)
  have last: "last_task s = Ptr l" using l snoc by simp
  have h: "?h1(a \<mapsto> x\<lparr>t_prev := Ptr l\<rparr>, l \<mapsto> z\<lparr>t_next := Ptr a\<rparr>, a \<mapsto> ?x) = ?h"
    using ne by (simp add: fun_upd_twist)
  have "move_to_end (Ptr a) s = ret (s\<lparr>tps := ?h, p_task := Ptr b, last_task := Ptr a\<rparr>)"
    using x y z ne last h unfolding move_to_end_def
    by (simp add: upd_tp_def Let_def del: fun_upd_apply) (simp add: upd_tp_def Let_def)
  with ch2 same show ?thesis by blast
qed

section \<open>Taking a push\<close>

definition ready :: "worker \<Rightarrow> bool" where
  "ready w \<longleftrightarrow> w = AtTop \<or> w = Waiting"

lemma ready_simps: "ready w \<Longrightarrow> worker_task w = {#}" "ready w \<Longrightarrow> w \<noteq> Exited"
  by (auto simp: ready_def)

lemma lock_ready: "tp_inv s pend rest own \<Longrightarrow> i < length (workers s) \<Longrightarrow> ready (workers s ! i) \<Longrightarrow> pool_lock s = ret s"
  by (rule lock_worker) (auto simp: ready_def)

text \<open>A worker that changes its state without touching a push.\<close>

lemma workers_inv_quiet:
  assumes "workers_inv h tt ws" "i < length ws" "worker_task (ws ! i) = {#}" "worker_task w = {#}"
  shows "workers_inv h tt (ws[i := w])"
proof -
  have "busy (ws[i := w]) = busy ws" using busy_upd [OF assms(2), of w] assms(3,4) by simp
  moreover have "Executed p \<in> set (ws[i := w]) \<Longrightarrow> Executed p \<in> set ws" for p
    using set_update_subset_insert [of ws i w] assms(4) by fastforce
  ultimately show ?thesis using assms(1) unfolding workers_inv_def by metis
qed

lemma worker_take_run:
  assumes inv: "tp_inv s (a # pend) rest own" and act: "is_active s"
    and i: "i < length (workers s)" "ready (workers s ! i)"
  shows "\<exists>h p. worker_take i s = ret (s\<lparr>active_threads_cnt := active_threads_cnt s + 1, tps := h, p_task := p,
        last_task := Ptr a, workers := (workers s)[i := Executing (Ptr a)]\<rparr>)
    \<and> tp_inv (s\<lparr>active_threads_cnt := active_threads_cnt s + 1, tps := h, p_task := p,
        last_task := Ptr a, workers := (workers s)[i := Executing (Ptr a)]\<rparr>) pend (rest @ [a]) own
    \<and> same_tasks ((tps s)(a \<mapsto> (the (tps s a))\<lparr>t_running := True\<rparr>)) h"
proof -
  note D = tp_invD [OF inv]
  obtain x where x: "tps s a = Some x" using D(1) by auto
  have idle: "\<not> t_running x" "\<not> t_finished x" using D(4) [of a] x by (auto simp: is_idle_def)
  have d: "a \<notin> set pend" "a \<notin> set rest" "set pend \<inter> set rest = {}" using tp_inv_distinct [OF inv] by auto
  let ?x = "x\<lparr>t_running := True\<rparr>"
  let ?h1 = "(tps s)(a \<mapsto> ?x)" and ?s1 = "s\<lparr>active_threads_cnt := active_threads_cnt s + 1, tps := (tps s)(a \<mapsto> ?x)\<rparr>"
  have "chain t_next t_prev (tps ?s1) Null (p_task ?s1) (a # pend @ rest) Null"
    using D(1) x by (simp add: chain_same_links [where h = "tps s" and b = a and x = x] del: chain.simps)
  from move_to_end_ok [OF this] D(2) obtain h p where
    m: "move_to_end (Ptr a) ?s1 = ret (?s1\<lparr>tps := h, p_task := p, last_task := Ptr a\<rparr>)"
      "chain t_next t_prev h Null p ((pend @ rest) @ [a]) Null" "same_tasks ?h1 h" by auto
  let ?s2 = "s\<lparr>active_threads_cnt := active_threads_cnt s + 1, tps := h, p_task := p,
        last_task := Ptr a, workers := (workers s)[i := Executing (Ptr a)]\<rparr>"
  have run: "worker_take i s = ret ?s2"
    using get_task_next [OF inv] act x m(1) lock_ready [OF inv i] by (simp add: worker_take_def upd_tp_def)
  have dom: "dom h = set (pend @ rest @ [a])"
    using same_tasks_dom [OF m(3)] D(3) by auto
  have idle': "is_idle (the (h b)) = is_idle (the (?h1 b))" if "b \<in> set (a # pend @ rest)" for b
    by (rule is_idle_same [OF m(3)]) (use that D(3) in auto)
  have pend_idle: "is_idle (the (h b))" if "b \<in> set pend" for b
  proof -
    from that d have "b \<noteq> a" by auto
    with idle' [of b] D(4) [of b] that show ?thesis by simp
  qed
  have rest_busy: "\<not> is_idle (the (h b))" if "b \<in> set (rest @ [a])" for b
  proof (cases "b = a")
    case True
    with idle' [of a] show ?thesis by (simp add: is_idle_def)
  next
    case False
    with idle' [of b] D(5) [of b] that show ?thesis by simp
  qed
  have po: "push_ok (ttasks s) ?x" using D(6) [OF x] idle by (simp add: push_ok_def)
  have push: "push_ok (ttasks s) y" if "h b = Some y" for b y
    by (rule push_ok_same [OF m(3) _ that]) (use D(6) po in \<open>auto split: if_splits\<close>)
  have "own_inv ?h1 (cells s) (ttasks s) own" by (rule own_inv_upd [OF D(7) x]) simp
  then have own: "own_inv h (cells s) (ttasks s) own" by (rule own_inv_same [OF _ m(3)])
  have "workers_inv ?h1 (ttasks s) ((workers s)[i := Executing (Ptr a)])"
    by (rule workers_inv_step [OF D(8) i(1), where x = x]) (use i(2) idle x in \<open>simp_all add: ready_simps\<close>)
  then have work: "workers_inv h (ttasks s) ((workers s)[i := Executing (Ptr a)])"
    by (rule workers_inv_same [OF _ m(3)])
  have fresh: "h b = None" if "next_addr s \<le> b" for b
  proof -
    have "b \<notin> dom (tps s)" using D(9) [OF that] by auto
    then have "b \<notin> dom h" using dom D(3) by auto
    then show ?thesis by auto
  qed
  have "busy ((workers s)[i := Executing (Ptr a)]) = add_mset (Ptr a) (busy (workers s))"
    using busy_upd [OF i(1), of "Executing (Ptr a)"] i(2) by (simp add: ready_simps)
  moreover have "alive ((workers s)[i := Executing (Ptr a)]) = alive (workers s)"
    using alive_upd [OF i(1), of "Executing (Ptr a)"] i(2) by (simp add: ready_simps)
  ultimately have "tp_inv ?s2 pend (rest @ [a]) own"
    unfolding tp_inv_def using m(2) dom pend_idle rest_busy D(9-17) push own work fresh by (auto simp: last_ptr_def)
  with run m(3) x show ?thesis by auto
qed

lemma worker_take_wait:
  assumes inv: "tp_inv s [] rest own" and act: "is_active s"
    and i: "i < length (workers s)" "ready (workers s ! i)"
  shows "worker_take i s = ret (s\<lparr>workers := (workers s)[i := Waiting]\<rparr>)"
    and "tp_inv (s\<lparr>workers := (workers s)[i := Waiting]\<rparr>) [] rest own"
proof -
  note D = tp_invD [OF inv]
  show "worker_take i s = ret (s\<lparr>workers := (workers s)[i := Waiting]\<rparr>)"
    using get_task_none [OF inv] act lock_ready [OF inv i] by (simp add: worker_take_def)
  have "workers_inv (tps s) (ttasks s) ((workers s)[i := Waiting])"
    by (rule workers_inv_quiet [OF D(8) i(1)]) (use i(2) in \<open>simp_all add: ready_simps\<close>)
  moreover have "busy ((workers s)[i := Waiting]) = busy (workers s)"
    using busy_upd [OF i(1), of Waiting] i(2) by (simp add: ready_simps)
  moreover have "alive ((workers s)[i := Waiting]) = alive (workers s)"
    using alive_upd [OF i(1), of Waiting] i(2) by (simp add: ready_simps)
  ultimately show "tp_inv (s\<lparr>workers := (workers s)[i := Waiting]\<rparr>) [] rest own"
    using inv unfolding tp_inv_def by simp
qed

lemma worker_take_exit:
  assumes inv: "tp_inv s pend rest own" and act: "\<not> is_active s"
    and i: "i < length (workers s)" "ready (workers s ! i)"
  shows "worker_take i s = ret (signal_finish (s\<lparr>threads_cnt := threads_cnt s - 1, workers := (workers s)[i := Exited]\<rparr>))"
    and "tp_inv (signal_finish (s\<lparr>threads_cnt := threads_cnt s - 1, workers := (workers s)[i := Exited]\<rparr>)) pend rest own"
proof -
  note D = tp_invD [OF inv]
  have "\<exists>tp. get_task s = ret tp \<and> tp \<noteq> Junk"
    using inv get_task_next get_task_none by (cases pend) blast+
  then show "worker_take i s = ret (signal_finish (s\<lparr>threads_cnt := threads_cnt s - 1, workers := (workers s)[i := Exited]\<rparr>))"
    using act lock_ready [OF inv i] by (auto simp: worker_take_def Let_def is_null_def split: ptr.split)
  have "workers_inv (tps s) (ttasks s) ((workers s)[i := Exited])"
    by (rule workers_inv_quiet [OF D(8) i(1)]) (use i(2) in \<open>simp_all add: ready_simps\<close>)
  moreover have "busy ((workers s)[i := Exited]) = busy (workers s)"
    using busy_upd [OF i(1), of Exited] i(2) by (simp add: ready_simps)
  moreover have "Suc (alive ((workers s)[i := Exited])) = alive (workers s)"
    using alive_upd [OF i(1), of Exited] i(2) by (simp add: ready_simps)
  ultimately show "tp_inv (signal_finish (s\<lparr>threads_cnt := threads_cnt s - 1, workers := (workers s)[i := Exited]\<rparr>)) pend rest own"
    using inv unfolding tp_inv_def by (auto simp: signal_finish_def)
qed

section \<open>Running a push\<close>

lemma worker_busy:
  assumes "tp_inv s pend rest own" "i < length (workers s)" "worker_task (workers s ! i) = {#p#}"
  shows "\<exists>a x. p = Ptr a \<and> tps s a = Some x \<and> t_running x \<and> \<not> t_finished x \<and> \<not> is_detached x"
proof -
  have "p \<in># busy (workers s)"
    using busy_upd [OF assms(2), of AtTop] assms(3) by (metis union_single_eq_member worker_task.simps(3) add.right_neutral add_mset_add_single)
  then have "count (busy (workers s)) p \<noteq> 0" by simp
  then have "running_at (tps s) p" using tp_invD(8) [OF assms(1)] unfolding workers_inv_def by metis
  then obtain a x where a: "p = Ptr a" "tps s a = Some x" "t_running x" by (auto simp: running_at_def)
  with tp_invD(6) [OF assms(1) a(2)] show ?thesis by (auto simp: push_ok_def)
qed

text \<open>Changing one push, without moving it between the two parts of the queue.\<close>

lemma tp_inv_upd:
  assumes inv: "tp_inv s pend rest own" and x: "tps s a = Some x"
    and same: "t_next x' = t_next x" "t_prev x' = t_prev x" "thread_task x' = thread_task x"
    and ok: "push_ok (ttasks s) x'" "is_idle x' = is_idle x"
    and ws: "workers_inv ((tps s)(a \<mapsto> x')) (ttasks s) ws" "n = int (size (busy ws))" "alive ws = alive (workers s)"
  shows "tp_inv (s\<lparr>tps := (tps s)(a \<mapsto> x'), active_threads_cnt := n, workers := ws\<rparr>) pend rest own"
proof -
  note D = tp_invD [OF inv]
  have "a \<in> set (pend @ rest)" using D(3) x by auto
  then have "dom ((tps s)(a \<mapsto> x')) = set (pend @ rest)" using D(3) by auto
  moreover have "is_idle (the (((tps s)(a \<mapsto> x')) b)) = is_idle (the (tps s b))" for b
    using x ok(2) by simp
  moreover have "own_inv ((tps s)(a \<mapsto> x')) (cells s) (ttasks s) own"
    by (rule own_inv_upd [OF D(7) x same(3)])
  moreover have "\<not> next_addr s \<le> a" using D(9) [of a] x by auto
  moreover have "deleter s \<noteq> PoolFreed" using D(3,17) x by auto
  ultimately show ?thesis
    unfolding tp_inv_def using D ok(1) ws
    by (simp add: chain_same_links [where h = "tps s" and b = a and x = x] x same)
qed

lemma worker_call_ok:
  assumes inv: "tp_inv s pend rest own" and i: "i < length (workers s)" "workers s ! i = Executing p"
  shows "\<exists>a x k t. p = Ptr a \<and> tps s a = Some x \<and> thread_task x = Ptr k \<and> ttasks s k = Some t
    \<and> worker_call i p s = ret (s\<lparr>tps := (tps s)(a \<mapsto> x\<lparr>t_result := Some (t_function t (t_arg t))\<rparr>),
        workers := (workers s)[i := Executed p]\<rparr>)
    \<and> tp_inv (s\<lparr>tps := (tps s)(a \<mapsto> x\<lparr>t_result := Some (t_function t (t_arg t))\<rparr>),
        workers := (workers s)[i := Executed p]\<rparr>) pend rest own"
proof -
  obtain a x where a: "p = Ptr a" "tps s a = Some x" "t_running x" "\<not> t_finished x"
    using worker_busy [OF inv i(1), of p] i(2) by auto
  obtain k t where k: "thread_task x = Ptr k" "ttasks s k = Some t" using tp_inv_push [OF inv a(2)] by blast
  let ?x = "x\<lparr>t_result := Some (t_function t (t_arg t))\<rparr>"
  have run: "worker_call i p s = ret (s\<lparr>tps := (tps s)(a \<mapsto> ?x), workers := (workers s)[i := Executed p]\<rparr>)"
    using a k by (simp add: worker_call_def upd_tp_def)
  have "workers_inv ((tps s)(a \<mapsto> ?x)) (ttasks s) ((workers s)[i := Executed p])"
    by (rule workers_inv_step [OF tp_invD(8) [OF inv] i(1), where x = x]) (use a k i in simp_all)
  moreover have "busy ((workers s)[i := Executed p]) = busy (workers s)"
    using busy_upd [OF i(1), of "Executed p"] i(2) by simp
  moreover have "alive ((workers s)[i := Executed p]) = alive (workers s)"
    using alive_upd [OF i(1), of "Executed p"] i(2) by simp
  moreover have "push_ok (ttasks s) ?x" "is_idle ?x = is_idle x"
    using tp_invD(6) [OF inv a(2)] a by (auto simp: push_ok_def is_idle_def)
  ultimately have "tp_inv (s\<lparr>tps := (tps s)(a \<mapsto> ?x), active_threads_cnt := active_threads_cnt s,
      workers := (workers s)[i := Executed p]\<rparr>) pend rest own"
    using tp_invD(12) [OF inv] by (intro tp_inv_upd [OF inv a(2)]) simp_all
  with run a k show ?thesis by auto
qed

lemma worker_finish_ok:
  assumes inv: "tp_inv s pend rest own" and i: "i < length (workers s)" "workers s ! i = Executed p"
  shows "\<exists>a x. p = Ptr a \<and> tps s a = Some x
    \<and> worker_finish i p s = ret (s\<lparr>tps := (tps s)(a \<mapsto> x\<lparr>t_finished := True, t_running := False\<rparr>),
        active_threads_cnt := active_threads_cnt s - 1, workers := (workers s)[i := AtTop]\<rparr>)
    \<and> tp_inv (s\<lparr>tps := (tps s)(a \<mapsto> x\<lparr>t_finished := True, t_running := False\<rparr>),
        active_threads_cnt := active_threads_cnt s - 1, workers := (workers s)[i := AtTop]\<rparr>) pend rest own"
proof -
  obtain a x where a: "p = Ptr a" "tps s a = Some x" "t_running x" "\<not> t_finished x" "\<not> is_detached x"
    using worker_busy [OF inv i(1), of p] i(2) by auto
  obtain k t where k: "thread_task x = Ptr k" "ttasks s k = Some t" using tp_inv_push [OF inv a(2)] by blast
  have "Executed (Ptr a) \<in> set (workers s)" using i a(1) nth_mem [OF i(1)] by simp
  then have r: "t_result x = Some (t_function t (t_arg t))"
    using tp_invD(8) [OF inv] a(2) k unfolding workers_inv_def by blast
  let ?x = "x\<lparr>t_finished := True, t_running := False\<rparr>"
  have run: "worker_finish i p s = ret (s\<lparr>tps := (tps s)(a \<mapsto> ?x), active_threads_cnt := active_threads_cnt s - 1,
      workers := (workers s)[i := AtTop]\<rparr>)"
    using a lock_push [OF inv a(2)] by (simp add: worker_finish_def upd_tp_def)
  have "workers_inv ((tps s)(a \<mapsto> ?x)) (ttasks s) ((workers s)[i := AtTop])"
    by (rule workers_inv_step [OF tp_invD(8) [OF inv] i(1), where x = x]) (use a k i in simp_all)
  moreover have "add_mset p (busy ((workers s)[i := AtTop])) = busy (workers s)"
    using busy_upd [OF i(1), of AtTop] i(2) by simp
  then have "size (busy (workers s)) = Suc (size (busy ((workers s)[i := AtTop])))" by (metis size_add_mset)
  then have "active_threads_cnt s - 1 = int (size (busy ((workers s)[i := AtTop])))"
    using tp_invD(12) [OF inv] by simp
  moreover have "alive ((workers s)[i := AtTop]) = alive (workers s)"
    using alive_upd [OF i(1), of AtTop] i(2) by simp
  moreover have "push_ok (ttasks s) ?x" "is_idle ?x = is_idle x"
    using tp_invD(6) [OF inv a(2)] a k r by (auto simp: push_ok_def is_idle_def)
  ultimately have "tp_inv (s\<lparr>tps := (tps s)(a \<mapsto> ?x), active_threads_cnt := active_threads_cnt s - 1,
      workers := (workers s)[i := AtTop]\<rparr>) pend rest own"
    by (intro tp_inv_upd [OF inv a(2)]) simp_all
  with run a show ?thesis by auto
qed

section \<open>The push of a task\<close>

text \<open>The last push of the task, which the queries and joins look at.\<close>

definition last_push :: "(nat \<times> nat) list \<Rightarrow> ptr" where
  "last_push cs = (case cs of [] \<Rightarrow> Null | (c, a) # cs \<Rightarrow> Ptr a)"

lemma last_push_simps [simp]: "last_push [] = Null" "last_push ((c, a) # cs) = Ptr a"
  by (simp_all add: last_push_def)

lemma get_tp_task_ok:
  assumes "tp_inv s pend rest own" "ttasks s k = Some t"
  shows "get_tp_task s (Ptr k) = ret (last_push (own k))"
  using own_invD(1) [OF tp_invD(7) [OF assms(1)] assms(2)] assms(2)
  by (cases "own k") (auto simp: get_tp_task_def)

lemma last_push_push:
  assumes "tp_inv s pend rest own" "last_push (own k) = Ptr a"
  shows "\<exists>x. tps s a = Some x \<and> thread_task x = Ptr k"
proof -
  obtain c cs where "own k = (c, a) # cs" using assms(2) by (auto simp: last_push_def split: list.splits)
  then show ?thesis using own_invD(4) [OF tp_invD(7) [OF assms(1)], of c a k] by simp
qed

section \<open>Queries and joins\<close>

lemma thread_task_is_finished_ok:
  assumes "tp_inv s pend rest own" "ttasks s k = Some t"
  shows "thread_task_is_finished s (Ptr k) = ret (\<exists>a x. last_push (own k) = Ptr a \<and> tps s a = Some x \<and> t_finished x)"
  using get_tp_task_ok [OF assms] last_push_push [OF assms(1), of k]
  by (cases "own k") (auto simp: thread_task_is_finished_def lock_push [OF assms(1)])

lemma thread_task_is_running_ok:
  assumes "tp_inv s pend rest own" "ttasks s k = Some t"
  shows "thread_task_is_running s (Ptr k) = ret (running_at (tps s) (last_push (own k)))"
  using get_tp_task_ok [OF assms] last_push_push [OF assms(1), of k]
  by (cases "own k") (auto simp: thread_task_is_running_def running_at_def lock_push [OF assms(1)])

lemma read_result_ok:
  assumes "tp_inv s pend rest own" "tps s a = Some x" "t_finished x" "thread_task x = Ptr k" "ttasks s k = Some t"
  shows "read_result s (Ptr a) = ret (Inl (TpOk, Some (t_function t (t_arg t))))"
  using assms tp_invD(6) [OF assms(1,2)] by (auto simp: read_result_def push_ok_def)

text \<open>Setting a flag of a push that no worker looks at.\<close>

lemma tp_inv_flag:
  assumes inv: "tp_inv s pend rest own" and x: "tps s a = Some x"
    and same: "t_next x' = t_next x" "t_prev x' = t_prev x" "thread_task x' = thread_task x"
      "t_running x' = t_running x" "t_finished x' = t_finished x" "t_result x' = t_result x" "is_pushed x' = is_pushed x"
    and det: "is_detached x' \<longrightarrow> t_finished x"
  shows "tp_inv (s\<lparr>tps := (tps s)(a \<mapsto> x')\<rparr>) pend rest own"
proof -
  have w: "workers_inv ((tps s)(a \<mapsto> x')) (ttasks s) (workers s)"
    using tp_invD(8) [OF inv] x same(3-6) by (auto simp: workers_inv_def running_at_def)
  have "push_ok (ttasks s) x'" "is_idle x' = is_idle x"
    using tp_invD(6) [OF inv x] same det by (auto simp: push_ok_def is_idle_def)
  from tp_inv_upd [OF inv x same(1-3) this w tp_invD(12) [OF inv] refl] show ?thesis by simp
qed

text \<open>The start of both joins: the task was never pushed, or the caller goes on with its last push.\<close>

lemma join_lookup_ok:
  assumes inv: "tp_inv s pend rest own" and t: "ttasks s k = Some t"
  shows "join_lookup (Ptr k) s = ret (case last_push (own k) of Ptr a \<Rightarrow> Inr (Ptr a) | _ \<Rightarrow> Inl (TASK_NOT_PUSHED, None))"
proof (cases "own k")
  case Nil
  with get_tp_task_ok [OF inv t] show ?thesis by (simp add: join_lookup_def)
next
  case (Cons ca cs)
  then obtain a where a: "last_push (own k) = Ptr a" by (cases ca) simp
  from last_push_push [OF inv this] obtain x where "tps s a = Some x" by blast
  with get_tp_task_ok [OF inv t] a show ?thesis by (simp add: join_lookup_def)
qed

text \<open>Under the lock: the push has finished, or the caller waits.\<close>

definition join_outcome :: "nat \<Rightarrow> tp_task \<Rightarrow> join_out" where
  "join_outcome a x = (if t_finished x then Inl (TpOk, t_result x) else Inr (Ptr a))"

definition set_joined :: "nat \<Rightarrow> pool \<Rightarrow> pool" where
  "set_joined a s = s\<lparr>tps := (tps s)(a \<mapsto> (the (tps s a))\<lparr>is_joined := True\<rparr>)\<rparr>"

lemma set_joined_simps [simp]: "workers (set_joined a s) = workers s" "is_active (set_joined a s) = is_active s"
  "deleter (set_joined a s) = deleter s" "max_threads_cnt (set_joined a s) = max_threads_cnt s"
  "threads_cnt (set_joined a s) = threads_cnt s"
  by (simp_all add: set_joined_def)

lemma join_begin_ok:
  assumes inv: "tp_inv s pend rest own" and x: "tps s a = Some x"
  shows "join_begin (Ptr a) s = ret (join_outcome a x, set_joined a s)"
    and "tp_inv (set_joined a s) pend rest own"
proof -
  have "is_detached x \<longrightarrow> t_finished x" using tp_invD(6) [OF inv x] by (simp add: push_ok_def)
  with x show "tp_inv (set_joined a s) pend rest own"
    by (auto simp: set_joined_def intro!: tp_inv_flag [OF inv x])
  have "t_finished x \<Longrightarrow> \<exists>r. t_result x = Some r"
    using tp_invD(6) [OF inv x] by (auto simp: push_ok_def)
  with x show "join_begin (Ptr a) s = ret (join_outcome a x, set_joined a s)"
    by (auto simp: join_begin_def lock_push [OF inv x] upd_tp_def join_outcome_def set_joined_def read_result_def)
qed

lemma timed_join_begin_ok:
  assumes inv: "tp_inv s pend rest own" and x: "tps s a = Some x"
  shows "timed_join_begin timeout (Ptr a) s =
    (if timeout \<le> 0 then ret (Inl (TIMEOUT, None), s) else join_begin (Ptr a) s)"
  by (simp add: timed_join_begin_def join_begin_def lock_push [OF inv x])

end
