(* ===== verification/Tp_Push.thy ===== *)
theory Tp_Push
  imports Tp_Work
begin

text \<open>Creating tasks and pushing them.\<close>

section \<open>New tasks\<close>

lemma own_inv_new_task:
  assumes "own_inv h cl tt own" "tt k = None" "t_list t = Null"
  shows "own_inv h cl (tt(k \<mapsto> t)) own"
  using assms own_invD(2) [OF assms(1,2)] unfolding own_inv_def by auto

lemma thread_task_new_ok:
  assumes inv: "tp_inv s pend rest own"
  shows "\<exists>k s'. thread_task_new f a s = (Ptr k, s') \<and> tp_inv s' pend rest own \<and> own k = []
    \<and> ttasks s k = None \<and> ttasks s' = (ttasks s)(k \<mapsto> \<lparr>t_function = f, t_arg = a, t_list = Null\<rparr>)
    \<and> tps s' = tps s \<and> workers s' = workers s \<and> is_active s' = is_active s \<and> deleter s' = deleter s
    \<and> threads_cnt s' = threads_cnt s"
proof -
  note D = tp_invD [OF inv]
  let ?k = "next_addr s" and ?t = "\<lparr>t_function = f, t_arg = a, t_list = Null\<rparr>"
  let ?s = "s\<lparr>ttasks := (ttasks s)(?k \<mapsto> ?t), next_addr := Suc ?k\<rparr>"
  have k: "ttasks s ?k = None" using D(9) by simp
  have other: "thread_task x \<noteq> Ptr ?k" if "tps s a = Some x" for a x
    using tp_inv_push [OF inv that] k by auto
  have po: "push_ok ((ttasks s)(?k \<mapsto> ?t)) x" if "tps s a = Some x" for a x
    using D(6) [OF that] other [OF that] by (auto simp: push_ok_def)
  have w: "workers_inv (tps s) ((ttasks s)(?k \<mapsto> ?t)) (workers s)"
    using D(8) other unfolding workers_inv_def by (metis fun_upd_other)
  have "own_inv (tps s) (cells s) ((ttasks s)(?k \<mapsto> ?t)) own"
    by (rule own_inv_new_task [OF D(7) k]) simp
  then have "tp_inv ?s pend rest own"
    using inv po w unfolding tp_inv_def by auto
  with k own_invD(2) [OF D(7) k] show ?thesis by (simp add: thread_task_new_def)
qed

section \<open>Pushing\<close>

text \<open>What a push does to the lists of the tasks.\<close>

lemma own_inv_push:
  assumes own: "own_inv h cl tt own" and t: "tt k = Some t" and n: "h n = None" and c: "cl c = None"
    and x: "thread_task x = Ptr k"
    and t': "t_list t' = Ptr c"
  shows "own_inv (h(n \<mapsto> x)) (cl(c \<mapsto> \<lparr>l_tp_task = Ptr n, l_next = t_list t\<rparr>)) (tt(k \<mapsto> t')) (own(k := (c, n) # own k))"
proof -
  note D = own_invD [OF own]
  have nc: "c \<notin> fst ` set (own j)" for j
  proof
    assume "c \<in> fst ` set (own j)"
    then obtain a where a: "(c, a) \<in> set (own j)" by auto
    then have "own j \<noteq> []" by auto
    then obtain t where "tt j = Some t" using own_task [OF own] by blast
    from cell_list_cell [OF D(1) [OF this] a] c show False by simp
  qed
  have nn: "n \<notin> snd ` set (own j)" for j using D(4) n by fastforce
  have frame: "cell_list (cl(c \<mapsto> y)) (t_list u) (own j)" if "tt j = Some u" for j u y
    by (rule cell_list_frame [OF D(1) [OF that]]) (use nc [of j] in auto)
  let ?cl = "cl(c \<mapsto> \<lparr>l_tp_task = Ptr n, l_next = t_list t\<rparr>)" and ?own = "own(k := (c, n) # own k)"
  show ?thesis
    unfolding own_inv_def
  proof (intro conjI allI impI)
    fix j u assume "(tt(k \<mapsto> t')) j = Some u"
    then show "cell_list ?cl (t_list u) (?own j)"
      using frame [OF t] frame [of j u] t' by (cases "j = k") auto
  next
    fix j assume "(tt(k \<mapsto> t')) j = None"
    then show "?own j = []" using D(2) [of j] by (auto split: if_splits)
  next
    fix j show "distinct (map snd (?own j))" using D(3) nn [of k] by (cases "j = k") auto
  next
    fix j d a assume "(d, a) \<in> set (?own j)"
    then show "\<exists>y. (h(n \<mapsto> x)) a = Some y \<and> thread_task y = Ptr j"
      using D(4) [of d a j] x n by (cases "j = k") auto
  next
    fix d assume "d \<in> dom ?cl"
    then have "d = c \<or> (\<exists>j a. (d, a) \<in> set (own j))" using D(5) [of d] by (auto split: if_splits)
    then show "\<exists>j a. (d, a) \<in> set (?own j)"
    proof
      assume "d = c" then have "(d, n) \<in> set (?own k)" by simp
      then show ?thesis by blast
    next
      assume "\<exists>j a. (d, a) \<in> set (own j)"
      then obtain j a where "(d, a) \<in> set (own j)" by blast
      then have "(d, a) \<in> set (?own j)" by (cases "j = k") auto
      then show ?thesis by blast
    qed
  next
    fix a y j assume "(h(n \<mapsto> x)) a = Some y" "thread_task y = Ptr j"
    then show "\<exists>d. (d, a) \<in> set (?own j)"
      using D(6) [of a y j] x by (cases "a = n") auto
  qed
qed

text \<open>A new thread is started when all threads are busy and there is room for one more.\<close>

definition start_thread :: "pool \<Rightarrow> pool" where
  "start_thread s = (if active_threads_cnt s = threads_cnt s \<and> threads_cnt s < max_threads_cnt s
     then s\<lparr>workers := workers s @ [AtTop], threads_cnt := threads_cnt s + 1\<rparr> else s)"

lemma start_thread_simps [simp]:
  "tps (start_thread s) = tps s" "ttasks (start_thread s) = ttasks s" "cells (start_thread s) = cells s"
  "next_addr (start_thread s) = next_addr s" "is_active (start_thread s) = is_active s"
  "p_task (start_thread s) = p_task s" "last_task (start_thread s) = last_task s" "tasks_cnt (start_thread s) = tasks_cnt s"
  "deleter (start_thread s) = deleter s" "max_threads_cnt (start_thread s) = max_threads_cnt s"
  by (simp_all add: start_thread_def)

lemma start_thread_inv:
  assumes inv: "tp_inv s pend rest own" and pool: "deleter s \<noteq> PoolFreed"
  shows "tp_inv (start_thread s) pend rest own"
    and "(if active_threads_cnt s = threads_cnt s \<and> threads_cnt s < max_threads_cnt s
               then create_thread s else ret s) = ret (start_thread s)"
proof -
  have "0 \<le> threads_cnt s" using tp_invD(13) [OF inv] by simp
  then show "(if active_threads_cnt s = threads_cnt s \<and> threads_cnt s < max_threads_cnt s
               then create_thread s else ret s) = ret (start_thread s)"
    by (simp add: create_thread_def start_thread_def)
  have "workers_inv (tps s) (ttasks s) (workers s @ [AtTop])"
    using tp_invD(8) [OF inv] by (simp add: workers_inv_def)
  then show "tp_inv (start_thread s) pend rest own"
    using inv pool by (auto simp: start_thread_def tp_inv_def)
qed

text \<open>The queue with a new node in front.\<close>

definition push_heap :: "nat \<Rightarrow> tp_task \<Rightarrow> ptr \<Rightarrow> (nat \<rightharpoonup> tp_task) \<Rightarrow> (nat \<rightharpoonup> tp_task)" where
  "push_heap n x p h = (case p of Ptr b \<Rightarrow> h(n \<mapsto> x\<lparr>t_next := p\<rparr>, b \<mapsto> (the (h b))\<lparr>t_prev := Ptr n\<rparr>)
     | _ \<Rightarrow> h(n \<mapsto> x\<lparr>t_next := p\<rparr>))"

lemma push_heap_ok:
  assumes ch: "chain t_next t_prev h Null p ts Null" and n: "h n = None" and x: "t_prev x = Null"
  shows "chain t_next t_prev (push_heap n x p h) Null (Ptr n) (n # ts) Null"
    and "same_tasks (h(n \<mapsto> x)) (push_heap n x p h)"
proof -
  have nts: "n \<notin> set ts" using chain_alloc [OF ch] n by fastforce
  show "chain t_next t_prev (push_heap n x p h) Null (Ptr n) (n # ts) Null"
  proof (cases ts)
    case Nil
    with ch x show ?thesis by (simp add: push_heap_def)
  next
    case (Cons b bs)
    with ch obtain y where y: "p = Ptr b" "h b = Some y" by auto
    have "chain t_next t_prev (h(n \<mapsto> x\<lparr>t_next := Ptr b\<rparr>, b \<mapsto> y\<lparr>t_prev := Ptr n\<rparr>)) Null (Ptr n) (n # b # bs) Null"
      by (rule qnode.push_front) (use ch nts Cons y x in auto)
    with y Cons show ?thesis by (simp add: push_heap_def)
  qed
  show "same_tasks (h(n \<mapsto> x)) (push_heap n x p h)"
  proof (cases ts)
    case Nil
    with ch show ?thesis by (auto simp: push_heap_def same_tasks_def)
  next
    case (Cons b bs)
    with ch nts obtain y where y: "p = Ptr b" "h b = Some y" "b \<noteq> n" by auto
    then show ?thesis by (auto simp: push_heap_def same_tasks_def)
  qed
qed

definition new_push :: "nat \<Rightarrow> tp_task" where
  "new_push k = \<lparr>thread_task = Ptr k, t_result = None, t_finished = False, t_running = False,
     is_pushed = True, is_joined = False, is_detached = False, t_next = Null, t_prev = Null\<rparr>"

definition pushed :: "nat \<Rightarrow> pool \<Rightarrow> pool" where
  "pushed k s = (let n = next_addr s; t = the (ttasks s k) in
     s\<lparr>tasks_cnt := tasks_cnt s + 1, p_task := Ptr n, last_task := (if last_task s = Null then Ptr n else last_task s),
       tps := push_heap n (new_push k) (p_task s) (tps s),
       cells := (cells s)(Suc n \<mapsto> \<lparr>l_tp_task = Ptr n, l_next = t_list t\<rparr>),
       ttasks := (ttasks s)(k \<mapsto> t\<lparr>t_list := Ptr (Suc n)\<rparr>), next_addr := Suc (Suc n)\<rparr>)"

lemma push_run:
  assumes inv: "tp_inv s pend rest own" and pool: "deleter s \<noteq> PoolFreed" and t: "ttasks s k = Some t"
    and cnt: "tasks_cnt s \<noteq> TPOOL_MAX_TASKS"
  shows "thread_pool_push_task (Ptr k) s = ret (TpOk, broadcast_work (pushed k (start_thread s)))"
proof -
  let ?s = "start_thread s"
  note inv' = start_thread_inv (1) [OF inv pool]
  note D = tp_invD [OF inv']
  have n: "tps ?s (next_addr ?s) = None" using D(9) by blast
  have "pool_lock s = ret s" using pool by (simp add: pool_lock_def)
  note begin_simps = thread_pool_push_task_def cnt start_thread_inv (2) [OF inv pool] this
  show ?thesis
  proof (cases "pend @ rest")
    case Nil
    then have "p_task s = Null" "last_task s = Null" using D(1,2) by auto
    with t n show ?thesis
      by (simp add: begin_simps make_thread_pool_task_def upd_ttask_def upd_tp_def pushed_def push_heap_def new_push_def Let_def)
  next
    case (Cons b bs)
    then obtain y where y: "p_task s = Ptr b" "tps s b = Some y" "last_task s = Ptr (last (pend @ rest))"
      using D(1,2) by (auto simp: last_ptr_def)
    then have "b \<noteq> next_addr s" using n by auto
    with y t n show ?thesis
      by (simp add: begin_simps make_thread_pool_task_def upd_ttask_def upd_tp_def pushed_def push_heap_def new_push_def Let_def)
  qed
qed

lemma pushed_inv:
  assumes inv: "tp_inv s pend rest own" and pool: "deleter s \<noteq> PoolFreed" and t: "ttasks s k = Some t" and cnt: "tasks_cnt s \<noteq> TPOOL_MAX_TASKS"
  shows "tp_inv (pushed k s) (next_addr s # pend) rest (own(k := (Suc (next_addr s), next_addr s) # own k))"
proof -
  note D = tp_invD [OF inv]
  let ?n = "next_addr s" and ?t = "t\<lparr>t_list := Ptr (Suc (next_addr s))\<rparr>" and ?tt = "(ttasks s)(k \<mapsto> t\<lparr>t_list := Ptr (Suc (next_addr s))\<rparr>)"
  let ?h1 = "(tps s)(?n \<mapsto> new_push k)" and ?h = "push_heap ?n (new_push k) (p_task s) (tps s)"
  have n: "tps s ?n = None" "cells s (Suc ?n) = None" using D(9) [of ?n] D(9) [of "Suc ?n"] by auto
  have new: "t_prev (new_push k) = Null" "thread_task (new_push k) = Ptr k" "is_idle (new_push k)" "\<not> t_running (new_push k)"
    by (simp_all add: new_push_def is_idle_def)
  note ph = push_heap_ok [OF D(1) n(1) new(1)]
  have tt: "\<exists>u. ?tt j = Some u \<and> t_function u = t_function v \<and> t_arg u = t_arg v" if "ttasks s j = Some v" for j v
    using t that by auto
  have nset: "?n \<notin> set (pend @ rest)" using D(3) n(1) by blast
  have po: "push_ok ?tt x" if "?h1 a = Some x" for a x
  proof (cases "a = ?n")
    case True
    with that have "x = new_push k" by simp
    then show ?thesis by (simp add: push_ok_def new_push_def)
  next
    case False
    with that D(6) have "push_ok (ttasks s) x" by simp
    with tt show ?thesis unfolding push_ok_def by metis
  qed
  have push: "push_ok ?tt x" if "?h a = Some x" for a x
    by (rule push_ok_same [OF ph(2) _ that]) (rule po)
  have own: "own_inv ?h (cells (pushed k s)) ?tt (own(k := (Suc ?n, ?n) # own k))"
    using own_inv_same [OF own_inv_push [OF D(7) t n new(2), of ?t] ph(2)] t by (simp add: pushed_def Let_def)
  have "workers_inv ?h1 ?tt (workers s)"
    unfolding workers_inv_def
  proof (intro conjI allI impI)
    fix p
    have "running_at ?h1 p = running_at (tps s) p"
    proof (cases p)
      case (Ptr a)
      with n(1) new(4) show ?thesis by (cases "a = ?n") (auto simp: running_at_def)
    qed (simp_all add: running_at_def)
    then show "count (busy (workers s)) p = (if running_at ?h1 p then 1 else 0)"
      using D(8) by (simp add: workers_inv_def)
  next
    fix a x j u assume *: "Executed (Ptr a) \<in> set (workers s)" "?h1 a = Some x" "thread_task x = Ptr j" "?tt j = Some u"
    obtain i where i: "i < length (workers s)" "workers s ! i = Executed (Ptr a)"
      using *(1) by (auto simp: in_set_conv_nth)
    with worker_busy [OF inv i(1), of "Ptr a"] n(1) have "a \<noteq> ?n" by auto
    with * have x: "tps s a = Some x" by simp
    obtain v where v: "ttasks s j = Some v" using tp_inv_push [OF inv x] *(3) by auto
    with tt *(4) have "t_function u = t_function v \<and> t_arg u = t_arg v" by fastforce
    with D(8) *(1,3) x v show "t_result x = Some (t_function u (t_arg u))" unfolding workers_inv_def by metis
  qed
  then have work: "workers_inv ?h ?tt (workers s)" by (rule workers_inv_same [OF _ ph(2)])
  have dom: "dom ?h = insert ?n (set (pend @ rest))" using same_tasks_dom [OF ph(2)] D(3) by simp
  have idle: "is_idle (the (?h a)) = is_idle (the (?h1 a))" if "a \<in> insert ?n (set (pend @ rest))" for a
    by (rule is_idle_same [OF ph(2)]) (use that D(3) in auto)
  have idle': "is_idle (the (?h a)) = is_idle (the (tps s a))" if "a \<in> set (pend @ rest)" for a
  proof -
    from that nset have "a \<noteq> ?n" by blast
    with idle [of a] that show ?thesis by simp
  qed
  have fresh: "?h a = None" if "Suc ?n < a" for a
  proof -
    have "a \<notin> dom ?h" using D(9) [of a] that dom D(3) by auto
    then show ?thesis by auto
  qed
  have cnt': "tasks_cnt s + 1 \<le> TPOOL_MAX_TASKS" using D(11) cnt by simp
  have k: "k < ?n" using D(9) [of k] t by (cases "k < ?n") auto
  have last: "(if last_task s = Null then Ptr ?n else last_task s) = last_ptr (Ptr ?n) (pend @ rest)"
    using D(2) by (simp add: last_ptr_def)
  show ?thesis
    unfolding tp_inv_def using ph(1) dom idle [of ?n] idle' push own work D(4,5,9-16) pool fresh cnt' t new(3) k last
    by (simp add: pushed_def Let_def)
qed

lemma thread_pool_push_ok:
  assumes inv: "tp_inv s pend rest own" and pool: "deleter s \<noteq> PoolFreed" and t: "ttasks s k = Some t"
    and cnt: "tasks_cnt s \<noteq> TPOOL_MAX_TASKS"
  shows "thread_pool_push_task (Ptr k) s = ret (TpOk, broadcast_work (pushed k (start_thread s)))"
    and "tp_inv (broadcast_work (pushed k (start_thread s))) (next_addr s # pend) rest (own(k := (Suc (next_addr s), next_addr s) # own k))"
  using push_run [OF assms] broadcast_inv [OF pushed_inv [OF start_thread_inv(1) [OF inv pool], of k t]] pool t cnt by simp_all

lemma thread_pool_push_full:
  "deleter s \<noteq> PoolFreed \<Longrightarrow> tasks_cnt s = TPOOL_MAX_TASKS \<Longrightarrow> thread_pool_push_task p s = ret (TOO_MANY_TASKS, s)"
  by (simp add: thread_pool_push_task_def pool_lock_def)

end
