(* ===== verification/Tp_Delete.thy ===== *)
theory Tp_Delete
  imports Tp_Push
begin

text \<open>Deleting a task with all its pushes, and detaching a task whose pushes have finished.\<close>

section \<open>The loops of delete_task\<close>

definition droppable :: "tp_task \<Rightarrow> bool" where
  "droppable x \<longleftrightarrow> is_joined x \<or> (is_detached x \<and> t_finished x)"

lemma can_drop_ok:
  assumes "cell_list (cells s) p cs" "\<forall>a \<in> snd ` set cs. \<exists>x. tps s a = Some x"
  shows "can_drop s p = ret (\<forall>a \<in> snd ` set cs. droppable (the (tps s a)))"
  using assms
proof (induction cs arbitrary: p)
  case Nil
  then show ?case by (simp add: can_drop.simps)
next
  case (Cons ca cs)
  obtain c a where ca: "ca = (c, a)" by (cases ca)
  with Cons.prems obtain x y where x: "p = Ptr c" "cells s c = Some x" "l_tp_task x = Ptr a" "cell_list (cells s) (l_next x) cs"
    "tps s a = Some y" by auto
  with Cons.IH [OF x(4)] Cons.prems(2) ca show ?case
    by (subst can_drop.simps) (auto simp: droppable_def)
qed

lemma drop_tp_ok:
  assumes ch: "chain t_next t_prev (tps s) Null (p_task s) (us @ a # vs) Null"
    and l: "last_task s = last_ptr Null (us @ a # vs)"
  shows "\<exists>h p. drop_tp (Ptr a) s = ret (s\<lparr>tps := h, p_task := p, last_task := last_ptr Null (us @ vs)\<rparr>)
    \<and> chain t_next t_prev h Null p (us @ vs) Null \<and> same_tasks ((tps s)(a := None)) h"
proof -
  obtain x where x: "tps s a = Some x" using chain_alloc [OF ch, of a] by auto
  note U = qnode.unlink_ok [OF ch x]
  let ?U = "unlink_heap t_next t_prev (\<lambda>p x. x\<lparr>t_next := p\<rparr>) (\<lambda>p x. x\<lparr>t_prev := p\<rparr>) x (tps s)"
  have d: "distinct (us @ a # vs)" by (rule chain_distinct [OF ch])
  let ?p = "if us = [] then t_next x else p_task s"
  have "chain t_next t_prev (?U(a := None)) Null ?p (us @ vs) Null"
    using U(1) d by simp
  moreover have la: "last_task s = Ptr a \<longleftrightarrow> vs = []"
    using l d by (auto simp: last_ptr_def)
  then have l': "(if last_task s = Ptr a then t_prev x else last_task s) = last_ptr Null (us @ vs)"
    using l U(2) by (auto simp: last_ptr_def)
  consider (none) "us = []" "vs = []" | (first) b vs' where "us = []" "vs = b # vs'"
    | (last) us' c where "us = us' @ [c]" "vs = []" | (middle) us' c b vs' where "us = us' @ [c]" "vs = b # vs'"
    by (cases us rule: rev_cases; cases vs) auto
  then have "drop_tp (Ptr a) s = ret (s\<lparr>tps := ?U(a := None), p_task := ?p, last_task := last_ptr Null (us @ vs)\<rparr>)
    \<and> same_tasks ((tps s)(a := None)) (?U(a := None))"
  proof cases
    case none
    then show ?thesis
      using x U(2,3) l' la by (simp add: drop_tp_def unlink_heap_def Let_def)
  next
    case first
    then obtain y where y: "tps s b = Some y" "b \<noteq> a" using U(5) d by auto
    with first show ?thesis
      using x U(2,3) l' by (auto simp: drop_tp_def unlink_heap_def Let_def upd_tp_def same_tasks_def)
  next
    case last
    then obtain y where y: "tps s c = Some y" "c \<noteq> a" using U(4) d by auto
    with last show ?thesis
      using x U(2,3) l' by (auto simp: drop_tp_def unlink_heap_def Let_def upd_tp_def same_tasks_def)
  next
    case middle
    then obtain y z where y: "tps s c = Some y" "c \<noteq> a" "tps s b = Some z" "b \<noteq> a" "b \<noteq> c" using U(4,5) d by auto
    with middle show ?thesis
      using x U(2,3) l' by (auto simp: drop_tp_def unlink_heap_def Let_def upd_tp_def same_tasks_def fun_upd_twist)
  qed
  ultimately show ?thesis by blast
qed

lemma drop_all_ok:
  assumes "cell_list (cells s) p cs" "chain t_next t_prev (tps s) Null (p_task s) ts Null" "last_task s = last_ptr Null ts"
    "distinct (map snd cs)" "snd ` set cs \<subseteq> set ts"
  shows "\<exists>h q. drop_all s p n = ret (n + int (length cs), s\<lparr>tps := h, p_task := q,
        last_task := last_ptr Null (filter (\<lambda>b. b \<notin> snd ` set cs) ts)\<rparr>)
    \<and> chain t_next t_prev h Null q (filter (\<lambda>b. b \<notin> snd ` set cs) ts) Null
    \<and> same_tasks (drop_addrs (map snd cs) (tps s)) h"
  using assms
proof (induction cs arbitrary: p s ts n)
  case Nil
  then have "p = Null" by simp
  with Nil show ?case
    by (intro exI [of _ "tps s"] exI [of _ "p_task s"]) (simp add: drop_all.simps)
next
  case (Cons ca cs)
  obtain c a where ca: "ca = (c, a)" by (cases ca)
  with Cons.prems obtain x where x: "p = Ptr c" "cells s c = Some x" "l_tp_task x = Ptr a" "cell_list (cells s) (l_next x) cs"
    by auto
  have "a \<in> set ts" using Cons.prems(5) ca by simp
  then obtain us vs where ts: "ts = us @ a # vs" by (auto simp: in_set_conv_decomp)
  have d: "distinct (us @ a # vs)" using chain_distinct [OF Cons.prems(2)] ts by simp
  from drop_tp_ok [of s us a vs] Cons.prems(2,3) ts obtain h p' where
    h: "drop_tp (Ptr a) s = ret (s\<lparr>tps := h, p_task := p', last_task := last_ptr Null (us @ vs)\<rparr>)"
      "chain t_next t_prev h Null p' (us @ vs) Null" "same_tasks ((tps s)(a := None)) h" by auto
  let ?s = "s\<lparr>tps := h, p_task := p', last_task := last_ptr Null (us @ vs)\<rparr>"
  have "snd ` set cs \<subseteq> set (us @ vs)" using Cons.prems(4,5) ca ts by auto
  then have "\<exists>h' q. drop_all ?s (l_next x) (n + 1) = ret (n + 1 + int (length cs), ?s\<lparr>tps := h', p_task := q,
        last_task := last_ptr Null (filter (\<lambda>b. b \<notin> snd ` set cs) (us @ vs))\<rparr>)
      \<and> chain t_next t_prev h' Null q (filter (\<lambda>b. b \<notin> snd ` set cs) (us @ vs)) Null
      \<and> same_tasks (drop_addrs (map snd cs) (tps ?s)) h'"
    by (intro Cons.IH) (use Cons.prems(4) x(4) h(2) in simp_all)
  then obtain h' q where
    h': "drop_all ?s (l_next x) (n + 1) = ret (n + 1 + int (length cs), ?s\<lparr>tps := h', p_task := q,
        last_task := last_ptr Null (filter (\<lambda>b. b \<notin> snd ` set cs) (us @ vs))\<rparr>)"
      "chain t_next t_prev h' Null q (filter (\<lambda>b. b \<notin> snd ` set cs) (us @ vs)) Null"
      "same_tasks (drop_addrs (map snd cs) h) h'" by (simp del: drop_addrs_apply filter_append) blast
  have f: "filter (\<lambda>b. b \<notin> snd ` set (ca # cs)) ts = filter (\<lambda>b. b \<notin> snd ` set cs) (us @ vs)"
  proof -
    have "filter (\<lambda>b. b \<notin> snd ` set (ca # cs)) ys = filter (\<lambda>b. b \<notin> snd ` set cs) ys" if "a \<notin> set ys" for ys
      using that ca by (intro filter_cong) auto
    from this [of us] this [of vs] d show ?thesis by (simp add: ts ca)
  qed
  have "h a = None" using same_tasks_None [OF h(3), of a] by simp
  then have "same_tasks (drop_addrs (map snd (ca # cs)) (tps s)) (drop_addrs (map snd cs) h)"
    using h(3) ca by (auto simp: same_tasks_def)
  then have "same_tasks (drop_addrs (map snd (ca # cs)) (tps s)) h'" using h'(3) by (rule same_tasks_trans)
  with x h(1) h' show ?case
    unfolding f by (subst drop_all.simps) (auto simp: add.commute add.left_commute)
qed

lemma free_cells_ok:
  assumes "cell_list (cells s) p cs" "distinct (map fst cs)"
  shows "free_cells s p = ret (s\<lparr>cells := drop_addrs (map fst cs) (cells s)\<rparr>)"
  using assms
proof (induction cs arbitrary: p s)
  case Nil
  then show ?case by (simp add: free_cells.simps)
next
  case (Cons ca cs)
  obtain c a where ca: "ca = (c, a)" by (cases ca)
  with Cons.prems obtain x where x: "p = Ptr c" "cells s c = Some x" "cell_list (cells s) (l_next x) cs" "c \<notin> fst ` set cs"
    by auto
  let ?s = "s\<lparr>cells := (cells s)(c := None)\<rparr>"
  have "cell_list (cells ?s) (l_next x) cs"
    by (rule cell_list_frame [OF x(3)]) (use x(4) in auto)
  from Cons.IH [OF this] Cons.prems(2) x ca show ?case
    by (subst free_cells.simps) (simp add: drop_addrs_Cons del: drop_addrs_apply fun_upd_apply)
qed

section \<open>The invariant\<close>

lemma own_distinct_cells:
  assumes "own_inv h cl tt own"
  shows "distinct (map fst (own k))"
proof -
  have "inj_on fst (set (own k))"
    using own_unique [OF assms] by (force simp: inj_on_def)
  moreover have "distinct (own k)" using own_invD(3) [OF assms, of k] by (simp add: distinct_map)
  ultimately show ?thesis by (simp add: distinct_map)
qed

lemma own_inv_delete:
  assumes own: "own_inv h cl tt own"
  shows "own_inv (drop_addrs (map snd (own k)) h) (drop_addrs (map fst (own k)) cl) (tt(k := None)) (own(k := []))"
proof -
  note D = own_invD [OF own]
  have other: "a \<notin> snd ` set (own k)" if "h a = Some x" "thread_task x = Ptr j" "j \<noteq> k" for a x j
    using D(4) [of _ a k] that by auto
  have cells: "c \<notin> fst ` set (own k)" if "(c, a) \<in> set (own j)" "j \<noteq> k" for c a j
  proof
    assume "c \<in> fst ` set (own k)"
    then obtain b where "(c, b) \<in> set (own k)" by auto
    from own_unique [OF own that(1) this] that(2) show False by simp
  qed
  show ?thesis
    unfolding own_inv_def
  proof (intro conjI allI impI)
    fix j t assume "(tt(k := None)) j = Some t"
    then have j: "j \<noteq> k" "tt j = Some t" by (auto split: if_splits)
    have "cell_list (drop_addrs (map fst (own k)) cl) (t_list t) (own j)"
    proof (rule cell_list_frame [OF D(1) [OF j(2)]])
      fix c assume "c \<in> fst ` set (own j)"
      then obtain a where "(c, a) \<in> set (own j)" by auto
      from cells [OF this j(1)] show "drop_addrs (map fst (own k)) cl c = cl c" by simp
    qed
    with j(1) show "cell_list (drop_addrs (map fst (own k)) cl) (t_list t) ((own(k := [])) j)" by simp
  next
    fix j assume "(tt(k := None)) j = None"
    then show "(own(k := [])) j = []" using D(2) [of j] by (auto split: if_splits)
  next
    fix j show "distinct (map snd ((own(k := [])) j))" using D(3) by simp
  next
    fix j c a assume "(c, a) \<in> set ((own(k := [])) j)"
    then have j: "j \<noteq> k" "(c, a) \<in> set (own j)" by (auto split: if_splits)
    then obtain x where "h a = Some x" "thread_task x = Ptr j" using D(4) by blast
    with other [of a x j] j(1) show "\<exists>x. drop_addrs (map snd (own k)) h a = Some x \<and> thread_task x = Ptr j" by auto
  next
    fix c assume "c \<in> dom (drop_addrs (map fst (own k)) cl)"
    then have c: "c \<in> dom cl" "c \<notin> fst ` set (own k)" by (simp_all add: dom_def split: if_splits)
    then obtain j a where "(c, a) \<in> set (own j)" using D(5) by blast
    moreover from this c(2) have "j \<noteq> k" by force
    ultimately have "(c, a) \<in> set ((own(k := [])) j)" by simp
    then show "\<exists>j a. (c, a) \<in> set ((own(k := [])) j)" by blast
  next
    fix a x j assume "drop_addrs (map snd (own k)) h a = Some x" "thread_task x = Ptr j"
    then have x: "h a = Some x" "a \<notin> snd ` set (own k)" "thread_task x = Ptr j" by (auto split: if_splits)
    then obtain c where c: "(c, a) \<in> set (own j)" using D(6) by blast
    with x(2) have "j \<noteq> k" by force
    with c show "\<exists>c. (c, a) \<in> set ((own(k := [])) j)" by auto
  qed
qed

lemma delete_unpushed:
  assumes inv: "tp_inv s pend rest own" and t: "ttasks s k = Some t" and e: "own k = []"
  shows "delete_task (Ptr k) s = ret (TpOk, s\<lparr>ttasks := (ttasks s)(k := None)\<rparr>)"
    and "thread_task_delete (Ptr k) s = ret (TpOk, s\<lparr>ttasks := (ttasks s)(k := None)\<rparr>)"
    and "tp_inv (s\<lparr>ttasks := (ttasks s)(k := None)\<rparr>) pend rest own"
proof -
  note D = tp_invD [OF inv]
  show "delete_task (Ptr k) s = ret (TpOk, s\<lparr>ttasks := (ttasks s)(k := None)\<rparr>)"
    "thread_task_delete (Ptr k) s = ret (TpOk, s\<lparr>ttasks := (ttasks s)(k := None)\<rparr>)"
    using get_tp_task_ok [OF inv t] t e by (simp_all add: thread_task_delete_def delete_task_def free_ttask_def)
  have other: "thread_task x \<noteq> Ptr k" if "tps s a = Some x" for a x
    using own_invD(6) [OF D(7) that, of k] e by auto
  have "push_ok ((ttasks s)(k := None)) x" if "tps s a = Some x" for a x
    using D(6) [OF that] other [OF that] by (auto simp: push_ok_def)
  moreover have "own(k := []) = own" using e by auto
  with own_inv_delete [OF D(7), of k] e have "own_inv (tps s) (cells s) ((ttasks s)(k := None)) own" by simp
  moreover have "workers_inv (tps s) ((ttasks s)(k := None)) (workers s)"
    using D(8) unfolding workers_inv_def by (metis fun_upd_apply option.distinct(1))
  ultimately show "tp_inv (s\<lparr>ttasks := (ttasks s)(k := None)\<rparr>) pend rest own"
    using inv unfolding tp_inv_def by simp
qed

lemma dom_drop_addrs: "dom (drop_addrs as h) = dom h - set as"
  by (auto simp: drop_addrs_def)

lemma length_filter_notin:
  assumes "distinct xs" "distinct ys" "set ys \<subseteq> set xs"
  shows "length (filter (\<lambda>b. b \<notin> set ys) xs) + length ys = length xs"
proof -
  have "set (filter (\<lambda>b. b \<in> set ys) xs) = set ys" using assms(3) by auto
  then have "length (filter (\<lambda>b. b \<in> set ys) xs) = length ys"
    using distinct_card [OF assms(2)] distinct_card [OF distinct_filter [OF assms(1), of "\<lambda>b. b \<in> set ys"]] by simp
  then show ?thesis
    using sum_length_filter_compl [of "\<lambda>b. b \<in> set ys" xs] by simp
qed

text \<open>The pushes of the task at \<open>k\<close>.\<close>

abbreviation pushes :: "(nat \<Rightarrow> (nat \<times> nat) list) \<Rightarrow> nat \<Rightarrow> nat set" where
  "pushes own k \<equiv> snd ` set (own k)"

lemma pushes_alloc:
  assumes "tp_inv s pend rest own" "a \<in> pushes own k"
  shows "\<exists>x. tps s a = Some x \<and> thread_task x = Ptr k"
proof -
  from assms(2) obtain c where "(c, a) \<in> set (own k)" by auto
  then show ?thesis by (rule own_invD(4) [OF tp_invD(7) [OF assms(1)]])
qed

lemma workers_inv_drop:
  assumes "workers_inv h tt ws" "\<forall>a \<in> set as. \<forall>x. h a = Some x \<longrightarrow> \<not> t_running x"
  shows "workers_inv (drop_addrs as h) (tt(k := None)) ws"
  unfolding workers_inv_def
proof (intro conjI allI impI)
  fix p
  have "running_at (drop_addrs as h) p = running_at h p"
    using assms(2) by (auto simp: running_at_def split: if_splits)
  then show "count (busy ws) p = (if running_at (drop_addrs as h) p then 1 else 0)"
    using assms(1) by (simp add: workers_inv_def)
next
  fix a x j t
  assume "Executed (Ptr a) \<in> set ws" "drop_addrs as h a = Some x" "thread_task x = Ptr j" "(tt(k := None)) j = Some t"
  then have "Executed (Ptr a) \<in> set ws" "h a = Some x" "thread_task x = Ptr j" "tt j = Some t"
    by (simp_all split: if_splits)
  with assms(1) show "t_result x = Some (t_function t (t_arg t))" unfolding workers_inv_def by blast
qed

lemma delete_refused:
  assumes inv: "tp_inv s pend rest own" and t: "ttasks s k = Some t" and ne: "own k \<noteq> []"
    and no: "\<exists>a \<in> pushes own k. \<not> droppable (the (tps s a))"
  shows "delete_task (Ptr k) s = ret (TASK_IN_POOL, s)" "thread_task_delete (Ptr k) s = ret (TASK_IN_POOL, s)"
proof -
  obtain c a cs where cs: "own k = (c, a) # cs" using ne by (cases "own k") auto
  have cl: "cell_list (cells s) (t_list t) (own k)" by (rule own_invD(1) [OF tp_invD(7) [OF inv] t])
  have al: "\<forall>a \<in> pushes own k. \<exists>x. tps s a = Some x" using pushes_alloc [OF inv] by blast
  have "\<not> (\<forall>a \<in> pushes own k. droppable (the (tps s a)))" using no by blast
  then have "can_drop s (t_list t) = ret False" using can_drop_ok [OF cl al] by simp
  then show "delete_task (Ptr k) s = ret (TASK_IN_POOL, s)"
    using get_tp_task_ok [OF inv t] t cs by (simp add: delete_task_def)
  moreover obtain x where "tps s a = Some x" using al cs by auto
  ultimately show "thread_task_delete (Ptr k) s = ret (TASK_IN_POOL, s)"
    using get_tp_task_ok [OF inv t] cs lock_push [OF inv] by (simp add: thread_task_delete_def)
qed

lemma delete_task_run:
  assumes inv: "tp_inv s pend rest own" and t: "ttasks s k = Some t" and ne: "own k \<noteq> []"
    and yes: "\<forall>a \<in> pushes own k. droppable (the (tps s a)) \<and> \<not> is_idle (the (tps s a))"
  shows "\<exists>h p. delete_task (Ptr k) s = ret (TpOk, s\<lparr>tps := h, p_task := p,
      last_task := last_ptr Null (pend @ filter (\<lambda>b. b \<notin> pushes own k) rest),
      cells := drop_addrs (map fst (own k)) (cells s), ttasks := (ttasks s)(k := None),
      tasks_cnt := tasks_cnt s - int (length (own k))\<rparr>)
    \<and> chain t_next t_prev h Null p (pend @ filter (\<lambda>b. b \<notin> pushes own k) rest) Null
    \<and> same_tasks (drop_addrs (map snd (own k)) (tps s)) h"
proof -
  note D = tp_invD [OF inv]
  obtain c a cs where cs: "own k = (c, a) # cs" using ne by (cases "own k") auto
  have cl: "cell_list (cells s) (t_list t) (own k)" by (rule own_invD(1) [OF D(7) t])
  have al: "\<forall>a \<in> pushes own k. \<exists>x. tps s a = Some x" using pushes_alloc [OF inv] by blast
  then have sub: "pushes own k \<subseteq> set (pend @ rest)" using D(3) by auto
  have "a \<notin> set pend" if "a \<in> pushes own k" for a
    using D(4) [of a] yes that by blast
  then have pend: "filter (\<lambda>b. b \<notin> pushes own k) pend = pend" by (auto simp: filter_id_conv)
  let ?rest = "filter (\<lambda>b. b \<notin> pushes own k) rest"
  have can: "can_drop s (t_list t) = ret True" using can_drop_ok [OF cl al] yes by simp
  from drop_all_ok [OF cl D(1,2) own_invD(3) [OF D(7)] sub, of 0] obtain h p where
    d: "drop_all s (t_list t) 0 = ret (int (length (own k)), s\<lparr>tps := h, p_task := p, last_task := last_ptr Null (pend @ ?rest)\<rparr>)"
      "chain t_next t_prev h Null p (pend @ ?rest) Null" "same_tasks (drop_addrs (map snd (own k)) (tps s)) h"
    unfolding filter_append pend by auto
  let ?s1 = "s\<lparr>tps := h, p_task := p, last_task := last_ptr Null (pend @ ?rest)\<rparr>"
  have free: "free_cells ?s1 (t_list t) = ret (?s1\<lparr>cells := drop_addrs (map fst (own k)) (cells s)\<rparr>)"
    using free_cells_ok [of ?s1 "t_list t" "own k"] cl own_distinct_cells [OF D(7), of k] by (simp del: drop_addrs_apply)
  have "delete_task (Ptr k) s = ret (TpOk, s\<lparr>tps := h, p_task := p, last_task := last_ptr Null (pend @ ?rest),
      cells := drop_addrs (map fst (own k)) (cells s), ttasks := (ttasks s)(k := None),
      tasks_cnt := tasks_cnt s - int (length (own k))\<rparr>)"
    using get_tp_task_ok [OF inv t] t cs can d(1) free
    by (simp add: delete_task_def free_ttask_def del: drop_addrs_apply fun_upd_apply)
  with d(2,3) show ?thesis by blast
qed

lemma delete_inv:
  assumes inv: "tp_inv s pend rest own"
    and fin: "\<forall>a \<in> pushes own k. t_finished (the (tps s a))"
    and ch: "chain t_next t_prev h Null p (pend @ filter (\<lambda>b. b \<notin> pushes own k) rest) Null"
    and same: "same_tasks (drop_addrs (map snd (own k)) (tps s)) h"
  shows "tp_inv (s\<lparr>tps := h, p_task := p, last_task := last_ptr Null (pend @ filter (\<lambda>b. b \<notin> pushes own k) rest),
      cells := drop_addrs (map fst (own k)) (cells s), ttasks := (ttasks s)(k := None),
      tasks_cnt := tasks_cnt s - int (length (own k))\<rparr>) pend (filter (\<lambda>b. b \<notin> pushes own k) rest) (own(k := []))"
proof -
  note D = tp_invD [OF inv]
  let ?rest = "filter (\<lambda>b. b \<notin> pushes own k) rest" and ?tt = "(ttasks s)(k := None)"
  have sub: "pushes own k \<subseteq> set (pend @ rest)" using pushes_alloc [OF inv, of _ k] D(3) by auto
  have "a \<notin> set pend" if "a \<in> pushes own k" for a
    using D(4) [of a] fin that by (auto simp: is_idle_def)
  then have pend: "filter (\<lambda>b. b \<notin> pushes own k) pend = pend" by (auto simp: filter_id_conv)
  have own: "own_inv h (drop_addrs (map fst (own k)) (cells s)) ?tt (own(k := []))"
    by (rule own_inv_same [OF own_inv_delete [OF D(7), of k] same])
  have "workers_inv (drop_addrs (map snd (own k)) (tps s)) ?tt (workers s)"
  proof (rule workers_inv_drop [OF D(8)], intro ballI allI impI)
    fix a x assume "a \<in> set (map snd (own k))" "tps s a = Some x"
    with fin D(6) [of a x] show "\<not> t_running x" by (auto simp: push_ok_def)
  qed
  then have work: "workers_inv h ?tt (workers s)" by (rule workers_inv_same [OF _ same])
  have po: "push_ok ?tt x" if x: "drop_addrs (map snd (own k)) (tps s) b = Some x" for b x
  proof -
    from x have b: "tps s b = Some x" "b \<notin> pushes own k" by (auto split: if_splits)
    have "thread_task x \<noteq> Ptr k"
      using own_invD(6) [OF D(7) b(1), of k] b(2) by (force simp: image_iff)
    with D(6) [OF b(1)] show ?thesis by (auto simp: push_ok_def)
  qed
  have push: "push_ok ?tt x" if "h b = Some x" for b x
    by (rule push_ok_same [OF same _ that]) (rule po)
  have dom': "dom h = dom (tps s) - pushes own k"
    using same_tasks_dom [OF same] by (simp add: dom_drop_addrs)
  have "dom h = set (filter (\<lambda>b. b \<notin> pushes own k) (pend @ rest))" using D(3) dom' by auto
  then have dom: "dom h = set (pend @ ?rest)" by (simp add: pend)
  have idle: "is_idle (the (h b)) = is_idle (the (tps s b))" if "b \<in> set (pend @ ?rest)" for b
  proof -
    have "b \<in> dom (drop_addrs (map snd (own k)) (tps s))" using that dom same_tasks_dom [OF same] by simp
    moreover from this have "b \<notin> set (map snd (own k))" by (simp add: dom_drop_addrs)
    ultimately show ?thesis using is_idle_same [OF same, of b] by simp
  qed
  have fresh: "h b = None" if "next_addr s \<le> b" for b
  proof -
    have "b \<notin> dom h" using D(9) [OF that] dom' by auto
    then show ?thesis by auto
  qed
  have cnt: "length (pend @ ?rest) + length (own k) = length (pend @ rest)"
    using length_filter_notin [OF tp_inv_distinct [OF inv] own_invD(3) [OF D(7), of k]] sub by (simp add: pend)
  show ?thesis
    unfolding tp_inv_def using ch dom idle D(4,5,9-17) push own work fresh cnt by auto
qed

lemma delete_pushed:
  assumes inv: "tp_inv s pend rest own" and t: "ttasks s k = Some t" and ne: "own k \<noteq> []"
    and yes: "\<forall>a \<in> pushes own k. droppable (the (tps s a)) \<and> t_finished (the (tps s a))"
  shows "\<exists>s'. delete_task (Ptr k) s = ret (TpOk, s') \<and> thread_task_delete (Ptr k) s = ret (TpOk, s')
    \<and> tp_inv s' pend (filter (\<lambda>b. b \<notin> pushes own k) rest) (own(k := []))
    \<and> same_tasks (drop_addrs (map snd (own k)) (tps s)) (tps s') \<and> ttasks s' = (ttasks s)(k := None)
    \<and> workers s' = workers s \<and> is_active s' = is_active s \<and> max_threads_cnt s' = max_threads_cnt s
    \<and> deleter s' = deleter s \<and> threads_cnt s' = threads_cnt s"
proof -
  obtain c a cs where cs: "own k = (c, a) # cs" using ne by (cases "own k") auto
  have "\<forall>a \<in> pushes own k. droppable (the (tps s a)) \<and> \<not> is_idle (the (tps s a))"
    using yes by (auto simp: is_idle_def)
  from delete_task_run [OF inv t ne this] obtain h p where
    d: "delete_task (Ptr k) s = ret (TpOk, s\<lparr>tps := h, p_task := p,
      last_task := last_ptr Null (pend @ filter (\<lambda>b. b \<notin> pushes own k) rest),
      cells := drop_addrs (map fst (own k)) (cells s), ttasks := (ttasks s)(k := None),
      tasks_cnt := tasks_cnt s - int (length (own k))\<rparr>)"
    "chain t_next t_prev h Null p (pend @ filter (\<lambda>b. b \<notin> pushes own k) rest) Null"
    "same_tasks (drop_addrs (map snd (own k)) (tps s)) h" by blast
  obtain x where "tps s a = Some x" using pushes_alloc [OF inv, of a k] cs by auto
  then have "thread_task_delete (Ptr k) s = delete_task (Ptr k) s"
    using get_tp_task_ok [OF inv t] cs lock_push [OF inv] by (simp add: thread_task_delete_def)
  with d(1) delete_inv [OF inv _ d(2,3)] yes d(3) show ?thesis by (intro exI) (auto simp del: drop_addrs_apply)
qed

section \<open>Detaching a task that has finished\<close>

definition set_detached :: "nat \<Rightarrow> pool \<Rightarrow> pool" where
  "set_detached a s = s\<lparr>tps := (tps s)(a \<mapsto> (the (tps s a))\<lparr>is_detached := True\<rparr>)\<rparr>"

lemma detach_not_pushed:
  assumes "tp_inv s pend rest own" "ttasks s k = Some t" "own k = []"
  shows "thread_task_detach (Ptr k) s = ret (TASK_NOT_PUSHED, s)"
  using get_tp_task_ok [OF assms(1,2)] assms(3) by (simp add: thread_task_detach_def)

lemma detach_finished:
  assumes inv: "tp_inv s pend rest own" and t: "ttasks s k = Some t" and lp: "last_push (own k) = Ptr a"
    and fin: "t_finished (the (tps s a))" and other: "\<forall>b \<in> pushes own k. is_joined (the (tps s b)) \<longrightarrow> t_finished (the (tps s b))"
  shows "\<exists>s'. thread_task_detach (Ptr k) s = ret (TpOk, s')
    \<and> (if \<forall>b \<in> pushes own k. b = a \<or> droppable (the (tps s b))
       then tp_inv s' pend (filter (\<lambda>b. b \<notin> pushes own k) rest) (own(k := [])) \<and> ttasks s' = (ttasks s)(k := None)
       else tp_inv s' pend rest own \<and> ttasks s' = ttasks s)
    \<and> is_active s' = is_active s \<and> workers s' = workers s \<and> max_threads_cnt s' = max_threads_cnt s
    \<and> deleter s' = deleter s \<and> threads_cnt s' = threads_cnt s
    \<and> (\<forall>b y. b \<notin> pushes own k \<longrightarrow> tps s b = Some y \<longrightarrow> (\<exists>z. tps s' b = Some z \<and> t_finished z = t_finished y))"
proof -
  from last_push_push [OF inv lp] obtain x where x: "tps s a = Some x" "thread_task x = Ptr k" by blast
  let ?s1 = "set_detached a s"
  have inv1: "tp_inv ?s1 pend rest own"
    using tp_inv_flag [OF inv x(1), of "x\<lparr>is_detached := True\<rparr>"] fin x(1) by (simp add: set_detached_def)
  have t1: "ttasks ?s1 k = Some t" using t by (simp add: set_detached_def)
  have ne: "own k \<noteq> []" using lp by auto
  have drop: "droppable (the (tps ?s1 b)) \<longleftrightarrow> b = a \<or> droppable (the (tps s b))"
    "t_finished (the (tps ?s1 b)) = t_finished (the (tps s b))" for b
    using x fin by (auto simp: set_detached_def droppable_def)
  have run: "thread_task_detach (Ptr k) s = bindR (delete_task (Ptr k) ?s1) (\<lambda>x. ret (TpOk, snd x))"
    using get_tp_task_ok [OF inv t] lp x fin lock_push [OF inv x(1)]
    by (simp add: thread_task_detach_def upd_tp_def set_detached_def case_prod_beta bindR_assoc)
  show ?thesis
  proof (cases "\<forall>b \<in> pushes own k. b = a \<or> droppable (the (tps s b))")
    case True
    have "droppable (the (tps ?s1 b)) \<and> t_finished (the (tps ?s1 b))" if "b \<in> pushes own k" for b
      using True that other fin unfolding drop by (auto simp: droppable_def)
    with delete_pushed [OF inv1 t1 ne] obtain s' where
      s': "delete_task (Ptr k) ?s1 = ret (TpOk, s')" "tp_inv s' pend (filter (\<lambda>b. b \<notin> pushes own k) rest) (own(k := []))"
      "same_tasks (drop_addrs (map snd (own k)) (tps ?s1)) (tps s')"
      "ttasks s' = (ttasks ?s1)(k := None)" "is_active s' = is_active ?s1" "workers s' = workers ?s1" "max_threads_cnt s' = max_threads_cnt ?s1"
      "deleter s' = deleter ?s1" "threads_cnt s' = threads_cnt ?s1" by blast
    have "\<exists>z. tps s' b = Some z \<and> t_finished z = t_finished y" if b: "b \<notin> pushes own k" "tps s b = Some y" for b y
    proof -
      have "a \<in> pushes own k" using lp by (cases "own k") auto
      then have "drop_addrs (map snd (own k)) (tps ?s1) b = Some y" using b by (auto simp: set_detached_def)
      from same_tasks_Some [OF s'(3) this] show ?thesis by auto
    qed
    with s' run True show ?thesis by (simp add: set_detached_def)
  next
    case False
    then have "\<exists>b \<in> pushes own k. \<not> droppable (the (tps ?s1 b))" unfolding drop by blast
    from delete_refused(1) [OF inv1 t1 ne this] run inv1 x(1) show ?thesis
      unfolding if_not_P [OF False] by (intro exI [of _ ?s1]) (simp add: set_detached_def)
  qed
qed

end
