(* ===== verification/Tp_Run.thy ===== *)
theory Tp_Run
  imports Tp_Delete
begin

text \<open>
  The pool at work: the steps of the workers, of the clients and of the client that deletes the
  pool, in any order. The clients that are in a join are the second component of a configuration.
\<close>

section \<open>Clients in a join\<close>

text \<open>
  A client in a join has read the task's last push and is on its way to the lock, is blocked in the
  wait for the push's end condition, or has been woken there. Whether a blocked client is in a timed
  join is not recorded: any of them may give up.
\<close>

datatype client = AtLock ptr | AtTimedLock ptr int | Waits ptr | Woken ptr

fun client_push :: "client \<Rightarrow> ptr" where
  "client_push (AtLock p) = p"
| "client_push (AtTimedLock p timeout) = p"
| "client_push (Waits p) = p"
| "client_push (Woken p) = p"

text \<open>\<open>pthread_cond_signal\<close> on the end condition wakes one of the clients that wait for it.\<close>

definition signal_end :: "ptr \<Rightarrow> client multiset \<Rightarrow> client multiset" where
  "signal_end p W = (if Waits p \<in># W then add_mset (Woken p) (W - {#Waits p#}) else W)"

text \<open>A join that goes on.\<close>

definition enter :: "(ptr \<Rightarrow> client) \<Rightarrow> join_out \<Rightarrow> client multiset \<Rightarrow> client multiset" where
  "enter f out W = (case out of Inl _ \<Rightarrow> W | Inr p \<Rightarrow> add_mset (f p) W)"

section \<open>Steps\<close>

type_synonym conf = "pool \<times> client multiset"

datatype tp_op = NewTask "int \<Rightarrow> int" int | PushTask nat | Work nat
  | Join nat | TimedJoin nat int | JoinLock ptr | TimedJoinLock ptr int | Wake ptr | TimedWake ptr bool
  | DeleteTask nat | DetachTask nat | DeletePool | WakeDeleter
  | SpuriousWork nat | SpuriousJoin ptr | SpuriousDeleter

definition do_work :: "nat \<Rightarrow> pool \<Rightarrow> pool res" where
  "do_work i s = (case workers s ! i of
      AtTop \<Rightarrow> worker_take i s
    | Executing p \<Rightarrow> worker_call i p s
    | Executed p \<Rightarrow> worker_finish i p s
    | _ \<Rightarrow> ret s)"

text \<open>The clients after a step of a worker: the last section of its round ends with the signal.\<close>

definition after_work :: "worker \<Rightarrow> client multiset \<Rightarrow> client multiset" where
  "after_work w W = (case w of Executed p \<Rightarrow> signal_end p W | _ \<Rightarrow> W)"

fun tp_do :: "tp_op \<Rightarrow> conf \<Rightarrow> conf res" where
  "tp_do (NewTask f a) (s, W) = ret (snd (thread_task_new f a s), W)"
| "tp_do (PushTask k) (s, W) = bindR (thread_pool_push_task (Ptr k) s) (\<lambda>r. ret (snd r, W))"
| "tp_do (Work i) (s, W) = bindR (do_work i s) (\<lambda>s'. ret (s', after_work (workers s ! i) W))"
| "tp_do (Join k) (s, W) = bindR (join_lookup (Ptr k) s) (\<lambda>out. ret (s, enter AtLock out W))"
| "tp_do (TimedJoin k timeout) (s, W) =
     bindR (join_lookup (Ptr k) s) (\<lambda>out. ret (s, enter (\<lambda>p. AtTimedLock p timeout) out W))"
| "tp_do (JoinLock p) (s, W) = bindR (join_begin p s) (\<lambda>(out, s). ret (s, enter Waits out (W - {#AtLock p#})))"
| "tp_do (TimedJoinLock p timeout) (s, W) =
     bindR (timed_join_begin timeout p s) (\<lambda>(out, s). ret (s, enter Waits out (W - {#AtTimedLock p timeout#})))"
| "tp_do (Wake p) (s, W) = bindR (join_end p s) (\<lambda>out. ret (s, W - {#Woken p#}))"
| "tp_do (TimedWake p timed_out) (s, W) =
     bindR (timed_join_end timed_out p s) (\<lambda>out. ret (s, W - {#if timed_out then Waits p else Woken p#}))"
| "tp_do (DeleteTask k) (s, W) = bindR (thread_task_delete (Ptr k) s) (\<lambda>r. ret (snd r, W))"
| "tp_do (DetachTask k) (s, W) = bindR (thread_task_detach (Ptr k) s) (\<lambda>r. ret (snd r, W))"
| "tp_do DeletePool (s, W) = bindR (pool_delete_begin s) (\<lambda>r. ret (snd r, W))"
| "tp_do WakeDeleter (s, W) = bindR (pool_delete_end s) (\<lambda>r. ret (snd r, W))"
| "tp_do (SpuriousWork i) (s, W) = ret (s\<lparr>workers := (workers s)[i := wake (workers s ! i)]\<rparr>, W)"
| "tp_do (SpuriousJoin p) (s, W) = ret (s, signal_end p W)"
| "tp_do SpuriousDeleter (s, W) = ret (signal_finish s, W)"

section \<open>The rules for clients\<close>

definition finished_at :: "pool \<Rightarrow> ptr \<Rightarrow> bool" where
  "finished_at s p \<longleftrightarrow> (\<exists>a x. p = Ptr a \<and> tps s a = Some x \<and> t_finished x)"

text \<open>No client is in a join on the task, and no join on it has been given up before it has finished.\<close>

definition released :: "conf \<Rightarrow> nat \<Rightarrow> bool" where
  "released c k \<longleftrightarrow> (\<forall>a x. tps (fst c) a = Some x \<longrightarrow> thread_task x = Ptr k \<longrightarrow>
     (\<forall>cl \<in># snd c. client_push cl \<noteq> Ptr a) \<and> (is_joined x \<longrightarrow> t_finished x))"

text \<open>
  The steps that are possible: a blocked or ended thread takes none, and a blocked one is woken by
  another thread's step, by the time or spuriously. And what the pool relies on: calls are on
  existing tasks; a join is woken spuriously only when its push has finished; a task is deleted or
  detached when no join on it is open, and detached only when its last push has finished; nobody
  pushes or deletes once the pool is being deleted.
\<close>

fun tp_allowed :: "tp_op \<Rightarrow> conf \<Rightarrow> bool" where
  "tp_allowed (NewTask f a) c \<longleftrightarrow> True"
| "tp_allowed (PushTask k) c \<longleftrightarrow> ttasks (fst c) k \<noteq> None \<and> deleter (fst c) = NotDeleting"
| "tp_allowed (Work i) c \<longleftrightarrow> i < length (workers (fst c)) \<and> workers (fst c) ! i \<notin> {Waiting, Exited}"
| "tp_allowed (Join k) c \<longleftrightarrow> ttasks (fst c) k \<noteq> None"
| "tp_allowed (TimedJoin k timeout) c \<longleftrightarrow> ttasks (fst c) k \<noteq> None"
| "tp_allowed (JoinLock p) c \<longleftrightarrow> AtLock p \<in># snd c"
| "tp_allowed (TimedJoinLock p timeout) c \<longleftrightarrow> AtTimedLock p timeout \<in># snd c"
| "tp_allowed (Wake p) c \<longleftrightarrow> Woken p \<in># snd c"
| "tp_allowed (TimedWake p timed_out) c \<longleftrightarrow> (if timed_out then Waits p else Woken p) \<in># snd c"
| "tp_allowed (DeleteTask k) c \<longleftrightarrow> ttasks (fst c) k \<noteq> None \<and> released c k"
| "tp_allowed (DetachTask k) c \<longleftrightarrow> ttasks (fst c) k \<noteq> None \<and> released c k \<and>
     (\<forall>p. get_tp_task (fst c) (Ptr k) = ret p \<longrightarrow> p \<noteq> Null \<longrightarrow> finished_at (fst c) p)"
| "tp_allowed DeletePool c \<longleftrightarrow> deleter (fst c) = NotDeleting"
| "tp_allowed WakeDeleter c \<longleftrightarrow> deleter (fst c) = DeleteWoken"
| "tp_allowed (SpuriousWork i) c \<longleftrightarrow> i < length (workers (fst c)) \<and> workers (fst c) ! i = Waiting"
| "tp_allowed (SpuriousJoin p) c \<longleftrightarrow> Waits p \<in># snd c \<and> finished_at (fst c) p"
| "tp_allowed SpuriousDeleter c \<longleftrightarrow> deleter (fst c) = DeleteWaits"

text \<open>The configurations of a pool that was created for \<open>n\<close> threads.\<close>

inductive tp_reach :: "int \<Rightarrow> conf \<Rightarrow> bool" where
  start: "thread_pool_new n = (TpOk, Some s) \<Longrightarrow> tp_reach n (s, {#})"
| step: "tp_reach n c \<Longrightarrow> tp_allowed oper c \<Longrightarrow> tp_do oper c = ret c' \<Longrightarrow> tp_reach n c'"

section \<open>The invariant of configurations\<close>

text \<open>
  A thread waits only in an active pool without waiting pushes (no wake-up is lost), there is a
  thread for waiting pushes, and a pool that is being deleted has no pushes.
\<close>

definition sched_ok :: "pool \<Rightarrow> nat list \<Rightarrow> bool" where
  "sched_ok s pend \<longleftrightarrow> (is_active s \<longleftrightarrow> deleter s = NotDeleting)
     \<and> (is_active s \<longrightarrow> Exited \<notin> set (workers s) \<and> (pend \<noteq> [] \<longrightarrow> workers s \<noteq> []))
     \<and> (Waiting \<in> set (workers s) \<longrightarrow> is_active s \<and> pend = [])
     \<and> (deleter s \<noteq> NotDeleting \<longrightarrow> tps s = Map.empty)
     \<and> (deleter s = DeleteWaits \<longrightarrow> threads_cnt s \<noteq> 0)"

text \<open>A client in a join is on an existing push, and one that was woken on a finished one.\<close>

definition clients_ok :: "pool \<Rightarrow> client multiset \<Rightarrow> bool" where
  "clients_ok s W \<longleftrightarrow> (\<forall>cl \<in># W. (\<exists>a x. client_push cl = Ptr a \<and> tps s a = Some x)
     \<and> (\<forall>p. cl = Woken p \<longrightarrow> finished_at s p))"

definition conf_inv :: "int \<Rightarrow> conf \<Rightarrow> bool" where
  "conf_inv n c \<longleftrightarrow> (\<exists>pend rest own. tp_inv (fst c) pend rest own \<and> sched_ok (fst c) pend)
     \<and> clients_ok (fst c) (snd c) \<and> max_threads_cnt (fst c) = n"

lemma conf_invI:
  "tp_inv s pend rest own \<Longrightarrow> sched_ok s pend \<Longrightarrow> clients_ok s W \<Longrightarrow> max_threads_cnt s = n \<Longrightarrow> conf_inv n (s, W)"
  by (auto simp: conf_inv_def)

lemma conf_invE:
  assumes "conf_inv n (s, W)"
  obtains pend rest own where "tp_inv s pend rest own" "sched_ok s pend" "clients_ok s W" "max_threads_cnt s = n"
  using assms by (auto simp: conf_inv_def)

lemma conf_inv_start: "thread_pool_new n = (TpOk, Some s) \<Longrightarrow> conf_inv n (s, {#})"
  by (rule conf_invI [OF thread_pool_new_inv])
    (auto simp: thread_pool_new_def sched_ok_def clients_ok_def split: if_splits)

lemma clients_ok_sub: "clients_ok s W \<Longrightarrow> clients_ok s (W - {#cl#})"
  by (auto simp: clients_ok_def dest: in_diffD)

lemma clients_ok_add:
  "clients_ok s W \<Longrightarrow> client_push cl = Ptr a \<Longrightarrow> tps s a = Some x \<Longrightarrow> (\<And>p. cl = Woken p \<Longrightarrow> t_finished x)
    \<Longrightarrow> clients_ok s (add_mset cl W)"
  by (auto simp: clients_ok_def finished_at_def)

text \<open>A step that keeps the pushes with clients, and what has finished of them.\<close>

lemma clients_ok_mono:
  assumes "clients_ok s W"
    and "\<And>cl a x. cl \<in># W \<Longrightarrow> client_push cl = Ptr a \<Longrightarrow> tps s a = Some x
      \<Longrightarrow> \<exists>y. tps s' a = Some y \<and> (t_finished x \<longrightarrow> t_finished y)"
  shows "clients_ok s' W"
  unfolding clients_ok_def
proof (intro ballI conjI allI impI)
  fix cl assume cl: "cl \<in># W"
  with assms(1) obtain a x where x: "client_push cl = Ptr a" "tps s a = Some x" by (auto simp: clients_ok_def)
  from assms(2) [OF cl x] obtain y where y: "tps s' a = Some y" "t_finished x \<longrightarrow> t_finished y" by blast
  with x show "\<exists>a x. client_push cl = Ptr a \<and> tps s' a = Some x" by blast
  fix p assume p: "cl = Woken p"
  with assms(1) cl x have "t_finished x" by (auto simp: clients_ok_def finished_at_def)
  with p x(1) y show "finished_at s' p" by (auto simp: finished_at_def)
qed

lemma clients_ok_cong: "clients_ok s W \<Longrightarrow> tps s' = tps s \<Longrightarrow> clients_ok s' W"
  by (erule clients_ok_mono) simp

lemma clients_ok_signal: "clients_ok s W \<Longrightarrow> finished_at s p \<Longrightarrow> clients_ok s (signal_end p W)"
  by (auto simp: signal_end_def finished_at_def intro!: clients_ok_add clients_ok_sub)

lemma clients_ok_enter:
  "clients_ok s W \<Longrightarrow> tps s a = Some x \<Longrightarrow> out = Inr (Ptr a) \<or> (\<exists>r. out = Inl r) \<Longrightarrow> client_push (f (Ptr a)) = Ptr a
    \<Longrightarrow> (\<And>p. f (Ptr a) \<noteq> Woken p) \<Longrightarrow> clients_ok s (enter f out W)"
  using clients_ok_add [of s W "f (Ptr a)" a x] by (auto simp: enter_def)

section \<open>The steps of the workers\<close>

text \<open>The steps that the workers, and the client that deletes the pool, have left before they block or end.\<close>

fun worker_steps :: "worker \<Rightarrow> nat" where
  "worker_steps (Executing p) = 4"
| "worker_steps (Executed p) = 3"
| "worker_steps AtTop = 2"
| "worker_steps w = 0"

definition steps_left :: "pool \<Rightarrow> nat list \<Rightarrow> nat" where
  "steps_left s pend = 4 * length pend + sum_list (map worker_steps (workers s)) + (if deleter s = DeleteWoken then 1 else 0)"

lemma steps_upd: "i < length ws \<Longrightarrow>
    sum_list (map worker_steps (ws[i := w])) + worker_steps (ws ! i) = sum_list (map worker_steps ws) + worker_steps w"
  by (induction ws arbitrary: i) (auto simp: nth_Cons' split: nat.split)

lemma steps_left_step:
  assumes "i < length (workers s)" "workers s' = (workers s)[i := w]" "deleter s' = deleter s"
    "4 * length pend' + worker_steps w < 4 * length pend + worker_steps (workers s ! i)"
  shows "steps_left s' pend' < steps_left s pend"
  using steps_upd [OF assms(1), of w] assms(2-4) by (simp add: steps_left_def)

text \<open>What a step of worker \<open>i\<close> does to the rest.\<close>

definition worked :: "nat \<Rightarrow> pool \<Rightarrow> pool \<Rightarrow> bool" where
  "worked i s s' \<longleftrightarrow> dom (tps s') = dom (tps s) \<and> max_threads_cnt s' = max_threads_cnt s
     \<and> is_active s' = is_active s \<and> ttasks s' = ttasks s
     \<and> (\<forall>p. finished_at s' p \<longleftrightarrow> finished_at s p \<or> workers s ! i = Executed p)"

lemma sched_ok_upd:
  assumes "sched_ok s pend" "is_active s' = is_active s" "deleter s' = deleter s" "workers s' = (workers s)[i := w]"
    "is_active s \<Longrightarrow> w \<noteq> Exited" "w = Waiting \<Longrightarrow> is_active s \<and> pend' = []" "dom (tps s') = dom (tps s)"
    "threads_cnt s' = threads_cnt s" "pend = [] \<Longrightarrow> pend' = []" "i < length (workers s)"
  shows "sched_ok s' pend'"
proof -
  have tps: "tps s' = Map.empty \<longleftrightarrow> tps s = Map.empty" using assms(7) by (metis dom_eq_empty_conv)
  have mem: "v \<in> set (workers s') \<Longrightarrow> v = w \<or> v \<in> set (workers s)" for v
    using set_update_subset_insert [of "workers s" i w] assms(4) by auto
  from assms(1) show ?thesis
    unfolding sched_ok_def assms(2,3,8) tps
    using mem [of Exited] mem [of Waiting] assms(4-6,9,10) by auto
qed

lemma finished_at_same:
  assumes "same_tasks h h'" "\<And>a x. tps s a = Some x \<Longrightarrow> \<exists>y. h a = Some y \<and> t_finished y = t_finished x"
    "dom h = dom (tps s)" "tps s' = h'"
  shows "finished_at s' p = finished_at s p"
proof
  assume "finished_at s' p"
  then obtain a y where y: "p = Ptr a" "h' a = Some y" "t_finished y" using assms(4) by (auto simp: finished_at_def)
  from same_tasks_Some [OF same_tasks_sym [OF assms(1)] y(2)] obtain z where z: "h a = Some z" "t_finished z = t_finished y" by auto
  then have "a \<in> dom (tps s)" using assms(3) by blast
  then obtain x where "tps s a = Some x" by blast
  with assms(2) [OF this] z y show "finished_at s p" by (auto simp: finished_at_def)
next
  assume "finished_at s p"
  then obtain a x where x: "p = Ptr a" "tps s a = Some x" "t_finished x" by (auto simp: finished_at_def)
  from assms(2) [OF x(2)] obtain y where y: "h a = Some y" "t_finished y" using x(3) by auto
  from same_tasks_Some [OF assms(1) y(1)] x(1) y(2) assms(4) show "finished_at s' p" by (auto simp: finished_at_def)
qed

lemma take_ok:
  assumes inv: "tp_inv s pend rest own" and so: "sched_ok s pend" and i: "i < length (workers s)"
    and r: "workers s ! i = AtTop"
  shows "\<exists>s' pend' rest'. worker_take i s = ret s' \<and> tp_inv s' pend' rest' own \<and> sched_ok s' pend'
    \<and> worked i s s' \<and> steps_left s' pend' < steps_left s pend"
proof (cases "is_active s")
  case False
  have rd: "ready (workers s ! i)" using r by (simp add: ready_def)
  let ?s = "s\<lparr>threads_cnt := threads_cnt s - 1, workers := (workers s)[i := Exited]\<rparr>"
  note E = worker_take_exit [OF inv False i rd]
  have d: "deleter s \<noteq> NotDeleting" "Waiting \<notin> set (workers s)" "tps s = Map.empty" using so False by (auto simp: sched_ok_def)
  have "Waiting \<notin> set ((workers s)[i := Exited])" using d(2) set_update_subset_insert [of "workers s" i Exited] by auto
  with d False have "sched_ok (signal_finish ?s) pend"
    by (auto simp: sched_ok_def signal_finish_def)
  moreover have "worked i s (signal_finish ?s)" using r by (auto simp: worked_def signal_finish_def finished_at_def)
  moreover have "steps_left (signal_finish ?s) pend < steps_left s pend"
    using steps_upd [OF i, of Exited] r by (auto simp: steps_left_def signal_finish_def)
  ultimately show ?thesis using E by blast
next
  case True
  have rd: "ready (workers s ! i)" using r by (simp add: ready_def)
  show ?thesis
  proof (cases pend)
    case Nil
    let ?s = "s\<lparr>workers := (workers s)[i := Waiting]\<rparr>"
    have "sched_ok ?s pend" by (rule sched_ok_upd [OF so, where i = i and w = Waiting]) (use i True Nil in simp_all)
    moreover have "worked i s ?s" using r by (auto simp: worked_def finished_at_def)
    moreover have "steps_left ?s pend < steps_left s pend" by (rule steps_left_step [OF i, where w = Waiting]) (use r in simp_all)
    ultimately show ?thesis using worker_take_wait [OF inv [unfolded Nil] True i rd] Nil by blast
  next
    case (Cons a pend')
    from worker_take_run [OF inv [unfolded Cons] True i rd] obtain h p where
      h: "worker_take i s = ret (s\<lparr>active_threads_cnt := active_threads_cnt s + 1, tps := h, p_task := p,
          last_task := Ptr a, workers := (workers s)[i := Executing (Ptr a)]\<rparr>)"
        "tp_inv (s\<lparr>active_threads_cnt := active_threads_cnt s + 1, tps := h, p_task := p,
          last_task := Ptr a, workers := (workers s)[i := Executing (Ptr a)]\<rparr>) pend' (rest @ [a]) own"
        "same_tasks ((tps s)(a \<mapsto> (the (tps s a))\<lparr>t_running := True\<rparr>)) h" by blast
    let ?s = "s\<lparr>active_threads_cnt := active_threads_cnt s + 1, tps := h, p_task := p,
          last_task := Ptr a, workers := (workers s)[i := Executing (Ptr a)]\<rparr>"
    have a: "a \<in> dom (tps s)" using tp_invD(3) [OF inv] Cons by simp
    then have dom: "dom h = dom (tps s)" using same_tasks_dom [OF h(3)] by auto
    have fin: "finished_at ?s q = finished_at s q" for q
      by (rule finished_at_same [OF h(3)]) (use a in auto)
    have "sched_ok ?s pend'"
      by (rule sched_ok_upd [OF so, where i = i and w = "Executing (Ptr a)"]) (use i dom Cons in simp_all)
    moreover have "worked i s ?s" using r fin dom by (simp add: worked_def)
    moreover have "steps_left ?s pend' < steps_left s pend"
      by (rule steps_left_step [OF i, where w = "Executing (Ptr a)"]) (use r Cons in simp_all)
    ultimately show ?thesis using h(1,2) by blast
  qed
qed

lemma do_work_ok:
  assumes inv: "tp_inv s pend rest own" and so: "sched_ok s pend" and i: "i < length (workers s)"
    and go: "workers s ! i \<notin> {Waiting, Exited}"
  shows "\<exists>s' pend' rest'. do_work i s = ret s' \<and> tp_inv s' pend' rest' own \<and> sched_ok s' pend'
    \<and> worked i s s' \<and> steps_left s' pend' < steps_left s pend"
proof (cases "workers s ! i")
  case AtTop
  then show ?thesis using take_ok [OF inv so i] by (simp add: do_work_def)
next
  case (Executing p)
  from worker_call_ok [OF inv i this] obtain a x r where
    h: "p = Ptr a" "tps s a = Some x"
      "worker_call i p s = ret (s\<lparr>tps := (tps s)(a \<mapsto> x\<lparr>t_result := r\<rparr>), workers := (workers s)[i := Executed p]\<rparr>)"
      "tp_inv (s\<lparr>tps := (tps s)(a \<mapsto> x\<lparr>t_result := r\<rparr>), workers := (workers s)[i := Executed p]\<rparr>) pend rest own" by blast
  let ?s = "s\<lparr>tps := (tps s)(a \<mapsto> x\<lparr>t_result := r\<rparr>), workers := (workers s)[i := Executed p]\<rparr>"
  have "sched_ok ?s pend" by (rule sched_ok_upd [OF so, where i = i and w = "Executed p"]) (use i h(2) in auto)
  moreover have "worked i s ?s" using Executing h(2) by (auto simp: worked_def finished_at_def split: if_splits)
  moreover have "steps_left ?s pend < steps_left s pend"
    by (rule steps_left_step [OF i, where w = "Executed p"]) (use Executing in simp_all)
  ultimately show ?thesis using h Executing by (simp add: do_work_def) blast
next
  case (Executed p)
  from worker_finish_ok [OF inv i this] obtain a x where
    h: "p = Ptr a" "tps s a = Some x"
      "worker_finish i p s = ret (s\<lparr>tps := (tps s)(a \<mapsto> x\<lparr>t_finished := True, t_running := False\<rparr>),
        active_threads_cnt := active_threads_cnt s - 1, workers := (workers s)[i := AtTop]\<rparr>)"
      "tp_inv (s\<lparr>tps := (tps s)(a \<mapsto> x\<lparr>t_finished := True, t_running := False\<rparr>),
        active_threads_cnt := active_threads_cnt s - 1, workers := (workers s)[i := AtTop]\<rparr>) pend rest own" by blast
  let ?s = "s\<lparr>tps := (tps s)(a \<mapsto> x\<lparr>t_finished := True, t_running := False\<rparr>),
        active_threads_cnt := active_threads_cnt s - 1, workers := (workers s)[i := AtTop]\<rparr>"
  have "sched_ok ?s pend" by (rule sched_ok_upd [OF so, where i = i and w = AtTop]) (use i h(2) in auto)
  moreover have "worked i s ?s" using Executed h(1,2) by (auto simp: worked_def finished_at_def split: if_splits)
  moreover have "steps_left ?s pend < steps_left s pend"
    by (rule steps_left_step [OF i, where w = AtTop]) (use Executed in simp_all)
  ultimately show ?thesis using h Executed by (simp add: do_work_def) blast
qed (use go in simp_all)

section \<open>The calls of the clients\<close>

lemma sched_ok_cong:
  "sched_ok s pend \<Longrightarrow> is_active s' = is_active s \<Longrightarrow> workers s' = workers s \<Longrightarrow> deleter s' = deleter s
    \<Longrightarrow> threads_cnt s' = threads_cnt s \<Longrightarrow> dom (tps s') \<subseteq> dom (tps s) \<Longrightarrow> sched_ok s' pend"
proof -
  assume *: "sched_ok s pend" "is_active s' = is_active s" "workers s' = workers s" "deleter s' = deleter s"
    "threads_cnt s' = threads_cnt s" "dom (tps s') \<subseteq> dom (tps s)"
  from *(6) have "tps s = Map.empty \<Longrightarrow> tps s' = Map.empty" by (metis dom_eq_empty_conv subset_empty)
  with * show ?thesis by (auto simp: sched_ok_def)
qed

lemma work_step:
  assumes c: "conf_inv n (s, W)" and ok: "tp_allowed (Work i) (s, W)"
  shows "\<exists>c'. tp_do (Work i) (s, W) = ret c' \<and> conf_inv n c'"
proof -
  obtain pend rest own where I: "tp_inv s pend rest own" "sched_ok s pend" "clients_ok s W" "max_threads_cnt s = n"
    using conf_invE [OF c] by metis
  from ok have "i < length (workers s)" "workers s ! i \<notin> {Waiting, Exited}" by simp_all
  from do_work_ok [OF I(1,2) this] obtain s' pend' rest' where
    s': "do_work i s = ret s'" "tp_inv s' pend' rest' own" "sched_ok s' pend'" "worked i s s'" by blast
  have "clients_ok s' W"
  proof (rule clients_ok_mono [OF I(3)])
    fix cl a x assume "tps s a = Some x"
    moreover from this obtain y where "tps s' a = Some y" using s'(4) by (auto simp: worked_def)
    ultimately show "\<exists>y. tps s' a = Some y \<and> (t_finished x \<longrightarrow> t_finished y)"
      using s'(4) [unfolded worked_def, THEN conjunct2, THEN conjunct2, THEN conjunct2, THEN conjunct2, rule_format, of "Ptr a"]
      by (auto simp: finished_at_def)
  qed
  then have "clients_ok s' (after_work (workers s ! i) W)"
    using s'(4) by (auto simp: after_work_def worked_def split: worker.split intro: clients_ok_signal)
  then have "conf_inv n (s', after_work (workers s ! i) W)"
    by (rule conf_invI [OF s'(2,3)]) (use I(4) s'(4) in \<open>simp add: worked_def\<close>)
  with s'(1) show ?thesis by simp
qed

lemma push_step:
  assumes c: "conf_inv n (s, W)" and ok: "tp_allowed (PushTask k) (s, W)"
  shows "\<exists>c'. tp_do (PushTask k) (s, W) = ret c' \<and> conf_inv n c'"
proof -
  obtain t where t: "ttasks s k = Some t" and del: "deleter s = NotDeleting" using ok by auto
  obtain pend rest own where I: "tp_inv s pend rest own" "sched_ok s pend" "clients_ok s W" "max_threads_cnt s = n"
    using conf_invE [OF c] by metis
  have pool: "deleter s \<noteq> PoolFreed" using del by simp
  show ?thesis
  proof (cases "tasks_cnt s = TPOOL_MAX_TASKS")
    case True
    with c pool show ?thesis by (simp add: thread_pool_push_full)
  next
    case False
    note P = thread_pool_push_ok [OF I(1) pool t False]
    let ?s1 = "pushed k (start_thread s)"
    let ?s = "broadcast_work ?s1"
    have "workers s = [] \<Longrightarrow> active_threads_cnt s = threads_cnt s \<and> threads_cnt s < max_threads_cnt s"
      using tp_invD(12,13,15) [OF I(1)] by simp
    then have "workers ?s1 \<noteq> []" "Exited \<notin> set (workers ?s1)" "is_active ?s1" "deleter ?s1 = NotDeleting"
      using I(2) del by (auto simp: sched_ok_def pushed_def start_thread_def Let_def)
    then have so: "sched_ok ?s (next_addr s # pend)" by (auto simp: sched_ok_def dest: sym [of _ "wake _"])
    have keep: "\<exists>y. tps ?s1 a = Some y \<and> (t_finished x \<longrightarrow> t_finished y)" if x: "tps s a = Some x" for a x
    proof -
      have "a \<noteq> next_addr s" using tp_invD(9) [OF I(1), of a] x by auto
      then have "((tps s)(next_addr s \<mapsto> new_push k)) a = Some x" using x by simp
      from same_tasks_Some [OF push_heap_ok(2) [OF tp_invD(1) [OF I(1)], of "next_addr s" "new_push k"] this]
        tp_invD(9) [OF I(1), of "next_addr s"]
      show ?thesis by (auto simp: pushed_def Let_def new_push_def)
    qed
    have "clients_ok ?s W" by (rule clients_ok_mono [OF I(3)]) (simp add: keep)
    then have "conf_inv n (?s, W)"
      by (rule conf_invI [OF P(2) so]) (use I(4) in \<open>simp add: pushed_def Let_def\<close>)
    with P(1) show ?thesis by simp
  qed
qed

lemma join_step:
  assumes c: "conf_inv n (s, W)" and k: "ttasks s k \<noteq> None"
  shows "\<exists>c'. tp_do (Join k) (s, W) = ret c' \<and> conf_inv n c'"
    "\<exists>c'. tp_do (TimedJoin k timeout) (s, W) = ret c' \<and> conf_inv n c'"
proof -
  obtain t where t: "ttasks s k = Some t" using k by blast
  obtain pend rest own where I: "tp_inv s pend rest own" "sched_ok s pend" "clients_ok s W" "max_threads_cnt s = n"
    using conf_invE [OF c] by metis
  note J = join_lookup_ok [OF I(1) t]
  have e: "clients_ok s (enter f (case last_push (own k) of Ptr a \<Rightarrow> Inr (Ptr a) | _ \<Rightarrow> Inl (TASK_NOT_PUSHED, None)) W)"
    if "\<And>p. client_push (f p) = p" "\<And>p q. f p \<noteq> Woken q" for f
  proof (cases "last_push (own k)")
    case (Ptr a)
    from last_push_push [OF I(1) this] obtain x where "tps s a = Some x" by blast
    with clients_ok_enter [OF I(3) this, of "Inr (Ptr a)" f] that Ptr show ?thesis by simp
  qed (use I(3) in \<open>simp_all add: enter_def\<close>)
  from e [of AtLock] e [of "\<lambda>p. AtTimedLock p timeout"] J
  show "\<exists>c'. tp_do (Join k) (s, W) = ret c' \<and> conf_inv n c'"
    "\<exists>c'. tp_do (TimedJoin k timeout) (s, W) = ret c' \<and> conf_inv n c'"
    using conf_invI [OF I(1,2) _ I(4)] by simp_all
qed

lemma client_on_push: "clients_ok s W \<Longrightarrow> cl \<in># W \<Longrightarrow> \<exists>a x. client_push cl = Ptr a \<and> tps s a = Some x"
  by (auto simp: clients_ok_def)

lemma lock_step:
  assumes c: "conf_inv n (s, W)"
  shows "AtLock p \<in># W \<Longrightarrow> \<exists>c'. tp_do (JoinLock p) (s, W) = ret c' \<and> conf_inv n c'"
    and "AtTimedLock p timeout \<in># W \<Longrightarrow> \<exists>c'. tp_do (TimedJoinLock p timeout) (s, W) = ret c' \<and> conf_inv n c'"
proof -
  obtain pend rest own where I: "tp_inv s pend rest own" "sched_ok s pend" "clients_ok s W" "max_threads_cnt s = n"
    using conf_invE [OF c] by metis
  have locked: "conf_inv n (set_joined a s, enter Waits (join_outcome a x) (W - {#cl#}))" if x: "tps s a = Some x" for a x cl
  proof (rule conf_invI [OF join_begin_ok(2) [OF I(1) x]])
    have "dom (tps (set_joined a s)) = dom (tps s)" using x by (auto simp: set_joined_def)
    then show "sched_ok (set_joined a s) pend" by (intro sched_ok_cong [OF I(2)]) simp_all
    have "clients_ok (set_joined a s) (W - {#cl#})"
      by (rule clients_ok_mono [OF clients_ok_sub [OF I(3)]]) (use x in \<open>auto simp: set_joined_def\<close>)
    then show "clients_ok (set_joined a s) (enter Waits (join_outcome a x) (W - {#cl#}))"
      by (rule clients_ok_enter [where a = a]) (auto simp: set_joined_def join_outcome_def)
  qed (simp add: I(4))
  show "\<exists>c'. tp_do (JoinLock p) (s, W) = ret c' \<and> conf_inv n c'" if at: "AtLock p \<in># W"
  proof -
    from client_on_push [OF I(3) at] obtain a x where x: "p = Ptr a" "tps s a = Some x" by auto
    with join_begin_ok(1) [OF I(1) x(2)] locked [OF x(2)] show ?thesis by simp
  qed
  show "\<exists>c'. tp_do (TimedJoinLock p timeout) (s, W) = ret c' \<and> conf_inv n c'" if at: "AtTimedLock p timeout \<in># W"
  proof -
    from client_on_push [OF I(3) at] obtain a x where x: "p = Ptr a" "tps s a = Some x" by auto
    have "conf_inv n (s, W - {#AtTimedLock p timeout#})" by (rule conf_invI [OF I(1,2) clients_ok_sub [OF I(3)] I(4)])
    with x timed_join_begin_ok [OF I(1) x(2), of timeout] join_begin_ok(1) [OF I(1) x(2)] locked [OF x(2)]
    show ?thesis by (simp add: enter_def)
  qed
qed

lemma wake_step:
  assumes c: "conf_inv n (s, W)"
  shows "Woken p \<in># W \<Longrightarrow> \<exists>c'. tp_do (Wake p) (s, W) = ret c' \<and> conf_inv n c'"
    and "(if b then Waits p else Woken p) \<in># W \<Longrightarrow> \<exists>c'. tp_do (TimedWake p b) (s, W) = ret c' \<and> conf_inv n c'"
    and "finished_at s p \<Longrightarrow> \<exists>c'. tp_do (SpuriousJoin p) (s, W) = ret c' \<and> conf_inv n c'"
proof -
  obtain pend rest own where I: "tp_inv s pend rest own" "sched_ok s pend" "clients_ok s W" "max_threads_cnt s = n"
    using conf_invE [OF c] by metis
  have W: "conf_inv n (s, W - {#cl#})" for cl by (rule conf_invI [OF I(1,2) clients_ok_sub [OF I(3)] I(4)])
  have lock: "pool_lock s = ret s" if "cl \<in># W" for cl
    using client_on_push [OF I(3) that] lock_push [OF I(1)] by blast
  have r: "\<exists>out. read_result s p = ret out" if "Woken p \<in># W"
  proof -
    from that I(3) obtain a x where x: "p = Ptr a" "tps s a = Some x" "t_finished x"
      by (auto simp: clients_ok_def finished_at_def)
    from tp_inv_push [OF I(1) x(2)] obtain k t where "thread_task x = Ptr k" "ttasks s k = Some t" by blast
    from read_result_ok [OF I(1) x(2,3) this] x(1) show ?thesis by blast
  qed
  show "Woken p \<in># W \<Longrightarrow> \<exists>c'. tp_do (Wake p) (s, W) = ret c' \<and> conf_inv n c'"
    using r W lock [of "Woken p"] by (auto simp: join_end_def)
  show "(if b then Waits p else Woken p) \<in># W \<Longrightarrow> \<exists>c'. tp_do (TimedWake p b) (s, W) = ret c' \<and> conf_inv n c'"
    using r W lock [of "Waits p"] lock [of "Woken p"] by (cases b) (auto simp: timed_join_end_def)
  show "finished_at s p \<Longrightarrow> \<exists>c'. tp_do (SpuriousJoin p) (s, W) = ret c' \<and> conf_inv n c'"
    using conf_invI [OF I(1,2) clients_ok_signal [OF I(3)] I(4)] by simp
qed

lemma released_pushes:
  assumes inv: "tp_inv s pend rest own" and r: "released (s, W) k" and a: "a \<in> pushes own k"
  shows "cl \<in># W \<Longrightarrow> client_push cl \<noteq> Ptr a" "is_joined (the (tps s a)) \<longrightarrow> t_finished (the (tps s a))"
    "droppable (the (tps s a)) \<Longrightarrow> t_finished (the (tps s a))"
proof -
  obtain x where x: "tps s a = Some x" "thread_task x = Ptr k" using pushes_alloc [OF inv a] by blast
  with r show "cl \<in># W \<Longrightarrow> client_push cl \<noteq> Ptr a" and 1: "is_joined (the (tps s a)) \<longrightarrow> t_finished (the (tps s a))"
    by (auto simp: released_def)
  from 1 show "droppable (the (tps s a)) \<Longrightarrow> t_finished (the (tps s a))" by (auto simp: droppable_def)
qed

text \<open>The clients keep their pushes when those of \<open>k\<close> go.\<close>

lemma released_clients:
  assumes inv: "tp_inv s pend rest own" and r: "released (s, W) k" and W: "clients_ok s W"
    and keep: "\<And>a x. a \<notin> pushes own k \<Longrightarrow> tps s a = Some x \<Longrightarrow> \<exists>y. tps s' a = Some y \<and> (t_finished x \<longrightarrow> t_finished y)"
  shows "clients_ok s' W"
proof (rule clients_ok_mono [OF W])
  fix cl a x assume "cl \<in># W" "client_push cl = Ptr a" "tps s a = Some x"
  with released_pushes(1) [OF inv r] keep show "\<exists>y. tps s' a = Some y \<and> (t_finished x \<longrightarrow> t_finished y)" by blast
qed

lemma delete_step:
  assumes c: "conf_inv n (s, W)" and k: "ttasks s k \<noteq> None" and r: "released (s, W) k"
  shows "\<exists>c'. tp_do (DeleteTask k) (s, W) = ret c' \<and> conf_inv n c'"
proof -
  obtain t where t: "ttasks s k = Some t" using k by blast
  obtain pend rest own where I: "tp_inv s pend rest own" "sched_ok s pend" "clients_ok s W" "max_threads_cnt s = n"
    using conf_invE [OF c] by metis
  consider (unpushed) "own k = []" | (refused) "own k \<noteq> []" "\<exists>a \<in> pushes own k. \<not> droppable (the (tps s a))"
    | (deleted) "own k \<noteq> []" "\<forall>a \<in> pushes own k. droppable (the (tps s a))" by blast
  then show ?thesis
  proof cases
    case unpushed
    note d = delete_unpushed(2,3) [OF I(1) t unpushed]
    let ?s = "s\<lparr>ttasks := (ttasks s)(k := None)\<rparr>"
    have "sched_ok ?s pend" "clients_ok ?s W"
      using sched_ok_cong [OF I(2)] clients_ok_cong [OF I(3)] by simp_all
    then have "conf_inv n (?s, W)" by (rule conf_invI [OF d(2)]) (simp add: I(4))
    with d(1) show ?thesis by simp
  next
    case refused
    with delete_refused(2) [OF I(1) t refused] c show ?thesis by simp
  next
    case deleted
    then have "\<forall>a \<in> pushes own k. droppable (the (tps s a)) \<and> t_finished (the (tps s a))"
      using released_pushes(3) [OF I(1) r] by blast
    from delete_pushed [OF I(1) t deleted(1) this] obtain s' where
      d: "thread_task_delete (Ptr k) s = ret (TpOk, s')" "tp_inv s' pend (filter (\<lambda>b. b \<notin> pushes own k) rest) (own(k := []))"
        "workers s' = workers s" "is_active s' = is_active s" "max_threads_cnt s' = max_threads_cnt s"
        "deleter s' = deleter s" "threads_cnt s' = threads_cnt s" "same_tasks (drop_addrs (map snd (own k)) (tps s)) (tps s')"
      by blast
    have dom: "dom (tps s') \<subseteq> dom (tps s)" using same_tasks_dom [OF d(8)] by (auto simp: dom_drop_addrs)
    have "clients_ok s' W"
    proof (rule released_clients [OF I(1) r I(3)])
      fix a x assume "a \<notin> pushes own k" "tps s a = Some x"
      then have "drop_addrs (map snd (own k)) (tps s) a = Some x" by simp
      from same_tasks_Some [OF d(8) this] show "\<exists>y. tps s' a = Some y \<and> (t_finished x \<longrightarrow> t_finished y)" by auto
    qed
    then have "conf_inv n (s', W)"
      by (rule conf_invI [OF d(2) sched_ok_cong [OF I(2) d(4,3,6,7) dom]]) (simp add: I(4) d(5))
    with d(1) show ?thesis by simp
  qed
qed

lemma detach_step:
  assumes c: "conf_inv n (s, W)" and ok: "tp_allowed (DetachTask k) (s, W)"
  shows "\<exists>c'. tp_do (DetachTask k) (s, W) = ret c' \<and> conf_inv n c'"
proof -
  obtain t where t: "ttasks s k = Some t" and r: "released (s, W) k" using ok by auto
  obtain pend rest own where I: "tp_inv s pend rest own" "sched_ok s pend" "clients_ok s W" "max_threads_cnt s = n"
    using conf_invE [OF c] by metis
  show ?thesis
  proof (cases "own k")
    case Nil
    with detach_not_pushed [OF I(1) t] c show ?thesis by simp
  next
    case (Cons ca cs)
    then obtain a where lp: "last_push (own k) = Ptr a" by (cases ca) auto
    have "finished_at s (Ptr a)" using ok get_tp_task_ok [OF I(1) t] lp by simp
    then have fin: "t_finished (the (tps s a))" by (auto simp: finished_at_def)
    have other: "\<forall>b \<in> pushes own k. is_joined (the (tps s b)) \<longrightarrow> t_finished (the (tps s b))"
      using released_pushes(2) [OF I(1) r] by blast
    from detach_finished [OF I(1) t lp fin other] obtain s' where
      d: "thread_task_detach (Ptr k) s = ret (TpOk, s')"
        "tp_inv s' pend (filter (\<lambda>b. b \<notin> pushes own k) rest) (own(k := [])) \<or> tp_inv s' pend rest own"
        "is_active s' = is_active s" "workers s' = workers s" "max_threads_cnt s' = max_threads_cnt s"
        "deleter s' = deleter s" "threads_cnt s' = threads_cnt s"
        "\<forall>b y. b \<notin> pushes own k \<longrightarrow> tps s b = Some y \<longrightarrow> (\<exists>z. tps s' b = Some z \<and> t_finished z = t_finished y)"
      by (elim exE conjE) (rule that; (assumption | simp split: if_splits))
    have dom: "dom (tps s') \<subseteq> dom (tps s)"
      using d(2) tp_invD(3) [OF I(1)] by (auto dest!: tp_invD(3))
    have so: "sched_ok s' pend" by (rule sched_ok_cong [OF I(2) d(3,4,6,7) dom])
    have cl: "clients_ok s' W" by (rule released_clients [OF I(1) r I(3)]) (use d(8) in blast)
    from d(2) have "conf_inv n (s', W)"
      using conf_invI [OF _ so cl] I(4) d(5) by auto
    with d(1) show ?thesis by simp
  qed
qed

lemma new_task_step:
  assumes c: "conf_inv n (s, W)"
  shows "\<exists>c'. tp_do (NewTask f a) (s, W) = ret c' \<and> conf_inv n c'"
proof -
  obtain pend rest own where I: "tp_inv s pend rest own" "sched_ok s pend" "clients_ok s W" "max_threads_cnt s = n"
    using conf_invE [OF c] by metis
  from thread_task_new_ok [OF I(1), of f a] obtain k s' where
    s': "thread_task_new f a s = (Ptr k, s')" "tp_inv s' pend rest own" "workers s' = workers s" "is_active s' = is_active s"
      "deleter s' = deleter s" "threads_cnt s' = threads_cnt s" "tps s' = tps s" by blast
  have "max_threads_cnt s' = n" using s'(1) I(4) by (auto simp: thread_task_new_def)
  then have "conf_inv n (s', W)"
    by (intro conf_invI [OF s'(2) sched_ok_cong [OF I(2) s'(4,3,5,6)] clients_ok_cong [OF I(3) s'(7)]]) (simp add: s'(7))
  with s'(1) show ?thesis by simp
qed

section \<open>Deleting the pool\<close>

lemma tp_inv_stop:
  assumes "tp_inv s [] [] own"
  shows "tp_inv (snd (delete_loop s)) [] [] own"
  using assms by (auto simp: tp_inv_def delete_loop_def)

lemma delete_loop_simps [simp]:
  "tps (snd (delete_loop s)) = tps s" "ttasks (snd (delete_loop s)) = ttasks s" "workers (snd (delete_loop s)) = workers s"
  "is_active (snd (delete_loop s)) = is_active s" "max_threads_cnt (snd (delete_loop s)) = max_threads_cnt s"
  "threads_cnt (snd (delete_loop s)) = threads_cnt s"
  "deleter (snd (delete_loop s)) = (if threads_cnt s \<noteq> 0 then DeleteWaits else PoolFreed)"
  "fst (delete_loop s) = (if threads_cnt s \<noteq> 0 then None else Some TpOk)"
  by (simp_all add: delete_loop_def)

lemma no_pushes: "tp_inv s pend rest own \<Longrightarrow> tps s = Map.empty \<longleftrightarrow> pend = [] \<and> rest = []"
  using tp_invD(3) [of s pend rest own] by (auto simp flip: dom_eq_empty_conv)

lemma delete_begin_ok:
  assumes inv: "tp_inv s pend rest own" and del: "deleter s \<noteq> PoolFreed"
  shows "pool_delete_begin s = ret (if tps s = Map.empty then delete_loop (broadcast_work (s\<lparr>is_active := False\<rparr>)) else (Some HAS_TASKS, s))"
    and "tps s = Map.empty \<Longrightarrow> tp_inv (broadcast_work (s\<lparr>is_active := False\<rparr>)) [] [] own"
proof -
  have "tasks_cnt s > 0 \<longleftrightarrow> tps s \<noteq> Map.empty"
    using tp_invD(10) [OF inv] no_pushes [OF inv] by (cases pend; cases rest) auto
  with del show "pool_delete_begin s = ret (if tps s = Map.empty then delete_loop (broadcast_work (s\<lparr>is_active := False\<rparr>)) else (Some HAS_TASKS, s))"
    by (simp add: pool_delete_begin_def pool_lock_def)
  assume "tps s = Map.empty"
  then have "tp_inv (s\<lparr>is_active := False\<rparr>) [] [] own" using inv no_pushes [OF inv] by (simp add: tp_inv_def)
  then show "tp_inv (broadcast_work (s\<lparr>is_active := False\<rparr>)) [] [] own" by (rule broadcast_inv)
qed

text \<open>After the caller's section of the deletion.\<close>

lemma stopped_ok:
  assumes "tp_inv s [] [] own" "\<not> is_active s" "Waiting \<notin> set (workers s)"
  shows "tp_inv (snd (delete_loop s)) [] [] own" "sched_ok (snd (delete_loop s)) []"
  using tp_inv_stop [OF assms(1)] assms(2,3) no_pushes [OF assms(1)] by (auto simp: sched_ok_def)

lemma clients_ok_empty: "clients_ok s W \<Longrightarrow> tps s = Map.empty \<Longrightarrow> W = {#}"
  by (cases W) (auto simp: clients_ok_def)

lemma delete_pool_step:
  assumes c: "conf_inv n (s, W)" and del: "deleter s = NotDeleting"
  shows "\<exists>c'. tp_do DeletePool (s, W) = ret c' \<and> conf_inv n c'"
proof -
  obtain pend rest own where I: "tp_inv s pend rest own" "sched_ok s pend" "clients_ok s W" "max_threads_cnt s = n"
    using conf_invE [OF c] by metis
  have "deleter s \<noteq> PoolFreed" using del by simp
  note B = delete_begin_ok [OF I(1) this]
  show ?thesis
  proof (cases "tps s = Map.empty")
    case True
    let ?s = "broadcast_work (s\<lparr>is_active := False\<rparr>)"
    have "Waiting \<notin> set (workers ?s)" by (auto dest: sym [of _ "wake _"])
    from stopped_ok [OF B(2) [OF True] _ this] have "conf_inv n (snd (delete_loop ?s), W)"
      by (intro conf_invI clients_ok_cong [OF I(3)]) (simp_all add: I(4))
    with B(1) True show ?thesis by simp
  next
    case False
    with B(1) c show ?thesis by simp
  qed
qed

text \<open>The caller wakes up: the steps of the deletion have become fewer.\<close>

lemma wake_deleter_ok:
  assumes inv: "tp_inv s pend rest own" and so: "sched_ok s pend" and del: "deleter s = DeleteWoken"
  shows "\<exists>s'. pool_delete_end s = ret (if threads_cnt s \<noteq> 0 then None else Some TpOk, s') \<and> tp_inv s' [] [] own \<and> sched_ok s' []
    \<and> steps_left s' [] < steps_left s pend \<and> \<not> is_active s' \<and> tps s' = tps s \<and> ttasks s' = ttasks s
    \<and> max_threads_cnt s' = max_threads_cnt s"
proof -
  have e: "tps s = Map.empty" "\<not> is_active s" "Waiting \<notin> set (workers s)" using so del by (auto simp: sched_ok_def)
  then have p: "pend = []" "rest = []" using no_pushes [OF inv] by blast+
  have "steps_left (snd (delete_loop s)) [] < steps_left s pend" using del by (simp add: steps_left_def p)
  with stopped_ok [OF inv [unfolded p] e(2,3)] del e(2) show ?thesis
    by (intro exI [of _ "snd (delete_loop s)"])
      (simp add: pool_delete_end_def pool_lock_def prod_eq_iff)
qed

lemma wake_deleter_step:
  assumes c: "conf_inv n (s, W)" and del: "deleter s = DeleteWoken"
  shows "\<exists>c'. tp_do WakeDeleter (s, W) = ret c' \<and> conf_inv n c'"
proof -
  obtain pend rest own where I: "tp_inv s pend rest own" "sched_ok s pend" "clients_ok s W" "max_threads_cnt s = n"
    using conf_invE [OF c] by metis
  from wake_deleter_ok [OF I(1,2) del] obtain r s' where
    s': "pool_delete_end s = ret (r, s')" "tp_inv s' [] [] own" "sched_ok s' []" "tps s' = tps s"
      "max_threads_cnt s' = max_threads_cnt s" by blast
  have "conf_inv n (s', W)"
    by (rule conf_invI [OF s'(2,3) clients_ok_cong [OF I(3) s'(4)]]) (simp add: I(4) s'(5))
  with s'(1) show ?thesis by simp
qed

section \<open>Spurious wake-ups\<close>

lemma spurious_step:
  assumes c: "conf_inv n (s, W)"
  shows "i < length (workers s) \<Longrightarrow> workers s ! i = Waiting \<Longrightarrow> \<exists>c'. tp_do (SpuriousWork i) (s, W) = ret c' \<and> conf_inv n c'"
    and "deleter s = DeleteWaits \<Longrightarrow> \<exists>c'. tp_do SpuriousDeleter (s, W) = ret c' \<and> conf_inv n c'"
proof -
  obtain pend rest own where I: "tp_inv s pend rest own" "sched_ok s pend" "clients_ok s W" "max_threads_cnt s = n"
    using conf_invE [OF c] by metis
  show "\<exists>c'. tp_do (SpuriousWork i) (s, W) = ret c' \<and> conf_inv n c'"
    if i: "i < length (workers s)" and w: "workers s ! i = Waiting"
  proof -
    let ?s = "s\<lparr>workers := (workers s)[i := AtTop]\<rparr>"
    have "workers_inv (tps s) (ttasks s) ((workers s)[i := AtTop])"
      by (rule workers_inv_quiet [OF tp_invD(8) [OF I(1)] i]) (simp_all add: w)
    moreover have "busy ((workers s)[i := AtTop]) = busy (workers s)"
      using busy_upd [OF i, of AtTop] w by simp
    moreover have "alive ((workers s)[i := AtTop]) = alive (workers s)"
      using alive_upd [OF i, of AtTop] w by simp
    ultimately have "tp_inv ?s pend rest own" using I(1) unfolding tp_inv_def by simp
    moreover have "sched_ok ?s pend" by (rule sched_ok_upd [OF I(2), where i = i and w = AtTop]) (use i in simp_all)
    ultimately have "conf_inv n (?s, W)" by (intro conf_invI clients_ok_cong [OF I(3)]) (simp_all add: I(4))
    with w show ?thesis by simp
  qed
  show "\<exists>c'. tp_do SpuriousDeleter (s, W) = ret c' \<and> conf_inv n c'" if d: "deleter s = DeleteWaits"
  proof -
    have "tp_inv (signal_finish s) pend rest own" using I(1) by (auto simp: tp_inv_def signal_finish_def)
    moreover have "sched_ok (signal_finish s) pend" using I(2) d by (auto simp: sched_ok_def signal_finish_def)
    ultimately have "conf_inv n (signal_finish s, W)"
      by (intro conf_invI clients_ok_cong [OF I(3)]) (simp_all add: I(4) signal_finish_def)
    then show ?thesis by simp
  qed
qed

section \<open>Reachable configurations\<close>

text \<open>Every allowed step is possible and keeps the invariant.\<close>

lemma tp_step_ok:
  assumes c: "conf_inv n (s, W)" and ok: "tp_allowed oper (s, W)"
  shows "\<exists>c'. tp_do oper (s, W) = ret c' \<and> conf_inv n c'"
proof (cases oper)
  case NewTask
  then show ?thesis using new_task_step [OF c] by simp
next
  case PushTask
  then show ?thesis using push_step [OF c] ok by simp
next
  case Work
  then show ?thesis using work_step [OF c] ok by simp
next
  case Join
  then show ?thesis using join_step(1) [OF c] ok by simp
next
  case TimedJoin
  then show ?thesis using join_step(2) [OF c] ok by simp
next
  case JoinLock
  then show ?thesis using lock_step(1) [OF c] ok by simp
next
  case TimedJoinLock
  then show ?thesis using lock_step(2) [OF c] ok by simp
next
  case Wake
  then show ?thesis using wake_step(1) [OF c] ok by simp
next
  case (TimedWake p b)
  then show ?thesis using wake_step(2) [OF c, of b p] ok by simp
next
  case DeleteTask
  then show ?thesis using delete_step [OF c] ok by simp
next
  case DetachTask
  then show ?thesis using detach_step [OF c] ok by simp
next
  case DeletePool
  then show ?thesis using delete_pool_step [OF c] ok by simp
next
  case WakeDeleter
  then show ?thesis using wake_deleter_step [OF c] ok by simp
next
  case SpuriousWork
  then show ?thesis using spurious_step(1) [OF c] ok by simp
next
  case SpuriousJoin
  then show ?thesis using wake_step(3) [OF c] ok by simp
next
  case SpuriousDeleter
  then show ?thesis using spurious_step(2) [OF c] ok by simp
qed

lemma reach_inv: "tp_reach n c \<Longrightarrow> conf_inv n c"
proof (induction rule: tp_reach.induct)
  case (start n s)
  then show ?case by (rule conf_inv_start)
next
  case (step n c oper c')
  then show ?case using tp_step_ok [of n "fst c" "snd c" oper] by simp
qed

lemma reach_step: "tp_reach n c \<Longrightarrow> tp_allowed oper c \<Longrightarrow> \<exists>c'. tp_do oper c = ret c' \<and> tp_reach n c'"
  using tp_step_ok [of n "fst c" "snd c" oper] reach_inv [of n c] tp_reach.step [of n c oper] by fastforce

lemma reach_counters:
  assumes "tp_reach n (s, W)"
  shows "0 \<le> active_threads_cnt s \<and> active_threads_cnt s \<le> threads_cnt s \<and> threads_cnt s \<le> n \<and> n \<le> TPOOL_MAX_THREADS
    \<and> tasks_cnt s = int (card (dom (tps s))) \<and> tasks_cnt s \<le> TPOOL_MAX_TASKS"
proof -
  obtain pend rest own where I: "tp_inv s pend rest own" "max_threads_cnt s = n"
    using conf_invE [OF reach_inv [OF assms]] by metis
  note D = tp_invD [OF I(1)]
  have "card (dom (tps s)) = length (pend @ rest)"
    unfolding D(3) by (rule distinct_card [OF tp_inv_distinct [OF I(1)]])
  with D(10-16) I(2) busy_alive [of "workers s"] show ?thesis by simp
qed

lemma reach_result:
  assumes "tp_reach n (s, W)" "tps s a = Some x" "t_finished x"
  shows "\<exists>k t. thread_task x = Ptr k \<and> ttasks s k = Some t \<and> t_result x = Some (t_function t (t_arg t))
    \<and> join_end (Ptr a) s = ret (Inl (TpOk, Some (t_function t (t_arg t))))"
proof -
  obtain pend rest own where I: "tp_inv s pend rest own" using conf_invE [OF reach_inv [OF assms(1)]] by metis
  from tp_invD(6) [OF I assms(2)] assms(3) obtain k t where
    k: "thread_task x = Ptr k" "ttasks s k = Some t" "t_result x = Some (t_function t (t_arg t))" by (auto simp: push_ok_def)
  with assms(2) lock_push [OF I assms(2)] show ?thesis by (simp add: join_end_def read_result_def)
qed

section \<open>Progress\<close>

fun tp_run :: "tp_op list \<Rightarrow> conf \<Rightarrow> conf res" where
  "tp_run [] c = ret c"
| "tp_run (oper # ops) c = bindR (tp_do oper c) (tp_run ops)"

text \<open>A sequence of allowed steps from one configuration to another.\<close>

fun tp_path :: "tp_op list \<Rightarrow> conf \<Rightarrow> conf \<Rightarrow> bool" where
  "tp_path [] c c' \<longleftrightarrow> c' = c"
| "tp_path (oper # ops) c c' \<longleftrightarrow> (\<exists>c1. tp_allowed oper c \<and> tp_do oper c = ret c1 \<and> tp_path ops c1 c')"

lemma path_reach: "tp_reach n c \<Longrightarrow> tp_path ops c c' \<Longrightarrow> tp_reach n c'"
  by (induction ops arbitrary: c) (auto intro: tp_reach.step)

text \<open>The steps of the pool itself: of its workers and of the client that deletes it.\<close>

definition pool_steps :: "tp_op set" where
  "pool_steps = insert WakeDeleter (range Work)"

text \<open>A client that waits alone for a push is not left behind, and the clients on a push stay.\<close>

definition waits_alone :: "ptr \<Rightarrow> conf \<Rightarrow> bool" where
  "waits_alone p c \<longleftrightarrow> count (snd c) (Waits p) \<le> 1 \<and> (finished_at (fst c) p \<longrightarrow> Waits p \<notin># snd c)"

definition waiters :: "ptr \<Rightarrow> client multiset \<Rightarrow> nat" where
  "waiters p W = count W (Waits p) + count W (Woken p)"

lemma waiters_signal [simp]: "waiters p (signal_end q W) = waiters p W"
  by (auto simp: waiters_def signal_end_def)

lemma signal_alone: "count W (Waits p) \<le> 1 \<Longrightarrow> Waits p \<notin># signal_end p W"
  by (auto simp: signal_end_def not_in_iff)

lemma signal_other: "count (signal_end q W) (Waits p) \<le> count W (Waits p)"
  by (auto simp: signal_end_def)

lemma waits_alone_work:
  assumes "waits_alone p (s, W)" "worked i s s'"
  shows "waits_alone p (s', after_work (workers s ! i) W)"
proof -
  have c: "count (after_work w W) (Waits p) \<le> count W (Waits p)" for w
    using signal_other by (cases w) (auto simp: after_work_def)
  have "Waits p \<notin># after_work (workers s ! i) W" if "finished_at s' p"
  proof -
    from that assms(2) consider "finished_at s p" | "workers s ! i = Executed p" by (auto simp: worked_def)
    then show ?thesis
    proof cases
      case 1
      then have "count W (Waits p) = 0" using assms(1) by (simp add: waits_alone_def not_in_iff)
      with c [of "workers s ! i"] show ?thesis by (simp add: not_in_iff)
    next
      case 2
      with assms(1) show ?thesis by (simp add: after_work_def waits_alone_def signal_alone)
    qed
  qed
  with c [of "workers s ! i"] assms(1) show ?thesis by (auto simp: waits_alone_def intro: order_trans)
qed

text \<open>Every step of the pool itself brings the end nearer.\<close>

lemma pool_step_ok:
  assumes inv: "tp_inv s pend rest own" and so: "sched_ok s pend" and oper: "oper \<in> pool_steps"
    and ok: "tp_allowed oper (s, W)" and run: "tp_do oper (s, W) = ret (s', W')"
  shows "\<exists>pend' rest'. tp_inv s' pend' rest' own \<and> sched_ok s' pend' \<and> steps_left s' pend' < steps_left s pend
    \<and> dom (tps s') = dom (tps s) \<and> ttasks s' = ttasks s \<and> is_active s' = is_active s
    \<and> (waits_alone p (s, W) \<longrightarrow> waits_alone p (s', W')) \<and> waiters p W' = waiters p W"
proof (cases "oper = WakeDeleter")
  case True
  with ok have "deleter s = DeleteWoken" by simp
  note w = wake_deleter_ok [OF inv so this]
  from run True obtain r where "pool_delete_end s = ret (r, s')" "W' = W" by (auto simp: bindR_eq_ret)
  moreover have "\<not> is_active s" using so \<open>deleter s = DeleteWoken\<close> by (simp add: sched_ok_def)
  ultimately show ?thesis using w
    by (intro exI [of _ "[]"]) (auto simp: waits_alone_def finished_at_def)
next
  case False
  with oper obtain i where i: "oper = Work i" by (auto simp: pool_steps_def)
  with ok have "i < length (workers s)" "workers s ! i \<notin> {Waiting, Exited}" by simp_all
  from do_work_ok [OF inv so this] obtain s1 pend' rest' where
    s1: "do_work i s = ret s1" "tp_inv s1 pend' rest' own" "sched_ok s1 pend'" "worked i s s1" "steps_left s1 pend' < steps_left s pend"
    by blast
  with run i have e: "s' = s1" "W' = after_work (workers s ! i) W" by simp_all
  have "waiters p W' = waiters p W" unfolding e by (simp add: after_work_def split: worker.split)
  with s1 e waits_alone_work [of p s W i s1] show ?thesis by (auto simp: worked_def)
qed

lemma pool_path_ok:
  assumes "tp_inv s pend rest own" "sched_ok s pend" "set ops \<subseteq> pool_steps" "tp_path ops (s, W) (s', W')"
  shows "\<exists>pend' rest'. tp_inv s' pend' rest' own \<and> sched_ok s' pend' \<and> length ops + steps_left s' pend' \<le> steps_left s pend
    \<and> dom (tps s') = dom (tps s) \<and> ttasks s' = ttasks s \<and> is_active s' = is_active s
    \<and> (waits_alone p (s, W) \<longrightarrow> waits_alone p (s', W')) \<and> waiters p W' = waiters p W"
  using assms
proof (induction ops arbitrary: s W pend rest)
  case Nil
  then show ?case by auto
next
  case (Cons oper ops)
  from Cons.prems(4) obtain s1 W1 where
    1: "tp_allowed oper (s, W)" "tp_do oper (s, W) = ret (s1, W1)" "tp_path ops (s1, W1) (s', W')" by auto
  have "oper \<in> pool_steps" "set ops \<subseteq> pool_steps" using Cons.prems(3) by simp_all
  from pool_step_ok [OF Cons.prems(1,2) this(1) 1(1,2), of p] obtain pend1 rest1 where
    s1: "tp_inv s1 pend1 rest1 own" "sched_ok s1 pend1" "steps_left s1 pend1 < steps_left s pend" "dom (tps s1) = dom (tps s)"
      "ttasks s1 = ttasks s" "is_active s1 = is_active s" "waits_alone p (s, W) \<longrightarrow> waits_alone p (s1, W1)"
      "waiters p W1 = waiters p W" by blast
  from Cons.IH [OF s1(1,2) \<open>set ops \<subseteq> pool_steps\<close> 1(3)] obtain pend' rest' where
    s': "tp_inv s' pend' rest' own" "sched_ok s' pend'" "length ops + steps_left s' pend' \<le> steps_left s1 pend1"
      "dom (tps s') = dom (tps s1)" "ttasks s' = ttasks s1" "is_active s' = is_active s1"
      "waits_alone p (s1, W1) \<longrightarrow> waits_alone p (s', W')" "waiters p W' = waiters p W1" by blast
  with s1 show ?case by (intro exI [of _ pend'] exI [of _ rest']) simp
qed

lemma busy_mem: "p \<in># busy ws \<Longrightarrow> \<exists>w \<in> set ws. p \<in># worker_task w"
  by (induction ws) auto

text \<open>As long as a push waits or runs, some worker can take a step.\<close>

lemma someone_works:
  assumes inv: "tp_inv s pend rest own" and so: "sched_ok s pend" and act: "is_active s"
    and todo: "tps s a = Some x" "\<not> t_finished x"
  shows "\<exists>i. tp_allowed (Work i) (s, W)"
proof -
  have "\<exists>w \<in> set (workers s). w \<notin> {Waiting, Exited}"
  proof (cases pend)
    case (Cons b pend')
    then have "workers s \<noteq> []" "Waiting \<notin> set (workers s)" "Exited \<notin> set (workers s)" using so act by (auto simp: sched_ok_def)
    then show ?thesis by (cases "workers s") auto
  next
    case Nil
    have "a \<in> set rest" using todo tp_invD(3) [OF inv] Nil by auto
    with tp_invD(5) [OF inv, of a] todo have "t_running x" by (auto simp: is_idle_def)
    then have "running_at (tps s) (Ptr a)" using todo by (simp add: running_at_def)
    then have "Ptr a \<in># busy (workers s)"
      using tp_invD(8) [OF inv] unfolding workers_inv_def by (metis count_greater_zero_iff zero_less_one)
    then obtain w where w: "w \<in> set (workers s)" "Ptr a \<in># worker_task w" using busy_mem by blast
    then have "w \<notin> {Waiting, Exited}" by auto
    with w(1) show ?thesis by blast
  qed
  then show ?thesis by (auto simp: in_set_conv_nth)
qed

lemma steps_bound: "sum_list (map worker_steps ws) \<le> 4 * alive ws"
proof (induction ws)
  case (Cons w ws)
  then show ?case by (cases w) auto
qed simp

text \<open>
  In an active pool the workers, left alone, take a bounded number of steps; when none of them can take
  another one, every push has finished, and who waited alone for one has been woken.
\<close>

lemma reach_progress:
  assumes r: "tp_reach n (s, W)" and act: "is_active s" and ops: "set ops \<subseteq> range Work" and path: "tp_path ops (s, W) (s', W')"
  shows "int (length ops) \<le> 4 * (tasks_cnt s + threads_cnt s) \<and> tp_reach n (s', W')
    \<and> dom (tps s') = dom (tps s) \<and> ttasks s' = ttasks s
    \<and> ((\<forall>i. \<not> tp_allowed (Work i) (s', W')) \<longrightarrow> (\<forall>a x. tps s' a = Some x \<longrightarrow> t_finished x)
      \<and> (\<forall>p. count W (Waits p) = 1 \<longrightarrow> \<not> finished_at s p \<longrightarrow> Waits p \<notin># W' \<and> Woken p \<in># W'))"
proof -
  obtain pend rest own where I: "tp_inv s pend rest own" "sched_ok s pend" "clients_ok s W"
    using conf_invE [OF reach_inv [OF r]] by metis
  have ops': "set ops \<subseteq> pool_steps" using ops by (auto simp: pool_steps_def)
  note P = pool_path_ok [OF I(1,2) ops' path]
  from P obtain pend' rest' where P1: "tp_inv s' pend' rest' own" "sched_ok s' pend'"
    "length ops + steps_left s' pend' \<le> steps_left s pend" "dom (tps s') = dom (tps s)" "ttasks s' = ttasks s"
    "is_active s' = is_active s" by blast
  have "deleter s = NotDeleting" using I(2) act by (simp add: sched_ok_def)
  then have "steps_left s pend \<le> 4 * length pend + 4 * alive (workers s)"
    using steps_bound [of "workers s"] by (simp add: steps_left_def)
  then have bound: "int (length ops) \<le> 4 * (tasks_cnt s + threads_cnt s)"
    using P1(3) tp_invD(10,13) [OF I(1)] by simp
  have "(\<forall>a x. tps s' a = Some x \<longrightarrow> t_finished x)
      \<and> (\<forall>p. count W (Waits p) = 1 \<longrightarrow> \<not> finished_at s p \<longrightarrow> Waits p \<notin># W' \<and> Woken p \<in># W')"
    if quiet: "\<forall>i. \<not> tp_allowed (Work i) (s', W')"
  proof
    have act': "is_active s'" using P1(6) act by simp
    have "\<exists>i. tp_allowed (Work i) (s', W')" if "tps s' a = Some x" "\<not> t_finished x" for a x
      by (rule someone_works [OF P1(1,2) act' that])
    with quiet show fin: "\<forall>a x. tps s' a = Some x \<longrightarrow> t_finished x" by metis
    show "\<forall>p. count W (Waits p) = 1 \<longrightarrow> \<not> finished_at s p \<longrightarrow> Waits p \<notin># W' \<and> Woken p \<in># W'"
    proof (intro allI impI)
      fix p assume one: "count W (Waits p) = 1" and nf: "\<not> finished_at s p"
      from one have "Waits p \<in># W" by (simp flip: count_greater_zero_iff)
      from client_on_push [OF I(3) this] obtain a x where x: "p = Ptr a" "tps s a = Some x" by auto
      then obtain y where "tps s' a = Some y" using P1(4) by blast
      with fin x(1) have "finished_at s' p" by (auto simp: finished_at_def)
      moreover have "waits_alone p (s, W)" using one nf by (simp add: waits_alone_def)
      then have "waits_alone p (s', W')" "waiters p W' = waiters p W" using P [of p] by blast+
      ultimately have w: "Waits p \<notin># W'" "waiters p W' \<ge> 1" using one by (simp_all add: waits_alone_def waiters_def)
      then have "0 < count W' (Woken p)" by (simp add: waiters_def not_in_iff)
      with w(1) show "Waits p \<notin># W' \<and> Woken p \<in># W'" by simp
    qed
  qed
  with bound P1(4,5) path_reach [OF r path] show ?thesis by blast
qed

section \<open>The end of the pool\<close>

lemma no_busy_steps:
  assumes "\<forall>w \<in> set ws. worker_task w = {#}"
  shows "sum_list (map worker_steps ws) \<le> 2 * alive ws"
  using assms
proof (induction ws)
  case (Cons w ws)
  then show ?case by (cases w) auto
qed simp

lemma idle_workers:
  assumes inv: "tp_inv s pend rest own" and e: "tps s = Map.empty" and w: "w \<in> set (workers s)"
  shows "worker_task w = {#}"
proof -
  obtain i where "i < length (workers s)" "workers s ! i = w" using w by (auto simp: in_set_conv_nth)
  with worker_busy [OF inv, of i] e show ?thesis by (cases w) auto
qed

text \<open>While the deletion has not ended, some thread can take a step.\<close>

lemma deletion_goes_on:
  assumes inv: "tp_inv s pend rest own" and so: "sched_ok s pend" and del: "\<not> is_active s" "deleter s \<noteq> PoolFreed"
  shows "\<exists>oper \<in> pool_steps. tp_allowed oper (s, W)"
proof (cases "deleter s")
  case DeleteWaits
  then have "alive (workers s) \<noteq> 0" "tps s = Map.empty" "Waiting \<notin> set (workers s)"
    using so tp_invD(13) [OF inv] by (auto simp: sched_ok_def)
  then obtain w where "w \<in> set (workers s)" "w \<notin> {Waiting, Exited}" by (auto simp: alive_def filter_empty_conv)
  then obtain i where "tp_allowed (Work i) (s, W)" by (auto simp: in_set_conv_nth)
  then show ?thesis by (auto simp: pool_steps_def)
qed (use so del in \<open>auto simp: sched_ok_def pool_steps_def\<close>)

lemma reach_delete:
  assumes r: "tp_reach n (s, W)" and del: "deleter s = NotDeleting" and e: "tps s = Map.empty"
  shows "\<exists>s1. pool_delete_begin s = ret (if threads_cnt s \<noteq> 0 then None else Some TpOk, s1)
    \<and> (\<forall>ops s' W'. set ops \<subseteq> pool_steps \<longrightarrow> tp_path ops (s1, W) (s', W') \<longrightarrow>
        int (length ops) \<le> 2 * threads_cnt s
        \<and> ((\<forall>oper \<in> pool_steps. \<not> tp_allowed oper (s', W')) \<longrightarrow> deleter s' = PoolFreed \<and> threads_cnt s' = 0))"
proof -
  obtain pend rest own where I: "tp_inv s pend rest own" using conf_invE [OF reach_inv [OF r]] by metis
  have "deleter s \<noteq> PoolFreed" using del by simp
  note B = delete_begin_ok [OF I this]
  let ?s = "broadcast_work (s\<lparr>is_active := False\<rparr>)"
  let ?s1 = "snd (delete_loop ?s)"
  have nw: "Waiting \<notin> set (workers ?s)" by (auto dest: sym [of _ "wake _"])
  have S: "tp_inv ?s1 [] [] own" "sched_ok ?s1 []" using stopped_ok [OF B(2) [OF e] _ nw] by simp_all
  have "\<forall>w \<in> set (workers ?s1). worker_task w = {#}" using idle_workers [OF S(1)] e by simp
  from no_busy_steps [OF this] have sl: "steps_left ?s1 [] \<le> 2 * alive (workers s)"
    by (simp add: steps_left_def)
  have end_ok: "int (length ops) \<le> 2 * threads_cnt s
        \<and> ((\<forall>oper \<in> pool_steps. \<not> tp_allowed oper (s', W')) \<longrightarrow> deleter s' = PoolFreed \<and> threads_cnt s' = 0)"
    if ops: "set ops \<subseteq> pool_steps" and path: "tp_path ops (?s1, W) (s', W')" for ops s' W'
  proof -
    from pool_path_ok [OF S ops path] obtain pend' rest' where
      P: "tp_inv s' pend' rest' own" "sched_ok s' pend'" "length ops + steps_left s' pend' \<le> steps_left ?s1 []"
        "is_active s' = is_active ?s1" by blast
    have "deleter s' = PoolFreed" if "\<forall>oper \<in> pool_steps. \<not> tp_allowed oper (s', W')"
      using deletion_goes_on [OF P(1,2), of W'] P(4) that by auto
    moreover have "deleter s' = PoolFreed \<Longrightarrow> threads_cnt s' = 0" using tp_invD(13,17) [OF P(1)] by simp
    ultimately show ?thesis using P(3) sl tp_invD(13) [OF I] by auto
  qed
  have "pool_delete_begin s = ret (if threads_cnt s \<noteq> 0 then None else Some TpOk, ?s1)"
    using B(1) e by (simp add: prod_eq_iff)
  with end_ok show ?thesis by blast
qed

lemma reach_has_tasks:
  assumes "tp_reach n (s, W)" "deleter s = NotDeleting" "tps s \<noteq> Map.empty"
  shows "pool_delete_begin s = ret (Some HAS_TASKS, s)"
proof -
  obtain pend rest own where I: "tp_inv s pend rest own" using conf_invE [OF reach_inv [OF assms(1)]] by metis
  from delete_begin_ok(1) [OF I] assms(2,3) show ?thesis by simp
qed

section \<open>Order of the work, deletion of tasks\<close>

text \<open>The push that was made last is the one that is taken first.\<close>

lemma newest_first:
  assumes "tp_reach n (s, W)" "is_active s" "thread_pool_push_task (Ptr k) s = ret (TpOk, s1)" "ttasks s k \<noteq> None"
    "i < length (workers s1)" "ready (workers s1 ! i)"
  shows "\<exists>a s2. worker_take i s1 = ret s2 \<and> workers s2 = (workers s1)[i := Executing (Ptr a)]
    \<and> tps s a = None \<and> map_option thread_task (tps s2 a) = Some (Ptr k)"
proof -
  obtain pend rest own where I: "tp_inv s pend rest own" "sched_ok s pend" using conf_invE [OF reach_inv [OF assms(1)]] by metis
  obtain t where t: "ttasks s k = Some t" using assms(4) by blast
  have pool: "deleter s \<noteq> PoolFreed" using I(2) assms(2) by (simp add: sched_ok_def)
  have cnt: "tasks_cnt s \<noteq> TPOOL_MAX_TASKS" using assms(3) thread_pool_push_full [OF pool, of "Ptr k"] by auto
  let ?a = "next_addr s"
  note P = thread_pool_push_ok [OF I(1) pool t cnt]
  have s1: "s1 = broadcast_work (pushed k (start_thread s))" using P(1) assms(3) by simp
  note I1 = P(2) [folded s1]
  have act: "is_active s1" unfolding s1 by (simp add: pushed_def Let_def assms(2))
  from worker_take_run [OF I1 act assms(5,6)] obtain h p where
    h: "worker_take i s1 = ret (s1\<lparr>active_threads_cnt := active_threads_cnt s1 + 1, tps := h, p_task := p,
        last_task := Ptr ?a, workers := (workers s1)[i := Executing (Ptr ?a)]\<rparr>)"
      "same_tasks ((tps s1)(?a \<mapsto> (the (tps s1 ?a))\<lparr>t_running := True\<rparr>)) h" by blast
  have "(Suc ?a, ?a) \<in> set ((own(k := (Suc ?a, ?a) # own k)) k)" by simp
  from own_invD(4) [OF tp_invD(7) [OF I1] this] obtain x where x: "tps s1 ?a = Some x" "thread_task x = Ptr k" by blast
  with same_tasks_Some [OF h(2), of ?a] have "map_option thread_task (h ?a) = Some (Ptr k)" by auto
  moreover have "tps s ?a = None" using tp_invD(9) [OF I(1), of ?a] by simp
  ultimately show ?thesis using h(1) by (intro exI [of _ ?a]) simp
qed

text \<open>A thread is created when all are busy and the limit is not reached.\<close>

lemma push_threads:
  assumes "tp_reach n (s, W)" "ttasks s k \<noteq> None" "tasks_cnt s < TPOOL_MAX_TASKS" "is_active s"
  shows "\<exists>s'. thread_pool_push_task (Ptr k) s = ret (TpOk, s') \<and> tasks_cnt s' = tasks_cnt s + 1
    \<and> threads_cnt s' = (if active_threads_cnt s = threads_cnt s \<and> threads_cnt s < n then threads_cnt s + 1 else threads_cnt s)
    \<and> thread_task_is_finished s' (Ptr k) = ret False \<and> 0 < threads_cnt s'"
proof -
  obtain pend rest own where I: "tp_inv s pend rest own" "max_threads_cnt s = n" "sched_ok s pend"
    using conf_invE [OF reach_inv [OF assms(1)]] by metis
  have pool: "deleter s \<noteq> PoolFreed" using I(3) assms(4) by (simp add: sched_ok_def)
  obtain t where t: "ttasks s k = Some t" using assms(2) by blast
  have cnt: "tasks_cnt s \<noteq> TPOOL_MAX_TASKS" using assms(3) by simp
  note P = thread_pool_push_ok [OF I(1) pool t cnt]
  let ?s = "broadcast_work (pushed k (start_thread s))" and ?a = "next_addr s"
  obtain t' where t': "ttasks ?s k = Some t'" using t by (simp add: pushed_def Let_def)
  have "?a \<in> set (?a # pend)" by simp
  from tp_invD(4) [OF P(2) this] have "\<not> t_finished (the (tps ?s ?a))" by (simp add: is_idle_def)
  then have "thread_task_is_finished ?s (Ptr k) = ret False"
    using thread_task_is_finished_ok [OF P(2) t'] by auto
  moreover have "threads_cnt ?s = (if active_threads_cnt s = threads_cnt s \<and> threads_cnt s < n then threads_cnt s + 1 else threads_cnt s)"
    "tasks_cnt ?s = tasks_cnt s + 1" using I(2) by (simp_all add: pushed_def start_thread_def Let_def)
  moreover have "0 < threads_cnt ?s"
    using tp_invD(12-15) [OF I(1)] busy_alive [of "workers s"] by (auto simp: pushed_def start_thread_def Let_def)
  ultimately show ?thesis using P(1) by blast
qed

text \<open>Deleting a task removes its pushes and nothing else, or is refused and changes nothing.\<close>

lemma delete_exact:
  assumes "tp_reach n (s, W)" "ttasks s k \<noteq> None" "released (s, W) k"
  shows "\<exists>code s'. thread_task_delete (Ptr k) s = ret (code, s')
    \<and> (if \<forall>a x. tps s a = Some x \<longrightarrow> thread_task x = Ptr k \<longrightarrow> droppable x
       then code = TpOk \<and> ttasks s' = (ttasks s)(k := None)
         \<and> (\<forall>a. map_option core (tps s' a) = map_option core (if map_option thread_task (tps s a) = Some (Ptr k) then None else tps s a))
       else code = TASK_IN_POOL \<and> s' = s)"
proof -
  obtain pend rest own where I: "tp_inv s pend rest own" using conf_invE [OF reach_inv [OF assms(1)]] by metis
  obtain t where t: "ttasks s k = Some t" using assms(2) by blast
  have own: "map_option thread_task (tps s a) = Some (Ptr k) \<longleftrightarrow> a \<in> pushes own k" for a
  proof
    assume "map_option thread_task (tps s a) = Some (Ptr k)"
    then obtain x where "tps s a = Some x" "thread_task x = Ptr k" by auto
    from own_invD(6) [OF tp_invD(7) [OF I] this] show "a \<in> pushes own k" by force
  next
    assume "a \<in> pushes own k"
    with pushes_alloc [OF I this] show "map_option thread_task (tps s a) = Some (Ptr k)" by auto
  qed
  have all: "(\<forall>a x. tps s a = Some x \<longrightarrow> thread_task x = Ptr k \<longrightarrow> droppable x) \<longleftrightarrow> (\<forall>a \<in> pushes own k. droppable (the (tps s a)))"
  proof (intro iffI ballI allI impI)
    fix a assume L: "\<forall>a x. tps s a = Some x \<longrightarrow> thread_task x = Ptr k \<longrightarrow> droppable x" and "a \<in> pushes own k"
    from pushes_alloc [OF I this(2)] obtain x where "tps s a = Some x" "thread_task x = Ptr k" by blast
    with L show "droppable (the (tps s a))" by simp
  next
    fix a x assume R: "\<forall>a \<in> pushes own k. droppable (the (tps s a))" and x: "tps s a = Some x" "thread_task x = Ptr k"
    then have "a \<in> pushes own k" using own [of a] by simp
    with R x(1) show "droppable x" by force
  qed
  show ?thesis
  proof (cases "\<forall>a \<in> pushes own k. droppable (the (tps s a))")
    case True
    show ?thesis
    proof (cases "own k = []")
      case e: True
      then have "map_option thread_task (tps s a) \<noteq> Some (Ptr k)" for a using own [of a] by simp
      with delete_unpushed(2) [OF I t e] show ?thesis unfolding all if_P [OF True] by (intro exI conjI) auto
    next
      case False
      from True have "\<forall>a \<in> pushes own k. droppable (the (tps s a)) \<and> t_finished (the (tps s a))"
        using released_pushes(3) [OF I assms(3)] by blast
      from delete_pushed [OF I t False this] obtain s' where
        "thread_task_delete (Ptr k) s = ret (TpOk, s')" "ttasks s' = (ttasks s)(k := None)"
        "same_tasks (drop_addrs (map snd (own k)) (tps s)) (tps s')" by blast
      with True show ?thesis unfolding all own by (simp add: same_tasks_def)
    qed
  next
    case False
    then have "own k \<noteq> []" by auto
    with delete_refused(2) [OF I t this] False show ?thesis
      unfolding all if_not_P [OF False] by blast
  qed
qed

text \<open>Nothing leaks: a push and a cell belong to a task that exists.\<close>

lemma reach_fresh: "tp_reach n (s, W) \<Longrightarrow> next_addr s \<le> a \<Longrightarrow> tps s a = None \<and> ttasks s a = None"
proof -
  assume r: "tp_reach n (s, W)" and a: "next_addr s \<le> a"
  obtain pend rest own where I: "tp_inv s pend rest own" using conf_invE [OF reach_inv [OF r]] by metis
  from tp_invD(9) [OF I a] show ?thesis by blast
qed

lemma pool_no_leak:
  assumes "tp_reach n (s, W)" "ttasks s = Map.empty"
  shows "tps s = Map.empty \<and> cells s = Map.empty \<and> tasks_cnt s = 0"
proof -
  obtain pend rest own where I: "tp_inv s pend rest own" using conf_invE [OF reach_inv [OF assms(1)]] by metis
  have "own k = []" for k using own_invD(2) [OF tp_invD(7) [OF I], of k] assms(2) by simp
  then have "cells s = Map.empty"
    using own_invD(5) [OF tp_invD(7) [OF I]] by (auto simp: fun_eq_iff domIff) (metis option.exhaust list.set(1) empty_iff)
  moreover have t: "tps s = Map.empty"
    using tp_inv_push [OF I] assms(2) by (metis not_None_eq option.distinct(1))
  moreover have "tasks_cnt s = 0" using tp_invD(3,10) [OF I] t by simp
  ultimately show ?thesis by blast
qed

section \<open>Faults outside the rules\<close>

text \<open>
  A timed join that gives up leaves its push marked as joined: the task can then be deleted while a
  worker runs it, and the worker uses freed memory.
\<close>

lemma timed_join_fault:
  assumes r: "tp_reach n (s, W)" and i: "i < length (workers s)" "workers s ! i = Executing (Ptr a)"
    and k: "get_tp_task s (Ptr k) = ret (Ptr a)" and timeout: "0 < timeout"
    and others: "\<forall>b x. tps s b = Some x \<longrightarrow> thread_task x = Ptr k \<longrightarrow> b \<noteq> a \<longrightarrow> is_joined x \<and> t_finished x"
  shows "\<exists>s1 s2. join_lookup (Ptr k) s = ret (Inr (Ptr a)) \<and> timed_join_begin timeout (Ptr a) s = ret (Inr (Ptr a), s1)
    \<and> timed_join_end True (Ptr a) s1 = ret (Inl (TIMEOUT, None)) \<and> thread_task_delete (Ptr k) s1 = ret (TpOk, s2)
    \<and> worker_call i (Ptr a) s2 = fail UseAfterFree"
proof -
  obtain pend rest own where I: "tp_inv s pend rest own" using conf_invE [OF reach_inv [OF r]] by metis
  obtain x where x: "tps s a = Some x" "t_running x" "\<not> t_finished x"
    using worker_busy [OF I i(1), of "Ptr a"] i(2) by auto
  obtain t where t: "ttasks s k = Some t" using k by (cases "ttasks s k") (auto simp: get_tp_task_def)
  have lp: "last_push (own k) = Ptr a" using get_tp_task_ok [OF I t] k by simp
  note J = join_begin_ok [OF I x(1)]
  let ?s1 = "set_joined a s"
  have t1: "ttasks ?s1 k = Some t" using t by (simp add: set_joined_def)
  obtain c cs where own: "own k = (c, a) # cs" using lp by (auto simp: last_push_def split: list.splits)
  have "droppable (the (tps ?s1 b)) \<and> \<not> is_idle (the (tps ?s1 b))" if b: "b \<in> pushes own k" for b
  proof (cases "b = a")
    case True
    with x show ?thesis by (simp add: set_joined_def droppable_def is_idle_def)
  next
    case False
    from pushes_alloc [OF I b] obtain y where "tps s b = Some y" "thread_task y = Ptr k" by blast
    with others False show ?thesis by (auto simp: set_joined_def droppable_def is_idle_def)
  qed
  with delete_task_run [OF J(2) t1] own obtain h p l cl ct where
    d: "delete_task (Ptr k) ?s1 = ret (TpOk, ?s1\<lparr>tps := h, p_task := p, last_task := l, cells := cl,
        ttasks := (ttasks ?s1)(k := None), tasks_cnt := ct\<rparr>)" "same_tasks (drop_addrs (map snd (own k)) (tps ?s1)) h"
    by (metis list.distinct(1))
  let ?s2 = "?s1\<lparr>tps := h, p_task := p, last_task := l, cells := cl, ttasks := (ttasks ?s1)(k := None), tasks_cnt := ct\<rparr>"
  have x1: "tps ?s1 a = Some (x\<lparr>is_joined := True\<rparr>)" using x by (simp add: set_joined_def)
  have "thread_task_delete (Ptr k) ?s1 = ret (TpOk, ?s2)"
    using get_tp_task_ok [OF J(2) t1] lp lock_push [OF J(2) x1] d(1) by (simp add: thread_task_delete_def)
  moreover have "h a = None" by (rule same_tasks_None [OF d(2)]) (simp add: own)
  then have "worker_call i (Ptr a) ?s2 = fail UseAfterFree" by (simp add: worker_call_def)
  moreover have "join_lookup (Ptr k) s = ret (Inr (Ptr a))" using join_lookup_ok [OF I t] lp by simp
  moreover have "timed_join_begin timeout (Ptr a) s = ret (Inr (Ptr a), ?s1)"
    using timed_join_begin_ok [OF I x(1), of timeout] timeout J(1) x(3) by (simp add: join_outcome_def)
  moreover have "timed_join_end True (Ptr a) ?s1 = ret (Inl (TIMEOUT, None))"
    using lock_push [OF J(2) x1] by (simp add: timed_join_end_def)
  ultimately show ?thesis by blast
qed

definition faults :: "'a res \<Rightarrow> ub \<Rightarrow> bool" where
  "faults r e = (case r of Some (Inl e') \<Rightarrow> e' = e | _ \<Rightarrow> False)"

lemma faults_iff: "faults r e \<longleftrightarrow> r = fail e"
  by (auto simp: faults_def split: option.splits sum.splits)

fun new_conf :: "int \<Rightarrow> conf" where
  "new_conf n = (case thread_pool_new n of (_, Some s) \<Rightarrow> (s, {#}) | (_, None) \<Rightarrow> undefined)"

text \<open>A task that is detached before it has finished is freed by its worker, which then signals its condition.\<close>

lemma detach_unfinished:
  "tp_run [NewTask f 1, PushTask 0, Work 0, DetachTask 0, Work 0, Work 0] (new_conf 1) = fail UseAfterFree"
  unfolding faults_iff [symmetric] by code_simp

text \<open>A wait that ends without a signal makes the join read a result that was never stored.\<close>

lemma spurious_wakeup:
  "tp_run [NewTask f 1, PushTask 0, Join 0, JoinLock (Ptr 1), SpuriousJoin (Ptr 1), Wake (Ptr 1)] (new_conf 1) = fail UninitRead"
  unfolding faults_iff [symmetric] by code_simp

text \<open>Once the pool has been deleted, a push uses freed memory.\<close>

lemma push_after_delete: "deleter s = PoolFreed \<Longrightarrow> thread_pool_push_task task s = fail UseAfterFree"
  by (simp add: thread_pool_push_task_def pool_lock_def)

section \<open>An example\<close>

text \<open>A pool of two threads after a task was pushed twice; one push has finished.\<close>

definition example_ops :: "tp_op list" where
  "example_ops = [NewTask (\<lambda>x. x * 2) 21, PushTask 0, Work 0, Work 0, Work 0, PushTask 0]"

text \<open>Running operations with their guards checked; the deletion of a task only when no client is in a join.\<close>

fun guard :: "tp_op \<Rightarrow> conf \<Rightarrow> bool" where
  "guard (NewTask f a) c = True"
| "guard (PushTask k) (s, W) = (ttasks s k \<noteq> None \<and> deleter s = NotDeleting)"
| "guard (Work i) (s, W) = (i < length (workers s) \<and> workers s ! i \<noteq> Waiting \<and> workers s ! i \<noteq> Exited)"
| "guard (Join k) (s, W) = (ttasks s k \<noteq> None)"
| "guard (TimedJoin k timeout) (s, W) = (ttasks s k \<noteq> None)"
| "guard (JoinLock p) (s, W) = (AtLock p \<in># W)"
| "guard (Wake p) (s, W) = (Woken p \<in># W)"
| "guard (DeleteTask k) (s, W) = (ttasks s k \<noteq> None \<and> W = {#}
     \<and> list_all (\<lambda>a. case tps s a of None \<Rightarrow> True | Some x \<Rightarrow> is_joined x \<longrightarrow> t_finished x) [0..<next_addr s])"
| "guard DeletePool (s, W) = (deleter s = NotDeleting)"
| "guard WakeDeleter (s, W) = (deleter s = DeleteWoken)"
| "guard _ c = False"

lemma guard_allowed: "tp_reach n c \<Longrightarrow> guard oper c \<Longrightarrow> tp_allowed oper c"
proof (induction oper c rule: guard.induct)
  case (8 k s W)
  then have W: "W = {#}"
    and j: "\<And>a x. a < next_addr s \<Longrightarrow> tps s a = Some x \<Longrightarrow> is_joined x \<Longrightarrow> t_finished x"
    by (auto simp: list_all_iff split: option.splits)
  have "\<And>a x. tps s a = Some x \<Longrightarrow> a < next_addr s"
    using reach_fresh [OF 8(1)] by (metis not_le option.distinct(1))
  with W j 8(2) show ?case by (auto simp: released_def)
qed auto

fun guarded_run :: "tp_op list \<Rightarrow> conf \<Rightarrow> conf option" where
  "guarded_run [] c = Some c"
| "guarded_run (oper # ops) c =
     (if guard oper c then case tp_do oper c of Some (Inr c) \<Rightarrow> guarded_run ops c | _ \<Rightarrow> None else None)"

lemma guarded_run_path: "tp_reach n c \<Longrightarrow> guarded_run ops c = Some c' \<Longrightarrow> tp_path ops c c'"
proof (induction ops arbitrary: c)
  case (Cons oper ops)
  from Cons.prems(2) obtain c1 where
    c1: "guard oper c" "tp_do oper c = ret c1" "guarded_run ops c1 = Some c'"
    by (auto split: if_splits option.splits sum.splits)
  have ok: "tp_allowed oper c" by (rule guard_allowed [OF Cons.prems(1) c1(1)])
  with Cons.IH [OF tp_reach.step [OF Cons.prems(1) ok c1(2)] c1(3)] c1(2) show ?case by auto
qed simp

lemma guarded_run_reach: "tp_reach n c \<Longrightarrow> guarded_run ops c = Some c' \<Longrightarrow> tp_reach n c'"
  by (rule path_reach [OF _ guarded_run_path])

lemma guarded_run_append: "guarded_run (xs @ ys) c = Option.bind (guarded_run xs c) (guarded_run ys)"
  by (induction xs arbitrary: c) (auto split: option.splits sum.splits)

lemma new_conf_reach: "0 < n \<Longrightarrow> n \<le> TPOOL_MAX_THREADS \<Longrightarrow> tp_reach n (new_conf n)"
  using tp_reach.start [of n] by (simp add: thread_pool_new_def)

text \<open>What holds after the example, evaluated; it is reached by the rules.\<close>

definition after_example :: "tp_op list \<Rightarrow> (conf \<Rightarrow> bool) \<Rightarrow> bool" where
  "after_example ops Q = (case guarded_run ops (new_conf 2) of None \<Rightarrow> False | Some c \<Rightarrow> Q c)"

lemma after_exampleE:
  assumes "after_example ops Q"
  obtains s W where "tp_reach 2 (s, W)" "guarded_run ops (new_conf 2) = Some (s, W)" "Q (s, W)"
  using assms guarded_run_reach [OF new_conf_reach [of 2], of ops]
  by (auto simp: after_example_def TPOOL_MAX_THREADS_def split: option.splits)

lemma example_path:
  assumes "after_example ops Q" "after_example (ops @ ops') Q'"
  obtains s W s' W' where "tp_reach 2 (s, W)" "Q (s, W)" "tp_path ops' (s, W) (s', W')" "Q' (s', W')"
proof -
  obtain s W where s: "tp_reach 2 (s, W)" "guarded_run ops (new_conf 2) = Some (s, W)" "Q (s, W)"
    by (rule after_exampleE [OF assms(1)])
  obtain s' W' where s': "guarded_run (ops @ ops') (new_conf 2) = Some (s', W')" "Q' (s', W')"
    by (rule after_exampleE [OF assms(2)])
  then have "guarded_run ops' (s, W) = Some (s', W')" using s(2) by (simp add: guarded_run_append)
  from that [OF s(1,3) guarded_run_path [OF s(1) this] s'(2)] show thesis .
qed

lemma example_state: "after_example example_ops (\<lambda>(s, W). is_active s \<and> ttasks s 0 \<noteq> None \<and> length (workers s) = 1 \<and> workers s ! 0 = AtTop
    \<and> tasks_cnt s = 2 \<and> map_option t_finished (tps s 1) = Some True \<and> map_option t_result (tps s 1) = Some (Some 42))"
  by code_simp

lemma example_push: "after_example example_ops (\<lambda>(s, W). is_active s \<and> ttasks s 0 \<noteq> None \<and>
    (case thread_pool_push_task (Ptr 0) s of Some (Inr (TpOk, s1)) \<Rightarrow> 0 < length (workers s1) \<and> workers s1 ! 0 = AtTop | _ \<Rightarrow> False))"
  by code_simp

text \<open>A client joins the push that is still open; the worker then runs it and blocks.\<close>

definition example_join :: "tp_op list" where
  "example_join = example_ops @ [Join 0, JoinLock (Ptr 3)]"

lemma example_waits: "after_example example_join (\<lambda>(s, W). is_active s \<and> W = {#Waits (Ptr 3)#} \<and> tasks_cnt s = 2 \<and> threads_cnt s = 1
    \<and> map_option t_finished (tps s 3) = Some False)"
  by code_simp

lemma example_rest: "after_example (example_join @ replicate 4 (Work 0)) (\<lambda>(s, W). W = {#Woken (Ptr 3)#} \<and> workers s = [Waiting])"
  by code_simp

text \<open>The task is joined and deleted, and the pool is deleted.\<close>

definition example_done :: "tp_op list" where
  "example_done = [NewTask (\<lambda>x. x * 2) 21, PushTask 0, Join 0, JoinLock (Ptr 1), Work 0, Work 0, Work 0, Wake (Ptr 1), Work 0, DeleteTask 0]"

lemma example_deleted: "after_example example_done (\<lambda>(s, W). deleter s = NotDeleting \<and> threads_cnt s = 1 \<and> next_addr s = 3
    \<and> list_all (\<lambda>a. tps s a = None \<and> ttasks s a = None) [0..<3])"
  by code_simp

lemma example_freed: "after_example (example_done @ [DeletePool, Work 0, WakeDeleter]) (\<lambda>(s, W). deleter s = PoolFreed)"
  by code_simp

text \<open>Two clients join the same push: its end wakes one of them, the other one sleeps on.\<close>

lemma second_join_sleeps: "after_example
    [NewTask (\<lambda>x. x) 1, PushTask 0, Join 0, JoinLock (Ptr 1), Join 0, JoinLock (Ptr 1), Work 0, Work 0, Work 0, Work 0, Wake (Ptr 1)]
    (\<lambda>(s, W). W = {#Waits (Ptr 1)#} \<and> map_option t_finished (tps s 1) = Some True \<and> workers s = [Waiting])"
  by code_simp

text \<open>A worker runs the task, all other pushes of which are gone.\<close>

lemma example_running: "after_example [NewTask (\<lambda>x. x) 1, PushTask 0, Work 0]
    (\<lambda>(s, W). workers s = [Executing (Ptr 1)] \<and> get_tp_task s (Ptr 0) = ret (Ptr 1) \<and> tasks_cnt s = 1 \<and> tps s 1 \<noteq> None)"
  by code_simp

lemma example_flags: "after_example example_ops (\<lambda>(s, W). ttasks s 0 \<noteq> None \<and> W = {#} \<and> tasks_cnt s = 2
      \<and> map_option (\<lambda>x. (thread_task x, is_joined x, is_detached x)) (tps s 1) = Some (Ptr 0, False, False)
      \<and> map_option (\<lambda>x. (thread_task x, is_joined x, is_detached x)) (tps s 3) = Some (Ptr 0, False, False))"
  by code_simp

lemma example_unjoined:
  "\<exists>s W x. tp_reach 2 (s, W) \<and> ttasks s 0 \<noteq> None \<and> W = {#} \<and> tps s 1 = Some x \<and> thread_task x = Ptr 0
    \<and> \<not> droppable x \<and> (\<forall>a x. tps s a = Some x \<longrightarrow> \<not> is_joined x)"
proof -
  obtain s W where r: "tp_reach 2 (s, W)" and s: "ttasks s 0 \<noteq> None" "W = {#}" "tasks_cnt s = 2"
    "map_option (\<lambda>x. (thread_task x, is_joined x, is_detached x)) (tps s 1) = Some (Ptr 0, False, False)"
    "map_option (\<lambda>x. (thread_task x, is_joined x, is_detached x)) (tps s 3) = Some (Ptr 0, False, False)"
    by (rule after_exampleE [OF example_flags]) auto
  have "{1, 3} \<subseteq> dom (tps s)" using s(4,5) by auto
  moreover have "finite (dom (tps s))" "card (dom (tps s)) = 2"
    using reach_counters [OF r] s(3) by (simp_all add: card_ge_0_finite)
  ultimately have "dom (tps s) = {1, 3}" using card_subset_eq [of "dom (tps s)" "{1, 3}"] by simp
  then have "\<not> is_joined x" if "tps s a = Some x" for a x using that s(4,5) by (cases "a = 1") auto
  with r s(1,2,4) show ?thesis by (auto simp: droppable_def)
qed

end
