(* ===== verification/Heap_Model.thy ===== *)
theory Heap_Model
  imports Prelude
begin

text \<open>
  The heap checker of utils/heap_help/heap_help.c: the wrappers of the allocation functions, the
  table of live allocations, the static allocator that serves requests before the C library's
  functions are known, and the report at exit. Here one thread calls them (Heap_Threads_Model
  has several); a spinlock that is taken twice by it spins forever.

  The C library is outside: what its functions return is an argument of the wrapper (\<open>res\<close>, the
  null pointer 0 for a failure), as are the addresses \<open>backtrace\<close> gives and the symbols \<open>dladdr\<close>
  finds. User memory is addressed by numbers. The requests that \<open>dlsym\<close> itself makes while the
  wrappers are initialised, the value of HHREPORT and the result of \<open>mmap\<close> for the static buffer
  are part of the state (fields \<open>os_\<close>).
\<close>

section \<open>State\<close>

definition MAX_BACKTRACE_LEN :: nat where "MAX_BACKTRACE_LEN = 64"
definition ALLOCATION_BATCH_SIZE :: nat where "ALLOCATION_BATCH_SIZE = 1024"

datatype report_mode = MODE_VERBOSE | MODE_LEAKS | MODE_QUIET

record allocation =
  al_trace :: "nat list"
  al_mem :: nat
  al_size :: size_t
  al_next :: ptr

text \<open>\<open>trace_size\<close> is the length of the trace.\<close>

record symbol =
  sym_file :: "string option"
  sym_name :: "string option"

text \<open>Where the pointers \<open>default_malloc\<close> and the others point to.\<close>

datatype which_functions = NotSet | StaticFunctions | LibraryFunctions

record heaph =
  init_lock :: bool
  is_init_done :: bool
  is_exit_done :: bool
  init_lock_count :: int
  depth :: int
  report_mode :: report_mode
  static_size :: nat
  static_used :: nat
  static_buf :: nat
  allocs_lock :: bool
  alloc_count :: int
  alloc_count_total :: "64 word"
  allocs :: ptr
  alloc_pool :: ptr
  batches :: nat
  batch_used :: nat
  alloc_objs :: "nat \<rightharpoonup> allocation"
  defaults :: which_functions
  os_dlsym_mallocs :: "size_t list"
  os_hhreport :: "string option"
  os_mmap :: "nat option"

definition heaph_start :: "size_t list \<Rightarrow> string option \<Rightarrow> nat option \<Rightarrow> heaph" where
  "heaph_start mallocs hhreport buf = \<lparr>init_lock = False, is_init_done = False, is_exit_done = False,
     init_lock_count = 0, depth = 0, report_mode = MODE_LEAKS, static_size = 0, static_used = 0,
     static_buf = 0, allocs_lock = False, alloc_count = 0, alloc_count_total = 0, allocs = Null,
     alloc_pool = Null, batches = 0, batch_used = 0, alloc_objs = Map.empty, defaults = NotSet,
     os_dlsym_mallocs = mallocs, os_hhreport = hhreport, os_mmap = buf\<rparr>"

definition heaph_assert :: "bool \<Rightarrow> heaph \<Rightarrow> heaph res" where
  "heaph_assert expr s = (if expr then ret s else fail Aborted)"

definition upd_alloc :: "ptr \<Rightarrow> (allocation \<Rightarrow> allocation) \<Rightarrow> heaph \<Rightarrow> heaph res" where
  "upd_alloc p f s = bindR (store (alloc_objs s) p f) (\<lambda>h. ret (s\<lparr>alloc_objs := h\<rparr>))"

section \<open>Locks\<close>

definition spinlock_acq :: "bool \<Rightarrow> bool res" where
  "spinlock_acq l = (if l then None else ret True)"

definition spinlock_rel :: "bool \<Rightarrow> bool res" where
  "spinlock_rel l = (if l then ret False else fail Aborted)"

definition allocs_acq :: "heaph \<Rightarrow> heaph res" where
  "allocs_acq s = bindR (spinlock_acq (allocs_lock s)) (\<lambda>l. ret (s\<lparr>allocs_lock := l\<rparr>))"

definition allocs_rel :: "heaph \<Rightarrow> heaph res" where
  "allocs_rel s = bindR (spinlock_rel (allocs_lock s)) (\<lambda>l. ret (s\<lparr>allocs_lock := l\<rparr>))"

definition heaph_lock :: "heaph \<Rightarrow> heaph res" where
  "heaph_lock s =
     bindR (if init_lock_count s = 0
            then bindR (spinlock_acq (init_lock s)) (\<lambda>l. ret (s\<lparr>init_lock := l\<rparr>)) else ret s) (\<lambda>s.
     ret (s\<lparr>init_lock_count := init_lock_count s + 1\<rparr>))"

definition heaph_unlock :: "heaph \<Rightarrow> heaph res" where
  "heaph_unlock s =
     bindR (heaph_assert (init_lock_count s > 0) s) (\<lambda>s.
     let s = s\<lparr>init_lock_count := init_lock_count s - 1\<rparr> in
     if init_lock_count s = 0
     then bindR (spinlock_rel (init_lock s)) (\<lambda>l. ret (s\<lparr>init_lock := l\<rparr>)) else ret s)"

section \<open>The table of allocations\<close>

definition alloc_is_static :: "heaph \<Rightarrow> nat \<Rightarrow> bool" where
  "alloc_is_static s ptr \<longleftrightarrow> ptr \<noteq> 0 \<and> ptr \<ge> static_buf s \<and> ptr \<le> static_buf s + static_size s"

text \<open>An unused allocation object: from the pool, or the next one of the current batch.\<close>

definition take_alloc :: "heaph \<Rightarrow> (ptr \<times> heaph) res" where
  "take_alloc s =
     bindR (is_null (alloc_pool s)) (\<lambda>z.
     if \<not> z then bindR (load (alloc_objs s) (alloc_pool s)) (\<lambda>a. ret (alloc_pool s, s\<lparr>alloc_pool := al_next a\<rparr>))
     else
       bindR (if batches s = 0 \<or> batch_used s = ALLOCATION_BATCH_SIZE
              then ret (s\<lparr>batches := batches s + 1, batch_used := 0\<rparr>)
              else heaph_assert (batch_used s < ALLOCATION_BATCH_SIZE) s) (\<lambda>s.
       let a = (batches s - 1) * ALLOCATION_BATCH_SIZE + batch_used s in
       ret (Ptr a, s\<lparr>batch_used := batch_used s + 1,
         alloc_objs := (alloc_objs s)(a \<mapsto> \<lparr>al_trace = [], al_mem = 0, al_size = 0, al_next = Null\<rparr>)\<rparr>)))"

text \<open>
  \<open>alloc_trace_new\<close> up to its second critical section: the checks, the object and its data. \<open>None\<close>
  when the function has returned early.
\<close>

definition alloc_trace_begin :: "nat \<Rightarrow> size_t \<Rightarrow> nat list \<Rightarrow> heaph \<Rightarrow> (ptr option \<times> heaph) res" where
  "alloc_trace_begin ptr sz bt s =
     (if alloc_is_static s ptr then ret (None, s)
      else if depth s > 1 then ret (None, s)
      else
        bindR (heaph_assert (depth s > 0) s) (\<lambda>s.
        bindR (heaph_assert (is_init_done s) s) (\<lambda>s.
        if is_exit_done s then ret (None, s)
        else
          bindR (allocs_acq s) (\<lambda>s.
          bindR (take_alloc s) (\<lambda>(a, s).
          bindR (allocs_rel s) (\<lambda>s.
          bindR (upd_alloc a (\<lambda>x. x\<lparr>al_mem := ptr, al_size := sz,
            al_trace := (if depth s = 1 then take MAX_BACKTRACE_LEN bt else [])\<rparr>) s) (\<lambda>s.
          ret (Some a, s))))))))"

text \<open>The second critical section.\<close>

definition alloc_trace_end :: "ptr \<Rightarrow> heaph \<Rightarrow> heaph res" where
  "alloc_trace_end a s =
     bindR (allocs_acq s) (\<lambda>s.
     bindR (upd_alloc a (\<lambda>x. x\<lparr>al_next := allocs s\<rparr>) s) (\<lambda>s.
     allocs_rel (s\<lparr>allocs := a, alloc_count := alloc_count s + 1,
       alloc_count_total := alloc_count_total s + 1\<rparr>)))"

definition alloc_trace_new :: "nat \<Rightarrow> size_t \<Rightarrow> nat list \<Rightarrow> heaph \<Rightarrow> heaph res" where
  "alloc_trace_new ptr sz bt s =
     bindR (alloc_trace_begin ptr sz bt s) (\<lambda>(a, s).
     case a of None \<Rightarrow> ret s | Some a \<Rightarrow> alloc_trace_end a s)"

text \<open>The loop of \<open>alloc_free\<close>: it takes the object out of the list and puts it into the pool.\<close>

partial_function (option) alloc_free_from :: "nat \<Rightarrow> heaph \<Rightarrow> ptr \<Rightarrow> ptr \<Rightarrow> heaph res" where
  "alloc_free_from ptr s prev a =
     bindR (is_null a) (\<lambda>z.
     if z then bindR (allocs_rel s) (heaph_assert False)
     else bindR (load (alloc_objs s) a) (\<lambda>x.
       if al_mem x = ptr then
         bindR (is_null prev) (\<lambda>zp.
         bindR (if zp then ret (s\<lparr>allocs := al_next x\<rparr>) else upd_alloc prev (\<lambda>y. y\<lparr>al_next := al_next x\<rparr>) s) (\<lambda>s.
         bindR (upd_alloc a (\<lambda>y. y\<lparr>al_next := alloc_pool s\<rparr>) s) (\<lambda>s.
         let s = s\<lparr>alloc_pool := a, alloc_count := alloc_count s - 1\<rparr>; new_count = alloc_count s in
         bindR (allocs_rel s) (heaph_assert (new_count \<ge> 0)))))
       else alloc_free_from ptr s a (al_next x)))"

definition alloc_free :: "nat \<Rightarrow> heaph \<Rightarrow> heaph res" where
  "alloc_free ptr s =
     (if alloc_is_static s ptr then ret s
      else if depth s > 1 then ret s
      else
        bindR (heaph_assert (is_init_done s) s) (\<lambda>s.
        if is_exit_done s then ret s
        else bindR (allocs_acq s) (\<lambda>s. alloc_free_from ptr s Null (allocs s))))"

section \<open>The static allocator\<close>

definition static_allocator_touch :: "heaph \<Rightarrow> heaph res" where
  "static_allocator_touch s =
     (if static_buf s \<noteq> 0 then ret s
      else case os_mmap s of
        None \<Rightarrow> fail Aborted
      | Some buf \<Rightarrow> ret (s\<lparr>static_size := 16 * 1024, static_buf := buf\<rparr>))"

definition static_malloc :: "size_t \<Rightarrow> heaph \<Rightarrow> (nat \<times> heaph) res" where
  "static_malloc sz s =
     bindR (heaph_assert (\<not> is_init_done s) s) (\<lambda>s.
     bindR (heaph_assert (init_lock s) s) (\<lambda>s.
     bindR (static_allocator_touch s) (\<lambda>s.
     bindR (heaph_assert (static_size s \<ge> static_used s) s) (\<lambda>s.
     bindR (heaph_assert (unat sz < static_size s - static_used s) s) (\<lambda>s.
     ret (static_buf s + static_used s, s\<lparr>static_used := static_used s + unat sz\<rparr>))))))"

definition static_free :: "nat \<Rightarrow> heaph \<Rightarrow> heaph res" where
  "static_free ptr s =
     bindR (heaph_assert (\<not> is_init_done s) s) (\<lambda>s.
     bindR (heaph_assert (init_lock s) s) (\<lambda>s.
     bindR (static_allocator_touch s) (\<lambda>s.
     if ptr \<noteq> 0 then heaph_assert (alloc_is_static s ptr) s else ret s)))"

text \<open>The product of the two sizes wraps around.\<close>

definition static_calloc :: "size_t \<Rightarrow> size_t \<Rightarrow> heaph \<Rightarrow> (nat \<times> heaph) res" where
  "static_calloc count sz s = static_malloc (sz * count) s"

section \<open>Initialisation\<close>

text \<open>\<open>malloc\<close> and \<open>calloc\<close> after their call of \<open>heaph_touch\<close>.\<close>

definition malloc_body :: "size_t \<Rightarrow> nat \<Rightarrow> nat list \<Rightarrow> heaph \<Rightarrow> (nat \<times> heaph) res" where
  "malloc_body sz lib bt s =
     (let s = s\<lparr>depth := depth s + 1\<rparr> in
      bindR (case defaults s of
          NotSet \<Rightarrow> fail NullDeref
        | StaticFunctions \<Rightarrow> static_malloc sz s
        | LibraryFunctions \<Rightarrow> ret (lib, s)) (\<lambda>(res, s).
      bindR (if res \<noteq> 0 then alloc_trace_new res sz bt s else ret s) (\<lambda>s.
      ret (res, s\<lparr>depth := depth s - 1\<rparr>))))"

fun dlsym_requests :: "size_t list \<Rightarrow> heaph \<Rightarrow> heaph res" where
  "dlsym_requests [] s = ret s"
| "dlsym_requests (sz # szs) s = bindR (malloc_body sz 0 [] s) (\<lambda>(res, s). dlsym_requests szs s)"

definition heaph_init :: "heaph \<Rightarrow> heaph res" where
  "heaph_init s =
     bindR (dlsym_requests (os_dlsym_mallocs s) (s\<lparr>defaults := StaticFunctions\<rparr>)) (\<lambda>s.
     let s = s\<lparr>defaults := LibraryFunctions\<rparr> in
     ret (case os_hhreport s of
         None \<Rightarrow> s
       | Some hh_report \<Rightarrow>
           if hh_report = ''v'' then s\<lparr>report_mode := MODE_VERBOSE\<rparr>
           else if hh_report = ''l'' then s\<lparr>report_mode := MODE_LEAKS\<rparr>
           else if hh_report = ''q'' then s\<lparr>report_mode := MODE_QUIET\<rparr>
           else s))"

text \<open>\<open>heaph_touch\<close> after its two checks, which are made without the lock.\<close>

definition heaph_touch_slow :: "heaph \<Rightarrow> heaph res" where
  "heaph_touch_slow s =
     bindR (heaph_lock s) (\<lambda>s.
     bindR (heaph_init s) (\<lambda>s.
     let old = is_init_done s; s = s\<lparr>is_init_done := True\<rparr> in
     bindR (heaph_unlock s) (heaph_assert (\<not> old))))"

definition heaph_touch :: "heaph \<Rightarrow> heaph res" where
  "heaph_touch s =
     (if is_init_done s then ret s
      else if init_lock_count s > 0 then ret s
      else heaph_touch_slow s)"

section \<open>The wrappers\<close>

text \<open>
  Arguments after those of the C function: \<open>lib\<close>, what the library's function returns, and \<open>bt\<close>,
  the call stack. A result string is given by its length.
\<close>

definition hh_malloc :: "size_t \<Rightarrow> nat \<Rightarrow> nat list \<Rightarrow> heaph \<Rightarrow> (nat \<times> heaph) res" where
  "hh_malloc sz lib bt s = bindR (heaph_touch s) (malloc_body sz lib bt)"

definition hh_calloc :: "size_t \<Rightarrow> size_t \<Rightarrow> nat \<Rightarrow> nat list \<Rightarrow> heaph \<Rightarrow> (nat \<times> heaph) res" where
  "hh_calloc num sz lib bt s =
     bindR (heaph_touch s) (\<lambda>s.
     let s = s\<lparr>depth := depth s + 1\<rparr> in
     bindR (case defaults s of
         NotSet \<Rightarrow> fail NullDeref
       | StaticFunctions \<Rightarrow> static_calloc num sz s
       | LibraryFunctions \<Rightarrow> ret (lib, s)) (\<lambda>(res, s).
     bindR (if res \<noteq> 0 then alloc_trace_new res (num * sz) bt s else ret s) (\<lambda>s.
     ret (res, s\<lparr>depth := depth s - 1\<rparr>))))"

text \<open>\<open>default_realloc\<close> and the functions below are set by the initialisation only.\<close>

definition library :: "heaph \<Rightarrow> heaph res" where
  "library s = (if defaults s = LibraryFunctions then ret s else fail NullDeref)"

definition hh_realloc :: "nat \<Rightarrow> size_t \<Rightarrow> nat \<Rightarrow> nat list \<Rightarrow> heaph \<Rightarrow> (nat \<times> heaph) res" where
  "hh_realloc ptr0 sz lib bt s =
     bindR (heaph_touch s) (\<lambda>s.
     let s = s\<lparr>depth := depth s + 1\<rparr>; ptr = (if alloc_is_static s ptr0 then 0 else ptr0) in
     bindR (library s) (\<lambda>s.
     bindR (if ptr = 0 \<and> lib \<noteq> 0 then alloc_trace_new lib sz bt s
            else if ptr \<noteq> 0 \<and> lib = 0 then alloc_free ptr s
            else if ptr \<noteq> 0 \<and> lib \<noteq> ptr then bindR (alloc_free ptr s) (alloc_trace_new lib sz bt)
            else ret s) (\<lambda>s.
     ret (lib, s\<lparr>depth := depth s - 1\<rparr>))))"

definition hh_free :: "nat \<Rightarrow> heaph \<Rightarrow> heaph res" where
  "hh_free ptr s =
     (if ptr = 0 then ret s
      else if alloc_is_static s ptr then ret s
      else
        bindR (heaph_touch s) (\<lambda>s.
        let s = s\<lparr>depth := depth s + 1\<rparr> in
        bindR (alloc_free ptr s) (\<lambda>s.
        bindR (case defaults s of
            NotSet \<Rightarrow> fail NullDeref
          | StaticFunctions \<Rightarrow> static_free ptr s
          | LibraryFunctions \<Rightarrow> ret s) (\<lambda>s.
        ret (s\<lparr>depth := depth s - 1\<rparr>)))))"

definition hh_strdup :: "nat \<Rightarrow> nat \<Rightarrow> nat \<Rightarrow> nat list \<Rightarrow> heaph \<Rightarrow> (nat \<times> heaph) res" where
  "hh_strdup ptr lib strlen bt s =
     bindR (heaph_touch s) (\<lambda>s.
     bindR (heaph_assert (\<not> is_exit_done s) s) (\<lambda>s.
     bindR (heaph_assert (\<not> alloc_is_static s ptr) s) (\<lambda>s.
     let s = s\<lparr>depth := depth s + 1\<rparr> in
     bindR (library s) (\<lambda>s.
     bindR (if lib \<noteq> 0 then alloc_trace_new lib (word_of_nat (strlen + 1)) bt s else ret s) (\<lambda>s.
     ret (lib, s\<lparr>depth := depth s - 1\<rparr>))))))"

text \<open>\<open>line_old\<close> and \<open>lib\<close> are \<open>*linep\<close> before and after the library's \<open>getline\<close>.\<close>

definition hh_getline :: "nat \<Rightarrow> nat \<Rightarrow> nat \<Rightarrow> nat list \<Rightarrow> heaph \<Rightarrow> (nat \<times> heaph) res" where
  "hh_getline line_old lib strlen bt s =
     bindR (heaph_touch s) (\<lambda>s.
     let s = s\<lparr>depth := depth s + 1\<rparr> in
     bindR (heaph_assert (\<not> alloc_is_static s line_old) s) (\<lambda>s.
     bindR (library s) (\<lambda>s.
     bindR (if line_old = 0 \<and> lib \<noteq> 0 then alloc_trace_new lib (word_of_nat (strlen + 1)) bt s
            else if line_old \<noteq> 0 \<and> lib = 0 then heaph_assert False s
            else if line_old \<noteq> 0 \<and> lib \<noteq> 0 \<and> line_old \<noteq> lib then
              bindR (alloc_free line_old s) (alloc_trace_new lib (word_of_nat (strlen + 1)) bt)
            else if line_old \<noteq> lib then heaph_assert False s
            else ret s) (\<lambda>s.
     ret (lib, s\<lparr>depth := depth s - 1\<rparr>)))))"

text \<open>\<open>sizeof(struct addrinfo)\<close> is an argument; \<open>lib\<close> is the list the library allocated.\<close>

definition hh_getaddrinfo :: "int \<Rightarrow> nat \<Rightarrow> size_t \<Rightarrow> nat list \<Rightarrow> heaph \<Rightarrow> (int \<times> heaph) res" where
  "hh_getaddrinfo rc lib addrinfo_size bt s =
     bindR (heaph_touch s) (\<lambda>s.
     let s = s\<lparr>depth := depth s + 1\<rparr> in
     bindR (library s) (\<lambda>s.
     bindR (if rc = 0 \<and> lib \<noteq> 0 then alloc_trace_new lib addrinfo_size bt s else ret s) (\<lambda>s.
     ret (rc, s\<lparr>depth := depth s - 1\<rparr>))))"

definition hh_freeaddrinfo :: "nat \<Rightarrow> heaph \<Rightarrow> heaph res" where
  "hh_freeaddrinfo ai s =
     (if ai = 0 then ret s
      else
        bindR (heaph_assert (\<not> alloc_is_static s ai) s) (\<lambda>s.
        bindR (heaph_touch s) (\<lambda>s.
        let s = s\<lparr>depth := depth s + 1\<rparr> in
        bindR (alloc_free ai s) (\<lambda>s.
        bindR (library s) (\<lambda>s.
        ret (s\<lparr>depth := depth s - 1\<rparr>))))))"

definition heaph_get_alloc_count :: "heaph \<Rightarrow> (64 word \<times> heaph) res" where
  "heaph_get_alloc_count s =
     bindR (allocs_acq s) (\<lambda>s.
     let r = word_of_int (alloc_count s) in
     bindR (allocs_rel s) (\<lambda>s. ret (r, s)))"

section \<open>Symbols\<close>

definition trace_sym_is_func :: "symbol \<Rightarrow> string \<Rightarrow> bool" where
  "trace_sym_is_func sb func = (case sym_name sb of None \<Rightarrow> False | Some name \<Rightarrow> name = func)"

definition trace_sym_file_starts_with :: "symbol \<Rightarrow> string \<Rightarrow> bool" where
  "trace_sym_file_starts_with sb file_name =
     (case sym_file sb of None \<Rightarrow> False | Some f \<Rightarrow> take (length file_name) f = file_name)"

definition trace_sym_is_internal :: "symbol \<Rightarrow> bool" where
  "trace_sym_is_internal sb =
     (if trace_sym_is_func sb ''puts'' then True
      else if trace_sym_is_func sb ''pthread_create'' then True
      else if trace_sym_is_func sb ''_IO_printf'' then True
      else if trace_sym_is_func sb ''_IO_puts'' then True
      else if trace_sym_is_func sb ''_IO_vfscanf'' then True
      else if trace_sym_file_starts_with sb ''libpthread.so'' then True
      else False)"

fun trace_is_internal :: "symbol list \<Rightarrow> bool" where
  "trace_is_internal [] = False"
| "trace_is_internal (sb # sbs) = (if trace_sym_is_internal sb then True else trace_is_internal sbs)"

text \<open>The messages of the report, with the values they print.\<close>

datatype message =
    DladdrFailure
  | NoLeaks
  | Leak int size_t "string option list"
  | FoundLeaks int "64 word"
  | SuppressedLeaks int
  | OnlyFirst int
  | TotalCount "64 word"

text \<open>The symbols of a trace, and the messages on the way: an address without a symbol gets an empty one.\<close>

fun trace_resolve :: "(nat \<Rightarrow> symbol option) \<Rightarrow> nat list \<Rightarrow> symbol list \<times> message list" where
  "trace_resolve dladdr [] = ([], [])"
| "trace_resolve dladdr (addr # addrs) =
     (let (sbs, out) = trace_resolve dladdr addrs in
      case dladdr addr of
        None \<Rightarrow> (\<lparr>sym_file = None, sym_name = None\<rparr> # sbs, DladdrFailure # out)
      | Some sb \<Rightarrow> (sb # sbs, out))"

section \<open>The report\<close>

definition report_limit :: int where "report_limit = 10"

text \<open>The loop over the allocations: count, reports made, size of the leaks, messages so far.\<close>

partial_function (option) report_loop :: "(nat \<Rightarrow> symbol option) \<Rightarrow> heaph \<Rightarrow> ptr \<Rightarrow> int \<Rightarrow> int \<Rightarrow> 64 word \<Rightarrow> message list
    \<Rightarrow> (int \<times> int \<times> 64 word \<times> message list) res" where
  "report_loop dladdr s a count report_count leak_size out =
     bindR (is_null a) (\<lambda>z.
     if z then ret (count, report_count, leak_size, out)
     else
       bindR (heaph_assert (count > 0) s) (\<lambda>_.
       bindR (load (alloc_objs s) a) (\<lambda>x.
       if al_trace x = [] then report_loop dladdr s (al_next x) (count - 1) report_count leak_size out
       else
         let (sbs, failures) = trace_resolve dladdr (al_trace x); is_internal = trace_is_internal sbs;
             out = out @ failures in
         if is_internal then report_loop dladdr s (al_next x) (count - 1) report_count leak_size out
         else if report_count < report_limit then
           report_loop dladdr s (al_next x) count (report_count + 1) (leak_size + al_size x)
             (out @ [Leak (report_count + 1) (al_size x) (map sym_name sbs)])
         else report_loop dladdr s (al_next x) count report_count (leak_size + al_size x) out)))"

definition heaph_atexit :: "(nat \<Rightarrow> symbol option) \<Rightarrow> heaph \<Rightarrow> (message list \<times> heaph) res" where
  "heaph_atexit dladdr s =
     (if is_exit_done s then ret ([], s)
      else
        let s = s\<lparr>is_exit_done := True\<rparr> in
        if report_mode s = MODE_QUIET then ret ([], s)
        else
          bindR (allocs_acq s) (\<lambda>s.
          let total_count = alloc_count s in
          if total_count = 0 then
            bindR (allocs_rel s) (\<lambda>s.
            ret (if report_mode s = MODE_VERBOSE then [NoLeaks, TotalCount (alloc_count_total s)] else [], s))
          else
            bindR (report_loop dladdr s (allocs s) total_count 0 0 []) (\<lambda>(count, report_count, leak_size, out).
            bindR (allocs_rel s) (\<lambda>s.
            if count = 0 \<and> report_mode s \<noteq> MODE_VERBOSE then ret (out, s)
            else
              let suppressed_count = total_count - count in
              ret (out @ [FoundLeaks count leak_size]
                @ (if suppressed_count \<noteq> 0 then [SuppressedLeaks suppressed_count] else [])
                @ (if report_count < count then [OnlyFirst report_count] else [])
                @ [TotalCount (alloc_count_total s)], s)))))"

lemmas heap_unfolds [code] =
  alloc_free_from.simps
  report_loop.simps

end
