(* ===== verification/Heap.thy ===== *)
theory Heap
  imports Heap_Model
begin

text \<open>
  The table of allocations is the association list of the live allocations, the newest first:
  \<open>alloc_trace_new\<close> puts an entry in front, \<open>alloc_free\<close> takes out the entry of an address and
  aborts when there is none. The objects go round between the list, the pool and the batches.
\<close>

section \<open>Lists of allocation objects\<close>

fun slist :: "(nat \<rightharpoonup> allocation) \<Rightarrow> ptr \<Rightarrow> nat list \<Rightarrow> bool" where
  "slist h p [] \<longleftrightarrow> p = Null"
| "slist h p (a # us) \<longleftrightarrow> p = Ptr a \<and> (\<exists>x. h a = Some x \<and> slist h (al_next x) us)"

lemma slist_frame: "slist h p us \<Longrightarrow> (\<And>a. a \<in> set us \<Longrightarrow> h' a = h a) \<Longrightarrow> slist h' p us"
  by (induction us arbitrary: p) auto

lemma slist_upd [simp]: "b \<notin> set us \<Longrightarrow> slist (h(b := v)) p us \<longleftrightarrow> slist h p us"
  by (induction us arbitrary: p) auto

lemma slist_alloc: "slist h p us \<Longrightarrow> a \<in> set us \<Longrightarrow> \<exists>x. h a = Some x"
  by (induction us arbitrary: p) auto

text \<open>The loop stands at the first node of \<open>vs\<close>, after the nodes \<open>us\<close>.\<close>

fun seg :: "(nat \<rightharpoonup> allocation) \<Rightarrow> ptr \<Rightarrow> nat list \<Rightarrow> ptr \<Rightarrow> bool" where
  "seg h p [] q \<longleftrightarrow> p = q"
| "seg h p (a # us) q \<longleftrightarrow> p = Ptr a \<and> (\<exists>x. h a = Some x \<and> seg h (al_next x) us q)"

lemma slist_append: "slist h p (us @ vs) \<longleftrightarrow> (\<exists>q. seg h p us q \<and> slist h q vs)"
  by (induction us arbitrary: p) auto

lemma seg_append: "seg h p (us @ vs) q \<longleftrightarrow> (\<exists>m. seg h p us m \<and> seg h m vs q)"
  by (induction us arbitrary: p) auto

lemma seg_upd [simp]: "b \<notin> set us \<Longrightarrow> seg (h(b := v)) p us q \<longleftrightarrow> seg h p us q"
  by (induction us arbitrary: p) auto

section \<open>The representation\<close>

type_synonym entries = "(nat \<times> size_t \<times> nat list) list"

definition entry :: "allocation \<Rightarrow> nat \<times> size_t \<times> nat list" where
  "entry x = (al_mem x, al_size x, al_trace x)"

definition object_limit :: "heaph \<Rightarrow> nat" where
  "object_limit s = (if batches s = 0 then 0 else (batches s - 1) * ALLOCATION_BATCH_SIZE + batch_used s)"

definition table_inv :: "heaph \<Rightarrow> nat list \<Rightarrow> nat list \<Rightarrow> bool" where
  "table_inv s tr pl \<longleftrightarrow> slist (alloc_objs s) (allocs s) tr \<and> slist (alloc_objs s) (alloc_pool s) pl
     \<and> distinct (tr @ pl) \<and> (\<forall>a \<in> set (tr @ pl). a < object_limit s) \<and> batch_used s \<le> ALLOCATION_BATCH_SIZE"

definition entries_of :: "heaph \<Rightarrow> nat list \<Rightarrow> entries" where
  "entries_of s tr = map (\<lambda>a. entry (the (alloc_objs s a))) tr"

text \<open>\<open>lo\<close> and \<open>hi\<close> bound the static buffer, \<open>d\<close> is the depth of calls.\<close>

definition hh_rep :: "nat \<Rightarrow> nat \<Rightarrow> int \<Rightarrow> heaph \<Rightarrow> entries \<Rightarrow> bool" where
  "hh_rep lo hi d s es \<longleftrightarrow> is_init_done s \<and> \<not> is_exit_done s \<and> \<not> allocs_lock s \<and> defaults s = LibraryFunctions
     \<and> depth s = d \<and> static_buf s = lo \<and> static_buf s + static_size s = hi
     \<and> (\<exists>tr pl. table_inv s tr pl \<and> es = entries_of s tr) \<and> distinct (map fst es) \<and> alloc_count s = int (length es)"

text \<open>Addresses outside the static buffer; the buffer's end counts as inside.\<close>

definition user_ptr :: "nat \<Rightarrow> nat \<Rightarrow> nat \<Rightarrow> bool" where
  "user_ptr lo hi p \<longleftrightarrow> p \<noteq> 0 \<and> \<not> (lo \<le> p \<and> p \<le> hi)"

lemma hh_rep_static: "hh_rep lo hi d s es \<Longrightarrow> p \<noteq> 0 \<Longrightarrow> alloc_is_static s p \<longleftrightarrow> \<not> user_ptr lo hi p"
  by (auto simp: hh_rep_def alloc_is_static_def user_ptr_def)

lemma table_inv_simps [simp]:
  "table_inv (s\<lparr>depth := d\<rparr>) tr pl = table_inv s tr pl" "table_inv (s\<lparr>allocs_lock := b\<rparr>) tr pl = table_inv s tr pl"
  "object_limit (s\<lparr>alloc_objs := h\<rparr>) = object_limit s"
  "object_limit (s\<lparr>depth := d\<rparr>) = object_limit s" "object_limit (s\<lparr>allocs_lock := b\<rparr>) = object_limit s"
  "entries_of (s\<lparr>depth := d\<rparr>) tr = entries_of s tr" "entries_of (s\<lparr>allocs_lock := b\<rparr>) tr = entries_of s tr"
  by (simp_all add: table_inv_def object_limit_def entries_of_def)

lemma hh_rep_depth: "hh_rep lo hi d s es \<Longrightarrow> hh_rep lo hi d' (s\<lparr>depth := d'\<rparr>) es"
  by (simp add: hh_rep_def)

section \<open>Adding an entry\<close>

lemma take_alloc_ok:
  assumes inv: "table_inv s tr pl"
  shows "\<exists>a s' x pl'. take_alloc s = ret (Ptr a, s') \<and> table_inv s' tr pl' \<and> a \<notin> set (tr @ pl') \<and> a < object_limit s'
    \<and> alloc_objs s' a = Some x \<and> allocs s' = allocs s \<and> (\<forall>b \<in> set tr. alloc_objs s' b = alloc_objs s b)
    \<and> s' = s\<lparr>alloc_pool := alloc_pool s', batches := batches s', batch_used := batch_used s', alloc_objs := alloc_objs s'\<rparr>
    \<and> object_limit s \<le> object_limit s' \<and> set pl' \<subseteq> set pl
    \<and> (\<forall>b. b < object_limit s \<longrightarrow> b \<notin> set pl \<longrightarrow> b \<noteq> a \<and> alloc_objs s' b = alloc_objs s b)"
proof (cases pl)
  case (Cons a pl')
  then obtain x where x: "alloc_pool s = Ptr a" "alloc_objs s a = Some x" "slist (alloc_objs s) (al_next x) pl'"
    using inv by (auto simp: table_inv_def)
  let ?s = "s\<lparr>alloc_pool := al_next x\<rparr>"
  have "take_alloc s = ret (Ptr a, ?s)" using x by (simp add: take_alloc_def)
  moreover have "table_inv ?s tr pl'" "a \<notin> set (tr @ pl')" "a < object_limit ?s"
    using inv x Cons by (auto simp: table_inv_def object_limit_def)
  ultimately show ?thesis using x(2) Cons
    by (intro exI [of _ a] exI [of _ ?s] exI [of _ x] exI [of _ pl']) (auto simp: object_limit_def)
next
  case Nil
  then have p: "alloc_pool s = Null" using inv by (simp add: table_inv_def)
  let ?z = "\<lparr>al_trace = [], al_mem = 0, al_size = 0, al_next = Null\<rparr> :: allocation"
  let ?s1 = "if batches s = 0 \<or> batch_used s = ALLOCATION_BATCH_SIZE then s\<lparr>batches := batches s + 1, batch_used := 0\<rparr> else s"
  let ?a = "(batches ?s1 - 1) * ALLOCATION_BATCH_SIZE + batch_used ?s1"
  let ?s = "?s1\<lparr>batch_used := batch_used ?s1 + 1, alloc_objs := (alloc_objs s)(?a \<mapsto> ?z)\<rparr>"
  have u: "batch_used s \<le> ALLOCATION_BATCH_SIZE" using inv by (simp add: table_inv_def)
  then have run: "take_alloc s = ret (Ptr ?a, ?s)"
    using p by (auto simp: take_alloc_def heaph_assert_def Let_def)
  have a: "?a = object_limit s"
    using u by (auto simp: object_limit_def algebra_simps)
  have lim: "object_limit ?s = Suc ?a" using u by (auto simp: object_limit_def ALLOCATION_BATCH_SIZE_def)
  have fresh: "?a \<notin> set tr" using inv unfolding a by (auto simp: table_inv_def)
  have "table_inv ?s tr []"
    using inv fresh lim p Nil u unfolding table_inv_def a by (auto simp: ALLOCATION_BATCH_SIZE_def less_Suc_eq)
  moreover have "object_limit s \<le> object_limit ?s" by (metis a lim le_SucI order_refl)
  moreover have "b \<noteq> ?a \<and> alloc_objs ?s b = alloc_objs s b" if "b < object_limit s" for b
    using that unfolding a by simp
  ultimately show ?thesis
    using run fresh lim by (intro exI [of _ ?a] exI [of _ ?s] exI [of _ ?z] exI [of _ "[]"]) auto
qed

text \<open>The state inside a wrapper, between the critical sections.\<close>

definition calm :: "nat \<Rightarrow> nat \<Rightarrow> heaph \<Rightarrow> bool" where
  "calm lo hi s \<longleftrightarrow> is_init_done s \<and> \<not> is_exit_done s \<and> \<not> allocs_lock s \<and> defaults s = LibraryFunctions
     \<and> depth s = 1 \<and> static_buf s = lo \<and> static_buf s + static_size s = hi"

lemma hh_rep_calm:
  "hh_rep lo hi 1 s es \<longleftrightarrow> calm lo hi s \<and> (\<exists>tr pl. table_inv s tr pl \<and> es = entries_of s tr)
     \<and> distinct (map fst es) \<and> alloc_count s = int (length es)"
  by (auto simp: hh_rep_def calm_def)

lemma calm_static: "calm lo hi s \<Longrightarrow> user_ptr lo hi p \<Longrightarrow> \<not> alloc_is_static s p"
  by (auto simp: calm_def alloc_is_static_def user_ptr_def)

definition same_entries :: "heaph \<Rightarrow> heaph \<Rightarrow> bool" where
  "same_entries s s' \<longleftrightarrow> (\<forall>a. map_option entry (alloc_objs s' a) = map_option entry (alloc_objs s a))"

lemma same_entries_of:
  assumes "same_entries s s'" "slist (alloc_objs s) p tr"
  shows "entries_of s' tr = entries_of s tr"
  unfolding entries_of_def
proof (intro map_cong refl)
  fix a assume "a \<in> set tr"
  from slist_alloc [OF assms(2) this] obtain x where "alloc_objs s a = Some x" by blast
  then show "entry (the (alloc_objs s' a)) = entry (the (alloc_objs s a))"
    using assms(1) [unfolded same_entries_def, rule_format, of a] by (cases "alloc_objs s' a") auto
qed

text \<open>The first part of \<open>alloc_trace_new\<close>: an object that is in neither list, nor in use by anyone else.\<close>

lemma alloc_trace_begin_ok:
  assumes calm: "calm lo hi s" and inv: "table_inv s tr pl" and p: "user_ptr lo hi p"
  shows "\<exists>a x s' pl'. alloc_trace_begin p sz bt s = ret (Some (Ptr a), s') \<and> calm lo hi s' \<and> table_inv s' tr pl'
    \<and> alloc_objs s' a = Some x \<and> entry x = (p, sz, take MAX_BACKTRACE_LEN bt) \<and> a \<notin> set (tr @ pl') \<and> a < object_limit s'
    \<and> object_limit s \<le> object_limit s' \<and> set pl' \<subseteq> set pl
    \<and> (\<forall>b. b < object_limit s \<longrightarrow> b \<notin> set pl \<longrightarrow> b \<noteq> a \<and> alloc_objs s' b = alloc_objs s b)
    \<and> alloc_count s' = alloc_count s \<and> alloc_count_total s' = alloc_count_total s \<and> report_mode s' = report_mode s"
proof -
  let ?locked = "s\<lparr>allocs_lock := True\<rparr>"
  have "table_inv ?locked tr pl" using inv by simp
  from take_alloc_ok [OF this] obtain a s1 x pl' where
    s1: "take_alloc ?locked = ret (Ptr a, s1)" "table_inv s1 tr pl'" "a \<notin> set (tr @ pl')" "a < object_limit s1"
      "alloc_objs s1 a = Some x" "object_limit s \<le> object_limit s1" "set pl' \<subseteq> set pl"
      "\<forall>b. b < object_limit s \<longrightarrow> b \<notin> set pl \<longrightarrow> b \<noteq> a \<and> alloc_objs s1 b = alloc_objs s b"
      "s1 = ?locked\<lparr>alloc_pool := alloc_pool s1, batches := batches s1, batch_used := batch_used s1, alloc_objs := alloc_objs s1\<rparr>"
    by auto
  have fields: "allocs_lock s1" "depth s1 = 1" "is_init_done s1" "\<not> is_exit_done s1" "defaults s1 = LibraryFunctions"
    "static_buf s1 = lo" "static_buf s1 + static_size s1 = hi" "alloc_count s1 = alloc_count s"
    "alloc_count_total s1 = alloc_count_total s" "report_mode s1 = report_mode s"
    using calm unfolding calm_def by (subst s1(9); simp)+
  let ?x = "x\<lparr>al_mem := p, al_size := sz, al_trace := take MAX_BACKTRACE_LEN bt\<rparr>"
  let ?s = "s1\<lparr>allocs_lock := False, alloc_objs := (alloc_objs s1)(a \<mapsto> ?x)\<rparr>"
  have run: "alloc_trace_begin p sz bt s = ret (Some (Ptr a), ?s)"
    using calm_static [OF calm p] calm [unfolded calm_def] s1(1,5) fields
    by (simp add: alloc_trace_begin_def heaph_assert_def allocs_acq_def allocs_rel_def spinlock_acq_def spinlock_rel_def upd_alloc_def)
  have "table_inv ?s tr pl'" using s1(2,3) by (auto simp: table_inv_def object_limit_def)
  moreover have "calm lo hi ?s" using fields by (simp add: calm_def)
  ultimately show ?thesis
    using run s1(3,4,6-8) fields(8-10)
    by (intro exI [of _ a] exI [of _ ?x] exI [of _ ?s] exI [of _ pl']) (simp add: entry_def)
qed

lemma alloc_trace_end_ok:
  assumes calm: "calm lo hi s" and inv: "table_inv s tr pl" and a: "alloc_objs s a = Some x" "a \<notin> set (tr @ pl)" "a < object_limit s"
  shows "\<exists>s'. alloc_trace_end (Ptr a) s = ret s' \<and> calm lo hi s' \<and> table_inv s' (a # tr) pl \<and> same_entries s s'
    \<and> object_limit s' = object_limit s \<and> alloc_count s' = alloc_count s + 1
    \<and> alloc_count_total s' = alloc_count_total s + 1 \<and> report_mode s' = report_mode s"
proof -
  let ?s = "s\<lparr>alloc_objs := (alloc_objs s)(a \<mapsto> x\<lparr>al_next := allocs s\<rparr>), allocs := Ptr a,
    alloc_count := alloc_count s + 1, alloc_count_total := alloc_count_total s + 1\<rparr>"
  have "?s = ?s\<lparr>allocs_lock := False\<rparr>" using calm by (simp add: calm_def)
  then have "alloc_trace_end (Ptr a) s = ret ?s"
    using calm a(1) by (simp add: alloc_trace_end_def calm_def allocs_acq_def allocs_rel_def spinlock_acq_def spinlock_rel_def upd_alloc_def)
  moreover have "table_inv ?s (a # tr) pl" using inv a by (auto simp: table_inv_def object_limit_def)
  moreover have "same_entries s ?s" using a(1) by (simp add: same_entries_def entry_def)
  ultimately show ?thesis using calm by (intro exI [of _ ?s]) (simp add: calm_def object_limit_def)
qed

lemma alloc_trace_new_ok:
  assumes rep: "hh_rep lo hi 1 s es" and p: "user_ptr lo hi p" "p \<notin> fst ` set es"
  shows "\<exists>s'. alloc_trace_new p sz bt s = ret s' \<and> hh_rep lo hi 1 s' ((p, sz, take MAX_BACKTRACE_LEN bt) # es)
    \<and> alloc_count_total s' = alloc_count_total s + 1 \<and> report_mode s' = report_mode s"
proof -
  obtain tr pl where t: "calm lo hi s" "table_inv s tr pl" "es = entries_of s tr" "distinct (map fst es)" "alloc_count s = int (length es)"
    using rep by (auto simp: hh_rep_calm)
  from alloc_trace_begin_ok [OF t(1,2) p(1), of sz bt] obtain a x s1 pl1 where
    s1: "alloc_trace_begin p sz bt s = ret (Some (Ptr a), s1)" "calm lo hi s1" "table_inv s1 tr pl1"
      "alloc_objs s1 a = Some x" "entry x = (p, sz, take MAX_BACKTRACE_LEN bt)" "a \<notin> set (tr @ pl1)" "a < object_limit s1"
      "\<forall>b. b < object_limit s \<longrightarrow> b \<notin> set pl \<longrightarrow> b \<noteq> a \<and> alloc_objs s1 b = alloc_objs s b"
      "alloc_count s1 = alloc_count s" "alloc_count_total s1 = alloc_count_total s" "report_mode s1 = report_mode s" by auto
  from alloc_trace_end_ok [OF s1(2-4,6,7)] obtain s2 where
    s2: "alloc_trace_end (Ptr a) s1 = ret s2" "calm lo hi s2" "table_inv s2 (a # tr) pl1" "same_entries s1 s2"
      "alloc_count s2 = alloc_count s1 + 1" "alloc_count_total s2 = alloc_count_total s1 + 1" "report_mode s2 = report_mode s1" by auto
  have "entries_of s1 tr = es"
    using s1(8) t(2) unfolding t(3) entries_of_def by (intro map_cong) (auto simp: table_inv_def)
  then have "entries_of s1 (a # tr) = (p, sz, take MAX_BACKTRACE_LEN bt) # es"
    using s1(4,5) by (simp add: entries_of_def)
  moreover have "slist (alloc_objs s1) p' tr \<Longrightarrow> entries_of s2 (a # tr) = entries_of s1 (a # tr)" for p'
    using same_entries_of [OF s2(4), of p' tr] s2(4) [unfolded same_entries_def, rule_format, of a] s1(4)
    by (auto simp: entries_of_def)
  ultimately have "entries_of s2 (a # tr) = (p, sz, take MAX_BACKTRACE_LEN bt) # es"
    using s1(3) by (auto simp: table_inv_def)
  with s1(1,9-11) s2 t(4,5) p(2) show ?thesis
    by (intro exI [of _ s2]) (auto simp: alloc_trace_new_def hh_rep_calm)
qed

section \<open>Removing an entry\<close>

text \<open>The heap after the node \<open>b\<close> behind the nodes \<open>us\<close> went to the pool.\<close>

definition unlinked :: "nat list \<Rightarrow> nat \<Rightarrow> ptr \<Rightarrow> (nat \<rightharpoonup> allocation) \<Rightarrow> (nat \<rightharpoonup> allocation)" where
  "unlinked us b pool h = (let x = the (h b) in
     (if us = [] then h else h(last us \<mapsto> (the (h (last us)))\<lparr>al_next := al_next x\<rparr>))(b \<mapsto> x\<lparr>al_next := pool\<rparr>))"

definition freed :: "nat list \<Rightarrow> nat \<Rightarrow> heaph \<Rightarrow> heaph" where
  "freed us b s = s\<lparr>allocs := (if us = [] then al_next (the (alloc_objs s b)) else allocs s),
     alloc_objs := unlinked us b (alloc_pool s) (alloc_objs s), alloc_pool := Ptr b,
     alloc_count := alloc_count s - 1, allocs_lock := False\<rparr>"

lemma alloc_free_from_found:
  assumes "seg (alloc_objs s) (allocs s) us a" "slist (alloc_objs s) a (ys @ b # zs)" "distinct (us @ ys @ b # zs)"
    "al_mem (the (alloc_objs s b)) = p" "\<forall>c \<in> set ys. al_mem (the (alloc_objs s c)) \<noteq> p"
    "allocs_lock s" "0 < alloc_count s" "prev = (if us = [] then Null else Ptr (last us))"
  shows "alloc_free_from p s prev a = ret (freed (us @ ys) b s)"
  using assms
proof (induction ys arbitrary: us a prev)
  case Nil
  then obtain x where x: "a = Ptr b" "alloc_objs s b = Some x" by auto
  show ?case
  proof (cases us rule: rev_cases)
    case Nil2: Nil
    with Nil x show ?thesis
      by (subst alloc_free_from.simps)
        (simp add: upd_alloc_def allocs_rel_def spinlock_rel_def heaph_assert_def freed_def unlinked_def Let_def)
  next
    case (snoc ws c)
    with Nil obtain y where y: "alloc_objs s c = Some y" "c \<noteq> b" by (auto simp: seg_append)
    with Nil x snoc show ?thesis
      by (subst alloc_free_from.simps)
        (simp add: upd_alloc_def allocs_rel_def spinlock_rel_def heaph_assert_def freed_def unlinked_def Let_def)
  qed
next
  case (Cons c ys)
  then obtain x where x: "a = Ptr c" "alloc_objs s c = Some x" "slist (alloc_objs s) (al_next x) (ys @ b # zs)" by auto
  have "seg (alloc_objs s) (allocs s) (us @ [c]) (al_next x)" using Cons.prems(1) x by (simp add: seg_append)
  from Cons.IH [OF this x(3)] Cons.prems x show ?case
    by (subst alloc_free_from.simps) simp
qed

lemma alloc_free_from_missing:
  assumes "slist (alloc_objs s) a us" "\<forall>c \<in> set us. al_mem (the (alloc_objs s c)) \<noteq> p" "allocs_lock s"
  shows "alloc_free_from p s prev a = fail Aborted"
  using assms
proof (induction us arbitrary: a prev)
  case Nil
  then show ?case
    by (subst alloc_free_from.simps) (simp add: allocs_rel_def spinlock_rel_def heaph_assert_def)
next
  case (Cons c us)
  then obtain x where x: "a = Ptr c" "alloc_objs s c = Some x" "slist (alloc_objs s) (al_next x) us" by auto
  from Cons.IH [OF x(3)] Cons.prems x show ?case by (subst alloc_free_from.simps) simp
qed

lemma slist_unlinked:
  assumes s: "slist h p (us @ b # vs)" and d: "distinct (us @ b # vs)"
  shows "slist (unlinked us b pool h) (if us = [] then al_next (the (h b)) else p) (us @ vs)"
proof -
  obtain x where x: "h b = Some x" using slist_alloc [OF s, of b] by auto
  have vs: "slist h (al_next x) vs" using s x by (auto simp: slist_append)
  show ?thesis
  proof (cases us rule: rev_cases)
    case Nil
    with vs x d show ?thesis by (simp add: unlinked_def Let_def)
  next
    case (snoc ws c)
    with s obtain y where y: "h c = Some y" "seg h p ws (Ptr c)" by (auto simp: slist_append seg_append)
    from snoc d have "c \<noteq> b" "c \<notin> set ws" "c \<notin> set vs" "b \<notin> set ws" "b \<notin> set vs" by auto
    with y vs x snoc show ?thesis by (simp add: unlinked_def Let_def slist_append)
  qed
qed

lemma unlinked_other: "c \<noteq> b \<Longrightarrow> h c = Some x \<Longrightarrow> \<exists>n. unlinked us b pool h c = Some (x\<lparr>al_next := n\<rparr>)"
  by (cases "c = last us") (auto simp: unlinked_def Let_def intro: exI [of _ "al_next x"])

lemma entry_next [simp]: "entry (x\<lparr>al_next := n\<rparr>) = entry x"
  by (simp add: entry_def)

text \<open>\<open>alloc_free\<close> takes out the first object with the address, also when there are several.\<close>

lemma alloc_free_takes:
  assumes calm: "calm lo hi s" and inv: "table_inv s tr pl" and cnt: "alloc_count s = int (length tr)"
    and p: "user_ptr lo hi p" "p \<in> fst ` set (entries_of s tr)"
  shows "\<exists>us b vs s'. tr = us @ b # vs \<and> fst (entry (the (alloc_objs s b))) = p \<and> alloc_free p s = ret s'
    \<and> calm lo hi s' \<and> table_inv s' (us @ vs) (b # pl) \<and> same_entries s s' \<and> object_limit s' = object_limit s
    \<and> alloc_count s' = alloc_count s - 1
    \<and> alloc_count_total s' = alloc_count_total s \<and> report_mode s' = report_mode s
    \<and> (\<forall>c \<in> set us. fst (entry (the (alloc_objs s c))) \<noteq> p)"
proof -
  have "\<exists>b \<in> set tr. al_mem (the (alloc_objs s b)) = p"
    using p(2) by (auto simp: entries_of_def entry_def)
  from split_list_first_prop [OF this] obtain us b vs where
    tr: "tr = us @ b # vs" "al_mem (the (alloc_objs s b)) = p" "\<forall>c \<in> set us. al_mem (the (alloc_objs s c)) \<noteq> p" by blast
  let ?locked = "s\<lparr>allocs_lock := True\<rparr>"
  let ?s = "freed us b ?locked"
  have sl: "slist (alloc_objs s) (allocs s) (us @ b # vs)" "distinct (us @ b # vs)"
    using inv tr(1) by (auto simp: table_inv_def)
  have "alloc_free_from p ?locked Null (allocs s) = ret ?s"
    using alloc_free_from_found [of ?locked "[]" "allocs s" us b vs p Null] sl tr cnt by simp
  then have run: "alloc_free p s = ret ?s"
    using calm calm_static [OF calm p(1)] by (simp add: alloc_free_def calm_def heaph_assert_def allocs_acq_def spinlock_acq_def)
  obtain x where x: "alloc_objs s b = Some x" using slist_alloc [OF sl(1), of b] by auto
  have "same_entries s ?s"
    unfolding same_entries_def
  proof
    fix c show "map_option entry (alloc_objs ?s c) = map_option entry (alloc_objs s c)"
    proof (cases "c = b")
      case True
      with x show ?thesis by (simp add: freed_def unlinked_def Let_def)
    next
      case False
      show ?thesis
      proof (cases "us = [] \<or> c \<noteq> last us")
        case True
        with False show ?thesis by (auto simp: freed_def unlinked_def Let_def)
      next
        case False2: False
        then have "c \<in> set (us @ b # vs)" by simp
        from slist_alloc [OF sl(1) this] obtain y where "alloc_objs s c = Some y" by blast
        with unlinked_other [of c b "alloc_objs s" y us "alloc_pool s"] False show ?thesis by (auto simp: freed_def)
      qed
    qed
  qed
  moreover have pool: "slist (alloc_objs ?s) (Ptr b) (b # pl)"
  proof -
    have "slist (alloc_objs s) (alloc_pool s) pl" using inv by (simp add: table_inv_def)
    moreover have dis: "b \<notin> set pl" "set us \<inter> set pl = {}" using inv tr(1) by (auto simp: table_inv_def)
    moreover have "us \<noteq> [] \<Longrightarrow> last us \<notin> set pl" using dis(2) last_in_set [of us] by blast
    ultimately show ?thesis by (auto simp: freed_def unlinked_def Let_def)
  qed
  have "table_inv ?s (us @ vs) (b # pl)"
    using inv tr(1) slist_unlinked [OF sl, of "alloc_pool s"] pool
    by (auto simp: table_inv_def freed_def object_limit_def)
  moreover have "calm lo hi ?s" using calm by (simp add: calm_def freed_def)
  ultimately show ?thesis
    using run tr by (intro exI [of _ us] exI [of _ b] exI [of _ vs] exI [of _ ?s])
      (simp add: entry_def freed_def object_limit_def)
qed

lemma alloc_free_ok:
  assumes rep: "hh_rep lo hi 1 s es" and p: "user_ptr lo hi p" "p \<in> fst ` set es"
  shows "\<exists>s'. alloc_free p s = ret s' \<and> hh_rep lo hi 1 s' (filter (\<lambda>e. fst e \<noteq> p) es)
    \<and> alloc_count_total s' = alloc_count_total s \<and> report_mode s' = report_mode s"
proof -
  obtain tr pl where t: "calm lo hi s" "table_inv s tr pl" "es = entries_of s tr" "distinct (map fst es)" "alloc_count s = int (length es)"
    using rep by (auto simp: hh_rep_calm)
  have cnt: "alloc_count s = int (length tr)" using t(3,5) by (simp add: entries_of_def)
  from alloc_free_takes [OF t(1,2) cnt p(1)] p(2) t(3) obtain us b vs s' where
    s': "tr = us @ b # vs" "fst (entry (the (alloc_objs s b))) = p" "alloc_free p s = ret s'" "calm lo hi s'"
      "table_inv s' (us @ vs) (b # pl)" "same_entries s s'" "alloc_count s' = alloc_count s - 1"
      "alloc_count_total s' = alloc_count_total s" "report_mode s' = report_mode s" by auto
  have es: "es = entries_of s us @ entry (the (alloc_objs s b)) # entries_of s vs"
    unfolding t(3) s'(1) by (simp add: entries_of_def)
  then have "p \<notin> fst ` set (entries_of s us)" "p \<notin> fst ` set (entries_of s vs)" using t(4) s'(2) by auto
  then have "filter (\<lambda>e. fst e \<noteq> p) (entries_of s us) = entries_of s us" "filter (\<lambda>e. fst e \<noteq> p) (entries_of s vs) = entries_of s vs"
    by (force simp: filter_id_conv)+
  then have fil: "filter (\<lambda>e. fst e \<noteq> p) es = entries_of s (us @ vs)"
    unfolding es using s'(2) by (simp add: entries_of_def)
  have "entries_of s' tr = entries_of s tr"
    using same_entries_of [OF s'(6)] t(2) by (auto simp: table_inv_def)
  then have "entries_of s' (us @ vs) = entries_of s (us @ vs)" unfolding s'(1) by (simp add: entries_of_def)
  moreover have "distinct (map fst (filter (\<lambda>e. fst e \<noteq> p) es))" using t(4) by (simp add: distinct_map_filter)
  moreover have "length (filter (\<lambda>e. fst e \<noteq> p) es) = length us + length vs" unfolding fil by (simp add: entries_of_def)
  ultimately have "hh_rep lo hi 1 s' (filter (\<lambda>e. fst e \<noteq> p) es)"
    using s'(1,4,5,7) cnt unfolding hh_rep_calm fil by auto
  with s'(3,8,9) show ?thesis by blast
qed

lemma alloc_free_bad:
  assumes rep: "hh_rep lo hi 1 s es" and p: "user_ptr lo hi p" "p \<notin> fst ` set es"
  shows "alloc_free p s = fail Aborted"
proof -
  note R = rep [unfolded hh_rep_def]
  obtain tr pl where t: "table_inv s tr pl" "es = entries_of s tr" using R by blast
  have "\<not> alloc_is_static s p" using hh_rep_static [OF rep, of p] p(1) by (auto simp: user_ptr_def)
  moreover have "alloc_free_from p (s\<lparr>allocs_lock := True\<rparr>) Null (allocs s) = fail Aborted"
    by (rule alloc_free_from_missing [where us = tr])
      (use t p(2) in \<open>auto simp: table_inv_def entries_of_def entry_def image_iff\<close>)
  ultimately show ?thesis
    using R by (simp add: alloc_free_def heaph_assert_def allocs_acq_def spinlock_acq_def)
qed

end
