(* ===== verification/Heap_Calls.thy ===== *)
theory Heap_Calls
  imports Heap
begin

text \<open>
  The wrappers on top of the table. The locale \<open>tracker\<close> is what they rely on; the table of the
  code is its instance.
\<close>

section \<open>The interface of the table\<close>

text \<open>\<open>norm\<close> is what is kept of the data that is given.\<close>

locale tracker =
  fixes track :: "nat \<Rightarrow> 'z \<Rightarrow> 's \<Rightarrow> 's res"
    and untrack :: "nat \<Rightarrow> 's \<Rightarrow> 's res"
    and rep :: "'s \<Rightarrow> (nat \<times> 'z) list \<Rightarrow> bool"
    and user :: "nat \<Rightarrow> bool"
    and norm :: "'z \<Rightarrow> 'z"
  assumes track_ok: "rep s es \<Longrightarrow> user p \<Longrightarrow> p \<notin> fst ` set es \<Longrightarrow> \<exists>s'. track p z s = ret s' \<and> rep s' ((p, norm z) # es)"
    and untrack_ok: "rep s es \<Longrightarrow> user p \<Longrightarrow> p \<in> fst ` set es \<Longrightarrow>
      \<exists>s'. untrack p s = ret s' \<and> rep s' (filter (\<lambda>e. fst e \<noteq> p) es)"
    and untrack_bad: "rep s es \<Longrightarrow> user p \<Longrightarrow> p \<notin> fst ` set es \<Longrightarrow> untrack p s = fail Aborted"
begin

text \<open>An entry that moves to another address.\<close>

lemma move_ok:
  assumes "rep s es" "user p" "p \<in> fst ` set es" "user q" "q \<notin> fst ` set (filter (\<lambda>e. fst e \<noteq> p) es)"
  shows "\<exists>s'. bindR (untrack p s) (track q z) = ret s' \<and> rep s' ((q, norm z) # filter (\<lambda>e. fst e \<noteq> p) es)"
proof -
  obtain s1 where s1: "untrack p s = ret s1" "rep s1 (filter (\<lambda>e. fst e \<noteq> p) es)"
    using untrack_ok [OF assms(1-3)] by blast
  from track_ok [OF s1(2) assms(4,5), of z] s1(1) show ?thesis by auto
qed

text \<open>Adding and removing an entry gives the old table.\<close>

lemma track_untrack:
  assumes "rep s es" "user p" "p \<notin> fst ` set es"
  shows "\<exists>s'. bindR (track p z s) (untrack p) = ret s' \<and> rep s' es"
proof -
  obtain s1 where s1: "track p z s = ret s1" "rep s1 ((p, norm z) # es)" using track_ok [OF assms] by blast
  have "filter (\<lambda>e. fst e \<noteq> p) ((p, norm z) # es) = es" using assms(3) by (force simp: filter_id_conv)
  with untrack_ok [OF s1(2) assms(2)] s1(1) show ?thesis by auto
qed

text \<open>Removing an entry twice is found out.\<close>

lemma untrack_twice:
  assumes "rep s es" "user p" "p \<in> fst ` set es"
  shows "bindR (untrack p s) (untrack p) = fail Aborted"
proof -
  obtain s1 where s1: "untrack p s = ret s1" "rep s1 (filter (\<lambda>e. fst e \<noteq> p) es)"
    using untrack_ok [OF assms] by blast
  have "untrack p s1 = fail Aborted" by (rule untrack_bad [OF s1(2) assms(2)]) auto
  with s1(1) show ?thesis by simp
qed

end

interpretation hh: tracker "\<lambda>p z s. alloc_trace_new p (fst z) (snd z) s" alloc_free "hh_rep lo hi 1" "user_ptr lo hi"
  "\<lambda>z. (fst z, take MAX_BACKTRACE_LEN (snd z))" for lo hi
proof unfold_locales
  fix s es p and z :: "size_t \<times> nat list"
  assume "hh_rep lo hi 1 s es" "user_ptr lo hi p" "p \<notin> fst ` set es"
  from alloc_trace_new_ok [OF this, of "fst z" "snd z"]
  show "\<exists>s'. alloc_trace_new p (fst z) (snd z) s = ret s' \<and> hh_rep lo hi 1 s' ((p, fst z, take MAX_BACKTRACE_LEN (snd z)) # es)"
    by blast
next
  fix s es p
  assume "hh_rep lo hi 1 s es" "user_ptr lo hi p" "p \<in> fst ` set es"
  from alloc_free_ok [OF this] show "\<exists>s'. alloc_free p s = ret s' \<and> hh_rep lo hi 1 s' (filter (\<lambda>e. fst e \<noteq> p) es)"
    by blast
next
  fix s es p
  assume "hh_rep lo hi 1 s es" "user_ptr lo hi p" "p \<notin> fst ` set es"
  then show "alloc_free p s = fail Aborted" by (rule alloc_free_bad)
qed

section \<open>Calls\<close>

datatype hh_op =
    Malloc size_t nat "nat list"
  | Calloc size_t size_t nat "nat list"
  | Realloc nat size_t nat "nat list"
  | Free nat
  | Strdup nat nat nat "nat list"
  | Getline nat nat nat "nat list"
  | Getaddrinfo int nat size_t "nat list"
  | Freeaddrinfo nat

fun hh_do :: "hh_op \<Rightarrow> heaph \<Rightarrow> heaph res" where
  "hh_do (Malloc sz lib bt) s = bindR (hh_malloc sz lib bt s) (\<lambda>r. ret (snd r))"
| "hh_do (Calloc num sz lib bt) s = bindR (hh_calloc num sz lib bt s) (\<lambda>r. ret (snd r))"
| "hh_do (Realloc p sz lib bt) s = bindR (hh_realloc p sz lib bt s) (\<lambda>r. ret (snd r))"
| "hh_do (Free p) s = hh_free p s"
| "hh_do (Strdup p lib n bt) s = bindR (hh_strdup p lib n bt s) (\<lambda>r. ret (snd r))"
| "hh_do (Getline p lib n bt) s = bindR (hh_getline p lib n bt s) (\<lambda>r. ret (snd r))"
| "hh_do (Getaddrinfo rc lib sz bt) s = bindR (hh_getaddrinfo rc lib sz bt s) (\<lambda>r. ret (snd r))"
| "hh_do (Freeaddrinfo p) s = hh_freeaddrinfo p s"

definition add_entry :: "nat \<Rightarrow> size_t \<Rightarrow> nat list \<Rightarrow> entries \<Rightarrow> entries" where
  "add_entry p sz bt es = (if p = 0 then es else (p, sz, take MAX_BACKTRACE_LEN bt) # es)"

definition drop_entry :: "nat \<Rightarrow> entries \<Rightarrow> entries" where
  "drop_entry p es = (if p = 0 then es else filter (\<lambda>e. fst e \<noteq> p) es)"

text \<open>A block that stays where it is and gets a new size, or at least that size.\<close>

definition resize_entry :: "nat \<Rightarrow> size_t \<Rightarrow> entries \<Rightarrow> entries" where
  "resize_entry p sz es = map (\<lambda>e. if fst e = p then (p, sz, snd (snd e)) else e) es"

definition grow_entry :: "nat \<Rightarrow> size_t \<Rightarrow> entries \<Rightarrow> entries" where
  "grow_entry p sz es = map (\<lambda>e. if fst e = p then (p, max (fst (snd e)) sz, snd (snd e)) else e) es"

text \<open>
  The entries that there should be after a call: those of the blocks that are allocated, each with the size
  that was asked for and the call stack of the call that it came from. A \<open>realloc\<close> that fails leaves the old
  block allocated; one to the size 0 that returns null has freed it. A buffer of \<open>getline\<close> counts with
  the length of the line it was allocated for, or a longer line it holds. \<open>lo\<close> and \<open>hi\<close> bound the static buffer.
\<close>

fun hh_spec :: "nat \<Rightarrow> nat \<Rightarrow> hh_op \<Rightarrow> entries \<Rightarrow> entries" where
  "hh_spec lo hi (Malloc sz lib bt) es = add_entry lib sz bt es"
| "hh_spec lo hi (Calloc num sz lib bt) es = add_entry lib (num * sz) bt es"
| "hh_spec lo hi (Realloc p sz lib bt) es =
     (if \<not> user_ptr lo hi p then add_entry lib sz bt es
      else if lib = p then resize_entry p sz es
      else if lib = 0 \<and> sz \<noteq> 0 then es
      else add_entry lib sz bt (drop_entry p es))"
| "hh_spec lo hi (Free p) es = (if user_ptr lo hi p then drop_entry p es else es)"
| "hh_spec lo hi (Strdup p lib n bt) es = add_entry lib (word_of_nat (n + 1)) bt es"
| "hh_spec lo hi (Getline p lib n bt) es =
     (if lib = p then grow_entry p (word_of_nat (n + 1)) es else add_entry lib (word_of_nat (n + 1)) bt (drop_entry p es))"
| "hh_spec lo hi (Getaddrinfo rc lib sz bt) es = (if rc = 0 then add_entry lib sz bt es else es)"
| "hh_spec lo hi (Freeaddrinfo p) es = drop_entry p es"

text \<open>A new address of the library is not live and not in the static buffer.\<close>

definition fresh_ptr :: "nat \<Rightarrow> nat \<Rightarrow> nat \<Rightarrow> entries \<Rightarrow> bool" where
  "fresh_ptr lo hi p es \<longleftrightarrow> p = 0 \<or> user_ptr lo hi p \<and> p \<notin> fst ` set es"

text \<open>
  The calls that are considered: a block that is freed or reallocated is allocated, and what the library
  returns is new. Left out are the calls after which the table is not what it should be: a \<open>realloc\<close> to
  a positive size that fails, a \<open>realloc\<close> that stays in place with another size, a \<open>getline\<close> that stays in
  place with a longer line.
\<close>

fun hh_allowed :: "nat \<Rightarrow> nat \<Rightarrow> hh_op \<Rightarrow> entries \<Rightarrow> bool" where
  "hh_allowed lo hi (Malloc sz lib bt) es \<longleftrightarrow> fresh_ptr lo hi lib es"
| "hh_allowed lo hi (Calloc num sz lib bt) es \<longleftrightarrow> fresh_ptr lo hi lib es"
| "hh_allowed lo hi (Realloc p sz lib bt) es \<longleftrightarrow> (user_ptr lo hi p \<longrightarrow> p \<in> fst ` set es)
     \<and> (user_ptr lo hi p \<and> lib = p \<and> (\<forall>e \<in> set es. fst e = p \<longrightarrow> fst (snd e) = sz)
       \<or> fresh_ptr lo hi lib (if user_ptr lo hi p then drop_entry p es else es)
         \<and> (user_ptr lo hi p \<longrightarrow> lib \<noteq> p \<and> (lib = 0 \<longrightarrow> sz = 0)))"
| "hh_allowed lo hi (Free p) es \<longleftrightarrow> (user_ptr lo hi p \<longrightarrow> p \<in> fst ` set es)"
| "hh_allowed lo hi (Strdup p lib n bt) es \<longleftrightarrow> user_ptr lo hi p \<and> fresh_ptr lo hi lib es"
| "hh_allowed lo hi (Getline p lib n bt) es \<longleftrightarrow> (p = 0 \<or> user_ptr lo hi p \<and> p \<in> fst ` set es \<and> lib \<noteq> 0)
     \<and> (lib = p \<and> (\<forall>e \<in> set es. fst e = p \<longrightarrow> word_of_nat (n + 1) \<le> fst (snd e)) \<or> lib \<noteq> p \<and> fresh_ptr lo hi lib (drop_entry p es))"
| "hh_allowed lo hi (Getaddrinfo rc lib sz bt) es \<longleftrightarrow> fresh_ptr lo hi lib es"
| "hh_allowed lo hi (Freeaddrinfo p) es \<longleftrightarrow> p = 0 \<or> user_ptr lo hi p \<and> p \<in> fst ` set es"

section \<open>The calls implement the specification\<close>

lemma touch_done: "hh_rep lo hi d s es \<Longrightarrow> heaph_touch s = ret s"
  by (simp add: hh_rep_def heaph_touch_def)

lemma library_done: "hh_rep lo hi d s es \<Longrightarrow> library s = ret s" "hh_rep lo hi d s es \<Longrightarrow> defaults s = LibraryFunctions"
  by (simp_all add: hh_rep_def library_def)

lemma enter: "hh_rep lo hi 0 s es \<Longrightarrow> hh_rep lo hi 1 (s\<lparr>depth := depth s + 1\<rparr>) es"
  using hh_rep_depth [of lo hi 0 s es 1] by (simp add: hh_rep_def)

lemma leave: "hh_rep lo hi 1 s es \<Longrightarrow> hh_rep lo hi 0 (s\<lparr>depth := depth s - 1\<rparr>) es"
  using hh_rep_depth [of lo hi 1 s es 0] by (simp add: hh_rep_def)

lemma add_ok:
  assumes "hh_rep lo hi 1 s es" "fresh_ptr lo hi lib es"
  shows "\<exists>s'. (if lib \<noteq> 0 then alloc_trace_new lib sz bt s else ret s) = ret s' \<and> hh_rep lo hi 1 s' (add_entry lib sz bt es)"
  using assms hh.track_ok [of lo hi s es lib "(sz, bt)"] by (auto simp: fresh_ptr_def add_entry_def)

lemma user_nonzero: "user_ptr lo hi p \<Longrightarrow> p \<noteq> 0"
  by (simp add: user_ptr_def)

lemma static_iff: "hh_rep lo hi d s es \<Longrightarrow> alloc_is_static s p \<longleftrightarrow> p \<noteq> 0 \<and> \<not> user_ptr lo hi p"
  using hh_rep_static [of lo hi d s es p] by (cases "p = 0") (auto simp: alloc_is_static_def)

lemma null_not_static [simp]: "\<not> alloc_is_static s 0"
  by (simp add: alloc_is_static_def)

lemma free_step:
  assumes rep: "hh_rep lo hi 0 s es" and p: "user_ptr lo hi p \<longrightarrow> p \<in> fst ` set es"
  shows "\<exists>s'. hh_free p s = ret s' \<and> hh_rep lo hi 0 s' (hh_spec lo hi (Free p) es)"
proof (cases "user_ptr lo hi p")
  case True
  from hh.untrack_ok [OF enter [OF rep] True] p True obtain s' where
    s': "alloc_free p (s\<lparr>depth := depth s + 1\<rparr>) = ret s'" "hh_rep lo hi 1 s' (filter (\<lambda>e. fst e \<noteq> p) es)" by blast
  with leave [OF s'(2)] library_done(2) [OF s'(2)] touch_done [OF rep] static_iff [OF rep, of p] True user_nonzero [OF True]
  show ?thesis by (simp add: hh_free_def drop_entry_def)
next
  case False
  with rep static_iff [OF rep, of p] show ?thesis by (auto simp: hh_free_def)
qed

text \<open>What \<open>realloc\<close> does to the table, whatever the library does with the block.\<close>

lemma realloc_table:
  assumes rep: "hh_rep lo hi 0 s es" and mem: "user_ptr lo hi p \<longrightarrow> p \<in> fst ` set es"
    and ok: "user_ptr lo hi p \<and> lib = p \<or> fresh_ptr lo hi lib (if user_ptr lo hi p then drop_entry p es else es)"
  shows "\<exists>s'. hh_realloc p sz lib bt s = ret (lib, s')
    \<and> hh_rep lo hi 0 s' (if \<not> user_ptr lo hi p then add_entry lib sz bt es
        else if lib = p then es else add_entry lib sz bt (drop_entry p es))"
proof -
  let ?s = "s\<lparr>depth := depth s + 1\<rparr>"
  note E = enter [OF rep]
  have st: "alloc_is_static ?s p \<longleftrightarrow> p \<noteq> 0 \<and> \<not> user_ptr lo hi p" by (rule static_iff [OF E])
  note begin_simps = hh_realloc_def touch_done [OF rep] library_done(1) [OF E] st Let_def
  show ?thesis
  proof (cases "user_ptr lo hi p")
    case False
    then have "fresh_ptr lo hi lib es" using ok by simp
    show ?thesis
    proof (cases "lib = 0")
      case True
      with leave [OF E] False show ?thesis by (cases "p = 0") (simp_all add: begin_simps add_entry_def)
    next
      case lib: False
      with add_ok [OF E \<open>fresh_ptr lo hi lib es\<close>, of sz bt] obtain s' where
        "alloc_trace_new lib sz bt ?s = ret s'" "hh_rep lo hi 1 s' (add_entry lib sz bt es)" by auto
      with leave [OF this(2)] False lib show ?thesis by (cases "p = 0") (simp_all add: begin_simps)
    qed
  next
    case True
    note p = user_nonzero [OF True]
    have d: "drop_entry p es = filter (\<lambda>e. fst e \<noteq> p) es" using p by (simp add: drop_entry_def)
    have mem: "p \<in> fst ` set es" using mem True by simp
    consider (same) "lib = p" | (failed) "lib = 0" "lib \<noteq> p"
      | (moved) "lib \<noteq> 0" "lib \<noteq> p" "user_ptr lo hi lib" "lib \<notin> fst ` set (drop_entry p es)"
      using ok True by (cases "lib = p"; cases "lib = 0") (auto simp: fresh_ptr_def)
    then show ?thesis
    proof cases
      case same
      with leave [OF E] True p show ?thesis by (simp add: begin_simps)
    next
      case failed
      from hh.untrack_ok [OF E True mem] obtain s' where
        "alloc_free p ?s = ret s'" "hh_rep lo hi 1 s' (filter (\<lambda>e. fst e \<noteq> p) es)" by blast
      with leave [OF this(2)] True p failed d show ?thesis by (simp add: begin_simps add_entry_def)
    next
      case moved
      from hh.move_ok [OF E True mem moved(3) moved(4) [unfolded d], of "(sz, bt)"] obtain s' where
        "bindR (alloc_free p ?s) (alloc_trace_new lib sz bt) = ret s'"
        "hh_rep lo hi 1 s' ((lib, sz, take MAX_BACKTRACE_LEN bt) # filter (\<lambda>e. fst e \<noteq> p) es)" by auto
      with leave [OF this(2)] True p moved d show ?thesis by (simp add: begin_simps add_entry_def)
    qed
  qed
qed

lemma resize_same: "(\<forall>e \<in> set es. fst e = p \<longrightarrow> fst (snd e) = sz) \<Longrightarrow> resize_entry p sz es = es"
  unfolding resize_entry_def by (intro map_idI) force

lemma grow_same: "(\<forall>e \<in> set es. fst e = p \<longrightarrow> sz \<le> fst (snd e)) \<Longrightarrow> grow_entry p sz es = es"
  unfolding grow_entry_def by (intro map_idI) (force simp: max_absorb1)

lemma realloc_step:
  assumes rep: "hh_rep lo hi 0 s es" and ok: "hh_allowed lo hi (Realloc p sz lib bt) es"
  shows "\<exists>s'. hh_realloc p sz lib bt s = ret (lib, s') \<and> hh_rep lo hi 0 s' (hh_spec lo hi (Realloc p sz lib bt) es)"
proof -
  have 1: "user_ptr lo hi p \<longrightarrow> p \<in> fst ` set es"
    "user_ptr lo hi p \<and> lib = p \<or> fresh_ptr lo hi lib (if user_ptr lo hi p then drop_entry p es else es)"
    using ok by auto
  have e: "(if \<not> user_ptr lo hi p then add_entry lib sz bt es
      else if lib = p then es else add_entry lib sz bt (drop_entry p es)) = hh_spec lo hi (Realloc p sz lib bt) es"
    using ok resize_same [of es p sz] by auto
  show ?thesis using realloc_table [OF rep 1, of sz bt] unfolding e .
qed

lemma getline_step:
  assumes rep: "hh_rep lo hi 0 s es" and ok: "hh_allowed lo hi (Getline p lib n bt) es"
  shows "\<exists>s'. hh_getline p lib n bt s = ret (lib, s') \<and> hh_rep lo hi 0 s' (hh_spec lo hi (Getline p lib n bt) es)"
proof -
  let ?s = "s\<lparr>depth := depth s + 1\<rparr>"
  note E = enter [OF rep]
  have st: "\<not> alloc_is_static ?s p" using static_iff [OF E, of p] ok by (auto simp: user_ptr_def)
  note begin_simps = hh_getline_def touch_done [OF rep] library_done(1) [OF E] st heaph_assert_def Let_def
  consider (same) "lib = p" "grow_entry p (word_of_nat (n + 1)) es = es" | (first) "p = 0" "lib \<noteq> 0" "fresh_ptr lo hi lib es"
    | (moved) "p \<noteq> 0" "lib \<noteq> p" "lib \<noteq> 0" "user_ptr lo hi p" "p \<in> fst ` set es" "fresh_ptr lo hi lib (drop_entry p es)"
    using ok grow_same [of es p "word_of_nat (n + 1)"] by (cases "lib = p"; cases "p = 0") (auto simp: drop_entry_def)
  then show ?thesis
  proof cases
    case same
    with leave [OF E] show ?thesis by (cases "p = 0") (simp_all add: begin_simps)
  next
    case first
    from add_ok [OF E first(3), of "word_of_nat (n + 1)" bt] first(2) obtain s' where
      "alloc_trace_new lib (word_of_nat (n + 1)) bt ?s = ret s'" "hh_rep lo hi 1 s' (add_entry lib (word_of_nat (n + 1)) bt es)"
      by auto
    with leave [OF this(2)] first show ?thesis by (simp add: begin_simps drop_entry_def)
  next
    case moved
    have d: "drop_entry p es = filter (\<lambda>e. fst e \<noteq> p) es" using moved(1) by (simp add: drop_entry_def)
    have lib: "user_ptr lo hi lib" "lib \<notin> fst ` set (filter (\<lambda>e. fst e \<noteq> p) es)"
      using moved(3,6) d by (auto simp: fresh_ptr_def)
    from hh.move_ok [OF E moved(4,5) lib, of "(word_of_nat (n + 1), bt)"] obtain s' where
      "bindR (alloc_free p ?s) (alloc_trace_new lib (word_of_nat (n + 1)) bt) = ret s'"
      "hh_rep lo hi 1 s' ((lib, word_of_nat (n + 1), take MAX_BACKTRACE_LEN bt) # filter (\<lambda>e. fst e \<noteq> p) es)" by auto
    with leave [OF this(2)] moved d show ?thesis by (simp add: begin_simps add_entry_def)
  qed
qed

lemma hh_step:
  assumes rep: "hh_rep lo hi 0 s es" and ok: "hh_allowed lo hi oper es"
  shows "\<exists>s'. hh_do oper s = ret s' \<and> hh_rep lo hi 0 s' (hh_spec lo hi oper es)"
proof -
  note E = enter [OF rep]
  have add: "\<exists>s'. (if lib \<noteq> 0 then alloc_trace_new lib sz bt (s\<lparr>depth := depth s + 1\<rparr>) else ret (s\<lparr>depth := depth s + 1\<rparr>)) = ret s'
      \<and> hh_rep lo hi 0 (s'\<lparr>depth := depth s' - 1\<rparr>) (add_entry lib sz bt es)"
    if "fresh_ptr lo hi lib es" for lib sz bt
    using add_ok [OF E that, of sz bt] leave by blast
  note begin_simps = touch_done [OF rep] library_done [OF E] library_done(2) [OF rep] Let_def
  show ?thesis
  proof (cases oper)
    case (Malloc sz lib bt)
    with add [of lib sz bt] ok show ?thesis by (auto simp: hh_malloc_def malloc_body_def begin_simps)
  next
    case (Calloc num sz lib bt)
    with add [of lib "num * sz" bt] ok show ?thesis by (auto simp: hh_calloc_def begin_simps)
  next
    case (Realloc p sz lib bt)
    with realloc_step [OF rep, of p sz lib bt] ok show ?thesis by auto
  next
    case (Free p)
    with free_step [OF rep, of p] ok show ?thesis by simp
  next
    case (Strdup p lib n bt)
    then have "\<not> alloc_is_static s p" "\<not> is_exit_done s"
      using static_iff [OF rep, of p] ok rep by (auto simp: hh_rep_def)
    with Strdup add [of lib "word_of_nat (n + 1)" bt] ok show ?thesis
      by (auto simp: hh_strdup_def begin_simps heaph_assert_def)
  next
    case (Getline p lib n bt)
    with getline_step [OF rep, of p lib n bt] ok show ?thesis by auto
  next
    case (Getaddrinfo rc lib sz bt)
    with add [of lib sz bt] leave [OF E] ok show ?thesis by (auto simp: hh_getaddrinfo_def begin_simps)
  next
    case (Freeaddrinfo p)
    show ?thesis
    proof (cases "p = 0")
      case True
      with Freeaddrinfo rep show ?thesis by (simp add: hh_freeaddrinfo_def drop_entry_def)
    next
      case False
      with Freeaddrinfo ok have p: "user_ptr lo hi p" "p \<in> fst ` set es" by auto
      from hh.untrack_ok [OF E p] obtain s' where
        s': "alloc_free p (s\<lparr>depth := depth s + 1\<rparr>) = ret s'" "hh_rep lo hi 1 s' (filter (\<lambda>e. fst e \<noteq> p) es)" by blast
      with leave [OF s'(2)] library_done(1) [OF s'(2)] Freeaddrinfo False static_iff [OF rep, of p] p(1) show ?thesis
        by (simp add: hh_freeaddrinfo_def heaph_assert_def begin_simps drop_entry_def)
    qed
  qed
qed

section \<open>Sequences of calls\<close>

fun hh_run :: "hh_op list \<Rightarrow> heaph \<Rightarrow> heaph res" where
  "hh_run [] s = ret s"
| "hh_run (oper # ops) s = bindR (hh_do oper s) (hh_run ops)"

fun hh_spec_run :: "nat \<Rightarrow> nat \<Rightarrow> hh_op list \<Rightarrow> entries \<Rightarrow> entries" where
  "hh_spec_run lo hi [] es = es"
| "hh_spec_run lo hi (oper # ops) es = hh_spec_run lo hi ops (hh_spec lo hi oper es)"

fun hh_all_allowed :: "nat \<Rightarrow> nat \<Rightarrow> hh_op list \<Rightarrow> entries \<Rightarrow> bool" where
  "hh_all_allowed lo hi [] es \<longleftrightarrow> True"
| "hh_all_allowed lo hi (oper # ops) es \<longleftrightarrow> hh_allowed lo hi oper es \<and> hh_all_allowed lo hi ops (hh_spec lo hi oper es)"

lemma hh_run_ok:
  assumes "hh_rep lo hi 0 s es" "hh_all_allowed lo hi ops es"
  shows "\<exists>s'. hh_run ops s = ret s' \<and> hh_rep lo hi 0 s' (hh_spec_run lo hi ops es)"
  using assms
proof (induction ops arbitrary: s es)
  case (Cons oper ops)
  then obtain s1 where "hh_do oper s = ret s1" "hh_rep lo hi 0 s1 (hh_spec lo hi oper es)"
    using hh_step [of lo hi s es oper] by auto
  with Cons.IH [OF this(2)] Cons.prems(2) show ?case by simp
qed auto

lemma alloc_count_ok:
  "hh_rep lo hi d s es \<Longrightarrow> \<exists>s'. heaph_get_alloc_count s = ret (word_of_nat (length es), s') \<and> hh_rep lo hi d s' es"
  by (intro exI [of _ "s\<lparr>allocs_lock := False\<rparr>"])
    (simp add: hh_rep_def heaph_get_alloc_count_def allocs_acq_def allocs_rel_def spinlock_acq_def spinlock_rel_def)

section \<open>What the checker finds, and what it gets wrong\<close>

text \<open>A free of an address that is not live aborts.\<close>

lemma bad_free:
  assumes rep: "hh_rep lo hi 0 s es" and p: "user_ptr lo hi p" "p \<notin> fst ` set es"
  shows "hh_free p s = fail Aborted"
  using hh.untrack_bad [OF enter [OF rep] p] static_iff [OF rep, of p] touch_done [OF rep] p(1) user_nonzero [OF p(1)]
  by (simp add: hh_free_def)

text \<open>After a \<open>realloc\<close> that failed the old block is still live, but its entry is gone: freeing it aborts.\<close>

lemma failed_realloc:
  assumes rep: "hh_rep lo hi 0 s es" and p: "user_ptr lo hi p" "p \<in> fst ` set es"
  shows "\<exists>s'. hh_realloc p sz 0 bt s = ret (0, s') \<and> hh_free p s' = fail Aborted"
proof -
  from realloc_table [OF rep, of p 0 sz bt] p user_nonzero [OF p(1)] obtain s' where
    s': "hh_realloc p sz 0 bt s = ret (0, s')" "hh_rep lo hi 0 s' (filter (\<lambda>e. fst e \<noteq> p) es)"
    by (auto simp: add_entry_def drop_entry_def fresh_ptr_def)
  have "hh_free p s' = fail Aborted" by (rule bad_free [OF s'(2) p(1)]) auto
  with s'(1) show ?thesis by blast
qed

text \<open>A \<open>realloc\<close> that stays in place keeps the old size in the table.\<close>

lemma realloc_in_place:
  assumes rep: "hh_rep lo hi 0 s es" and p: "user_ptr lo hi p" "p \<in> fst ` set es"
  shows "\<exists>s'. hh_realloc p sz p bt s = ret (p, s') \<and> hh_rep lo hi 0 s' es"
  using realloc_table [OF rep, of p p sz bt] p by simp

text \<open>An allocation right behind the static buffer is taken for a static one and not recorded.\<close>

lemma behind_static_buffer:
  assumes rep: "hh_rep lo hi 0 s es" and hi: "hi \<noteq> 0"
  shows "\<exists>s'. hh_malloc sz hi bt s = ret (hi, s') \<and> hh_rep lo hi 0 s' es"
proof -
  note E = enter [OF rep]
  have "lo \<le> hi" using rep by (auto simp: hh_rep_def)
  then have "alloc_is_static (s\<lparr>depth := depth s + 1\<rparr>) hi" using static_iff [OF E, of hi] hi by (simp add: user_ptr_def)
  with leave [OF E] touch_done [OF rep] library_done(2) [OF rep] hi show ?thesis
    by (intro exI) (auto simp: hh_malloc_def malloc_body_def Let_def alloc_trace_new_def alloc_trace_begin_def)
qed

end
