(* ===== verification/Heap_Threads_Model.thy ===== *)
theory Heap_Threads_Model
  imports Heap_Calls Owned_Heap
begin

text \<open>
  Several threads in the wrappers of heap_help.c. The table is protected by a spinlock, but a call
  takes it more than once, and calls the C library in between; a thread is at a point between two
  critical sections, and the sections of the threads interleave in any order. The variable
  \<open>depth\<close> is thread-local; it is 1 for every thread inside a wrapper. The C library's heap is the set
  of its live blocks. Two parts of the state only record history: \<open>owned\<close> are the blocks that the
  program's threads hold, and \<open>lost\<close> those that they hold after a \<open>realloc\<close> of them has failed.
\<close>

text \<open>
  Where a thread is: outside the wrappers; with a block from the library, before and after the first
  critical section of \<open>alloc_trace_new\<close>; before \<open>alloc_free\<close> and between it and the library's \<open>free\<close>;
  after a library \<open>realloc\<close> (or \<open>getline\<close>) that moved the block \<open>p\<close> to \<open>q\<close>, before \<open>alloc_free\<close>;
  after a library \<open>realloc\<close> of \<open>p\<close> that returned null, and had freed \<open>p\<close> or not, before \<open>alloc_free\<close>.
\<close>

datatype hh_thread =
    Idle
  | Got nat size_t "nat list"
  | Filled nat ptr
  | Freeing nat
  | Freed nat
  | Moving nat nat size_t "nat list"
  | Nulled nat bool

record hh_sys =
  hh :: heaph
  threads :: "hh_thread list"
  live :: "nat set"
  owned :: "nat multiset"
  lost :: "nat multiset"

definition set_thread :: "nat \<Rightarrow> hh_thread \<Rightarrow> hh_sys \<Rightarrow> hh_sys" where
  "set_thread i t c = c\<lparr>threads := (threads c)[i := t]\<rparr>"

definition hh_sys_start :: "heaph \<Rightarrow> nat \<Rightarrow> hh_sys" where
  "hh_sys_start s n = \<lparr>hh = s\<lparr>depth := 1\<rparr>, threads = replicate n Idle, live = {}, owned = {#}, lost = {#}\<rparr>"

text \<open>
  \<open>GetBlock\<close>: \<open>malloc\<close>, \<open>calloc\<close>, \<open>strdup\<close>, \<open>getaddrinfo\<close>, or \<open>realloc\<close> and \<open>getline\<close> of a null pointer, when
  the library gives the block \<open>p\<close>. \<open>FreeBlock\<close>: \<open>free\<close> and \<open>freeaddrinfo\<close>. \<open>MoveBlock\<close>: \<open>realloc\<close> and
  \<open>getline\<close> that move \<open>p\<close> to \<open>q\<close>; the library frees \<open>p\<close> there. \<open>NullBlock\<close>: \<open>realloc\<close> of \<open>p\<close> that returns null,
  because it failed, or because the new size is 0 and the library freed \<open>p\<close>. \<open>NoChange\<close>: the calls after
  which the wrapper does nothing: \<open>realloc\<close> and \<open>getline\<close> that leave the block where it is, and an allocation
  that fails. \<open>Continue\<close>: the thread's next section. (The assertions of \<open>strdup\<close>, \<open>getline\<close> and
  \<open>freeaddrinfo\<close> before the first section look at the argument and \<open>is_exit_done\<close> only; they are in
  the wrappers of Heap_Model.)
\<close>

datatype hh_act =
    GetBlock nat nat size_t "nat list"
  | FreeBlock nat nat
  | MoveBlock nat nat nat size_t "nat list"
  | NullBlock nat nat bool
  | NoChange nat
  | Continue nat

definition thread_step :: "nat \<Rightarrow> hh_sys \<Rightarrow> hh_sys res" where
  "thread_step i c = (case threads c ! i of
      Idle \<Rightarrow> ret c
    | Got p sz bt \<Rightarrow>
        bindR (alloc_trace_begin p sz bt (hh c)) (\<lambda>(a, s).
        case a of
          None \<Rightarrow> ret (set_thread i Idle (c\<lparr>hh := s, owned := add_mset p (owned c)\<rparr>))
        | Some a \<Rightarrow> ret (set_thread i (Filled p a) (c\<lparr>hh := s\<rparr>)))
    | Filled p a \<Rightarrow>
        bindR (alloc_trace_end a (hh c)) (\<lambda>s.
        ret (set_thread i Idle (c\<lparr>hh := s, owned := add_mset p (owned c)\<rparr>)))
    | Freeing p \<Rightarrow>
        bindR (alloc_free p (hh c)) (\<lambda>s. ret (set_thread i (Freed p) (c\<lparr>hh := s\<rparr>)))
    | Freed p \<Rightarrow>
        bindR (library (hh c)) (\<lambda>s.
        if p \<in> live c then ret (set_thread i Idle (c\<lparr>hh := s, live := live c - {p}\<rparr>)) else fail DoubleFree)
    | Moving p q sz bt \<Rightarrow>
        bindR (alloc_free p (hh c)) (\<lambda>s. ret (set_thread i (Got q sz bt) (c\<lparr>hh := s\<rparr>)))
    | Nulled p gone \<Rightarrow>
        bindR (alloc_free p (hh c)) (\<lambda>s.
        ret (set_thread i Idle (c\<lparr>hh := s, lost := if gone then lost c else add_mset p (lost c)\<rparr>))))"

fun hh_act_do :: "hh_act \<Rightarrow> hh_sys \<Rightarrow> hh_sys res" where
  "hh_act_do (GetBlock i p sz bt) c =
     bindR (heaph_touch (hh c)) (\<lambda>s.
     bindR (library s) (\<lambda>s.
     ret (set_thread i (Got p sz bt) (c\<lparr>hh := s, live := insert p (live c)\<rparr>))))"
| "hh_act_do (FreeBlock i p) c =
     (if alloc_is_static (hh c) p then ret c
      else bindR (heaph_touch (hh c)) (\<lambda>s.
        ret (set_thread i (Freeing p) (c\<lparr>hh := s, owned := owned c - {#p#}\<rparr>))))"
| "hh_act_do (MoveBlock i p q sz bt) c =
     bindR (heaph_touch (hh c)) (\<lambda>s.
     bindR (library s) (\<lambda>s.
     ret (set_thread i (Moving p q sz bt)
       (c\<lparr>hh := s, live := insert q (live c - {p}), owned := owned c - {#p#}\<rparr>))))"
| "hh_act_do (NullBlock i p gone) c =
     bindR (heaph_touch (hh c)) (\<lambda>s.
     bindR (library s) (\<lambda>s.
     ret (set_thread i (Nulled p gone)
       (c\<lparr>hh := s, live := if gone then live c - {p} else live c, owned := owned c - {#p#}\<rparr>))))"
| "hh_act_do (NoChange i) c =
     bindR (heaph_touch (hh c)) (\<lambda>s.
     bindR (library s) (\<lambda>s. ret (c\<lparr>hh := s\<rparr>)))"
| "hh_act_do (Continue i) c = thread_step i c"

text \<open>
  The rules: a thread frees or reallocates only blocks the program holds, but none that it holds after
  a \<open>realloc\<close> of it has failed, and the library gives only addresses that are not in use.
\<close>

fun act_allowed :: "nat \<Rightarrow> nat \<Rightarrow> hh_act \<Rightarrow> hh_sys \<Rightarrow> bool" where
  "act_allowed lo hi (GetBlock i p sz bt) c \<longleftrightarrow>
     i < length (threads c) \<and> threads c ! i = Idle \<and> user_ptr lo hi p \<and> p \<notin> live c"
| "act_allowed lo hi (FreeBlock i p) c \<longleftrightarrow> i < length (threads c) \<and> threads c ! i = Idle \<and> p \<in># owned c"
| "act_allowed lo hi (MoveBlock i p q sz bt) c \<longleftrightarrow>
     i < length (threads c) \<and> threads c ! i = Idle \<and> p \<in># owned c \<and> user_ptr lo hi q \<and> q \<notin> live c"
| "act_allowed lo hi (NullBlock i p gone) c \<longleftrightarrow> i < length (threads c) \<and> threads c ! i = Idle \<and> p \<in># owned c"
| "act_allowed lo hi (NoChange i) c \<longleftrightarrow> i < length (threads c) \<and> threads c ! i = Idle"
| "act_allowed lo hi (Continue i) c \<longleftrightarrow> i < length (threads c) \<and> threads c ! i \<noteq> Idle"

inductive hh_reach :: "nat \<Rightarrow> nat \<Rightarrow> nat \<Rightarrow> hh_sys \<Rightarrow> bool" for lo hi n where
  start: "hh_rep lo hi 0 s [] \<Longrightarrow> hh_reach lo hi n (hh_sys_start s n)"
| step: "hh_reach lo hi n c \<Longrightarrow> act_allowed lo hi act c \<Longrightarrow> hh_act_do act c = ret c' \<Longrightarrow> hh_reach lo hi n c'"

fun hh_acts :: "hh_act list \<Rightarrow> hh_sys \<Rightarrow> hh_sys res" where
  "hh_acts [] c = ret c"
| "hh_acts (a # as) c = bindR (hh_act_do a c) (hh_acts as)"

end
