(* ===== verification/Heap_Report.thy ===== *)
theory Heap_Report
  imports Heap_Calls
begin

text \<open>The static allocator during the initialisation, and the report at exit.\<close>

section \<open>The static allocator\<close>

text \<open>While the wrappers are initialised, at address \<open>b\<close> and with \<open>u\<close> bytes given out.\<close>

definition starting :: "nat \<Rightarrow> nat \<Rightarrow> heaph \<Rightarrow> bool" where
  "starting b u s \<longleftrightarrow> \<not> is_init_done s \<and> init_lock s \<and> 0 < b \<and> depth s = 0 \<and> defaults s = StaticFunctions
     \<and> static_used s = u
     \<and> (static_buf s = 0 \<and> static_size s = 0 \<and> os_mmap s = Some b \<and> u = 0 \<or> static_buf s = b \<and> static_size s = 16 * 1024)"

lemma static_malloc_ok:
  assumes "starting b u s" "u + unat sz < 16 * 1024"
  shows "\<exists>s'. malloc_body sz lib bt s = ret (b + u, s') \<and> starting b (u + unat sz) s' \<and> static_buf s' = b
    \<and> s' = s\<lparr>static_size := 16 * 1024, static_buf := b, static_used := u + unat sz\<rparr>"
proof -
  let ?s = "s\<lparr>static_size := 16 * 1024, static_buf := b, static_used := u + unat sz\<rparr>"
  have "malloc_body sz lib bt s = ret (b + u, ?s)"
    using assms by (auto simp: starting_def malloc_body_def Let_def static_malloc_def heaph_assert_def
        static_allocator_touch_def alloc_trace_new_def alloc_trace_begin_def alloc_is_static_def)
  moreover have "starting b (u + unat sz) ?s" using assms(1) by (auto simp: starting_def)
  ultimately show ?thesis by auto
qed

lemma static_malloc_full:
  assumes "starting b u s" "16 * 1024 \<le> u + unat sz" "u \<le> 16 * 1024"
  shows "malloc_body sz lib bt s = fail Aborted"
  using assms by (auto simp: starting_def malloc_body_def Let_def static_malloc_def heaph_assert_def static_allocator_touch_def)

lemma dlsym_requests_ok:
  assumes "starting b u s" "u + sum_list (map unat szs) < 16 * 1024"
  shows "\<exists>s'. dlsym_requests szs s = ret s' \<and> starting b (u + sum_list (map unat szs)) s'
    \<and> (szs = [] \<and> s' = s \<or> s' = s\<lparr>static_size := 16 * 1024, static_buf := b, static_used := u + sum_list (map unat szs)\<rparr>)"
  using assms
proof (induction szs arbitrary: s u)
  case (Cons sz szs)
  have "u + unat sz < 16 * 1024" using Cons.prems(2) by simp
  from static_malloc_ok [OF Cons.prems(1) this, of 0 "[]"] obtain s1 where
    s1: "malloc_body sz 0 [] s = ret (b + u, s1)" "starting b (u + unat sz) s1"
      "s1 = s\<lparr>static_size := 16 * 1024, static_buf := b, static_used := u + unat sz\<rparr>" by blast
  have "u + unat sz + sum_list (map unat szs) < 16 * 1024" using Cons.prems(2) by simp
  from Cons.IH [OF s1(2) this] obtain s2 where
    s2: "dlsym_requests szs s1 = ret s2" "starting b (u + unat sz + sum_list (map unat szs)) s2"
      "szs = [] \<and> s2 = s1 \<or> s2 = s1\<lparr>static_size := 16 * 1024, static_buf := b, static_used := u + unat sz + sum_list (map unat szs)\<rparr>" by blast
  from s2(3) have "s2 = s\<lparr>static_size := 16 * 1024, static_buf := b, static_used := u + unat sz + sum_list (map unat szs)\<rparr>"
  proof
    assume "szs = [] \<and> s2 = s1"
    then show ?thesis by (simp add: s1(3))
  qed (simp add: s1(3))
  with s1(1) s2(1,2) show ?case by (simp add: add.assoc)
qed simp

text \<open>The first call initialises the wrappers; the table is empty then.\<close>

lemma first_touch:
  assumes "sum_list (map unat mallocs) < 16 * 1024" "0 < b"
  shows "\<exists>s lo hi. heaph_touch (heaph_start mallocs rep_env (Some b)) = ret s \<and> hh_rep lo hi 0 s []
    \<and> (mallocs = [] \<and> lo = 0 \<and> hi = 0 \<or> lo = b \<and> hi = b + 16 * 1024)
    \<and> report_mode s = (if rep_env = Some ''v'' then MODE_VERBOSE else if rep_env = Some ''q'' then MODE_QUIET else MODE_LEAKS)"
proof -
  let ?s1 = "heaph_start mallocs rep_env (Some b)\<lparr>init_lock := True, init_lock_count := 1, defaults := StaticFunctions\<rparr>"
  have "starting b 0 ?s1" using assms(2) by (simp add: starting_def heaph_start_def)
  from dlsym_requests_ok [OF this, of mallocs] assms(1) obtain s2 where
    s2: "dlsym_requests mallocs ?s1 = ret s2"
      "mallocs = [] \<and> s2 = ?s1 \<or> s2 = ?s1\<lparr>static_size := 16 * 1024, static_buf := b, static_used := sum_list (map unat mallocs)\<rparr>" by auto
  let ?m = "if rep_env = Some ''v'' then MODE_VERBOSE else if rep_env = Some ''q'' then MODE_QUIET else MODE_LEAKS"
  let ?s = "s2\<lparr>defaults := LibraryFunctions, report_mode := ?m, is_init_done := True, init_lock_count := 0, init_lock := False\<rparr>"
  have f: "os_hhreport s2 = rep_env" "report_mode s2 = MODE_LEAKS" "init_lock_count s2 = 1" "init_lock s2" "\<not> is_init_done s2"
    using s2(2) by (auto simp: heaph_start_def)
  have lock: "heaph_lock (heaph_start mallocs rep_env (Some b)) =
      ret (heaph_start mallocs rep_env (Some b)\<lparr>init_lock := True, init_lock_count := 1\<rparr>)"
    by (simp add: heaph_lock_def spinlock_acq_def heaph_start_def)
  have "s2\<lparr>defaults := LibraryFunctions\<rparr> = s2\<lparr>defaults := LibraryFunctions, report_mode := MODE_LEAKS\<rparr>"
    using f(2) by simp
  moreover have "os_dlsym_mallocs (heaph_start mallocs rep_env (Some b)) = mallocs" by (simp add: heaph_start_def)
  ultimately have init: "heaph_init (heaph_start mallocs rep_env (Some b)\<lparr>init_lock := True, init_lock_count := 1\<rparr>) =
      ret (s2\<lparr>defaults := LibraryFunctions, report_mode := ?m\<rparr>)"
    using s2(1) f(1) by (simp add: heaph_init_def Let_def split: option.split)
  have start: "\<not> is_init_done (heaph_start mallocs rep_env (Some b))" "init_lock_count (heaph_start mallocs rep_env (Some b)) = 0"
    by (simp_all add: heaph_start_def)
  have "heaph_touch (heaph_start mallocs rep_env (Some b)) = ret ?s"
    using lock init f(3-5) by (simp add: heaph_touch_def heaph_touch_slow_def start heaph_unlock_def heaph_assert_def spinlock_rel_def Let_def)
  moreover have "table_inv ?s [] []" "entries_of ?s [] = []"
    using s2(2) by (auto simp: table_inv_def entries_of_def heaph_start_def)
  then have "hh_rep (static_buf ?s) (static_buf ?s + static_size ?s) 0 ?s []"
    using s2(2) unfolding hh_rep_def by (intro conjI exI [of _ "[]"]) (auto simp: heaph_start_def)
  moreover have "mallocs = [] \<and> static_buf ?s = 0 \<and> static_size ?s = 0 \<or> static_buf ?s = b \<and> static_size ?s = 16 * 1024"
    using s2(2) by (auto simp: heaph_start_def)
  ultimately show ?thesis
    by (intro exI [of _ ?s] exI [of _ "static_buf ?s"] exI [of _ "static_buf ?s + static_size ?s"]) auto
qed

section \<open>The report\<close>

text \<open>Entries that are reported: recorded with a call stack, and not from inside the library.\<close>

definition visible :: "(nat \<Rightarrow> symbol option) \<Rightarrow> nat \<times> size_t \<times> nat list \<Rightarrow> bool" where
  "visible dladdr e \<longleftrightarrow> snd (snd e) \<noteq> [] \<and> \<not> trace_is_internal (fst (trace_resolve dladdr (snd (snd e))))"

text \<open>The messages for an entry before which \<open>v\<close> visible ones have come: the first ten of these are shown.\<close>

definition entry_message :: "(nat \<Rightarrow> symbol option) \<Rightarrow> nat \<Rightarrow> nat \<times> size_t \<times> nat list \<Rightarrow> message list" where
  "entry_message dladdr v e = (case e of (p, sz, tr) \<Rightarrow> case trace_resolve dladdr tr of (sbs, failures) \<Rightarrow>
     failures @ (if visible dladdr e \<and> v < 10 then [Leak (int v + 1) sz (map sym_name sbs)] else []))"

definition entry_messages :: "(nat \<Rightarrow> symbol option) \<Rightarrow> nat \<Rightarrow> entries \<Rightarrow> message list" where
  "entry_messages dladdr v es =
     concat (map (\<lambda>i. entry_message dladdr (v + length (filter (visible dladdr) (take i es))) (es ! i)) [0..<length es])"

lemma entry_messages_simps [simp]:
  "entry_messages dladdr v [] = []"
  "entry_messages dladdr v (e # es) =
     entry_message dladdr v e @ entry_messages dladdr (if visible dladdr e then Suc v else v) es"
proof -
  have "[0..<length (e # es)] = 0 # map Suc [0..<length es]" by (simp add: upt_conv_Cons map_Suc_upt del: upt_Suc)
  then show "entry_messages dladdr v (e # es) =
     entry_message dladdr v e @ entry_messages dladdr (if visible dladdr e then Suc v else v) es"
    by (simp add: entry_messages_def comp_def del: upt_Suc)
qed (simp add: entry_messages_def)

text \<open>When all addresses have symbols, these are the first ten visible entries, numbered.\<close>

lemma entry_messages_known:
  assumes "\<And>a. dladdr a \<noteq> None"
  shows "entry_messages dladdr v es = map (\<lambda>(i, p, sz, tr). Leak (int i + 1) sz (map sym_name (fst (trace_resolve dladdr tr))))
    (enumerate v (take (10 - v) (filter (visible dladdr) es)))"
proof -
  have none: "snd (trace_resolve dladdr tr) = []" for tr
    using assms by (induction tr) (auto simp: case_prod_beta Let_def split: option.split)
  have one: "entry_message dladdr v e = (if visible dladdr e \<and> v < 10
      then [Leak (int v + 1) (fst (snd e)) (map sym_name (fst (trace_resolve dladdr (snd (snd e)))))] else [])" for v e
    using none by (simp add: entry_message_def case_prod_beta)
  show ?thesis
  proof (induction es arbitrary: v)
    case (Cons e es)
    show ?case
    proof (cases "visible dladdr e \<and> v < 10")
      case True
      then have "10 - v = Suc (10 - Suc v)" by arith
      with True Cons.IH [of "Suc v"] show ?thesis by (simp add: one case_prod_beta)
    next
      case False
      with Cons.IH [of v] Cons.IH [of "Suc v"] show ?thesis by (auto simp: one)
    qed
  qed simp
qed

definition leak_total :: "entries \<Rightarrow> 64 word" where
  "leak_total es = sum_list (map (\<lambda>e. fst (snd e)) es)"

text \<open>What is printed for the entries \<open>es\<close>, of which the first ten visible ones in full.\<close>

definition report :: "(nat \<Rightarrow> symbol option) \<Rightarrow> report_mode \<Rightarrow> 64 word \<Rightarrow> entries \<Rightarrow> message list" where
  "report dladdr m tot es =
     (let vis = filter (visible dladdr) es in
      if m = MODE_QUIET then []
      else if es = [] then (if m = MODE_VERBOSE then [NoLeaks, TotalCount tot] else [])
      else if vis = [] \<and> m \<noteq> MODE_VERBOSE then entry_messages dladdr 0 es
      else entry_messages dladdr 0 es @ [FoundLeaks (int (length vis)) (leak_total vis)]
        @ (if length es \<noteq> length vis then [SuppressedLeaks (int (length es) - int (length vis))] else [])
        @ (if 10 < length vis then [OnlyFirst 10] else []) @ [TotalCount tot])"

lemma report_loop_ok:
  assumes "slist (alloc_objs s) a us" "es = entries_of s us" "count = int (length us + v)" "rc = int (min 10 v)"
  shows "report_loop dladdr s a count rc sz out =
    ret (let vis = filter (visible dladdr) es in
      (int (v + length vis), int (min 10 (v + length vis)), sz + leak_total vis, out @ entry_messages dladdr v es))"
  using assms
proof (induction us arbitrary: a es count rc v sz out)
  case Nil
  then show ?case by (simp add: report_loop.simps entries_of_def leak_total_def Let_def)
next
  case (Cons c us)
  then obtain x where x: "a = Ptr c" "alloc_objs s c = Some x" "slist (alloc_objs s) (al_next x) us" by auto
  let ?es = "entries_of s us"
  have es: "es = entry x # ?es" using Cons.prems(2) x(2) by (simp add: entries_of_def)
  have cnt: "0 < count" "count - 1 = int (length us + v)" "count = int (length us + Suc v)" using Cons.prems(3) by simp_all
  obtain sbs failures where tr: "trace_resolve dladdr (al_trace x) = (sbs, failures)" by (metis surj_pair)
  have notr: "al_trace x = [] \<Longrightarrow> failures = []" using tr by simp
  note step = report_loop.simps [of dladdr s a count rc sz out]
  note unfold = visible_def entry_message_def entry_def heaph_assert_def report_limit_def Let_def tr
  show ?case
  proof (cases "visible dladdr (entry x)")
    case False
    have "report_loop dladdr s a count rc sz out =
        report_loop dladdr s (al_next x) (count - 1) rc sz (out @ entry_message dladdr v (entry x))"
      using False x cnt(1) notr by (subst step) (auto simp: unfold)
    with Cons.IH [OF x(3) refl cnt(2) Cons.prems(4)] False show ?thesis by (simp add: es)
  next
    case vis: True
    have "rc < 10 \<longleftrightarrow> v < 10" "v < 10 \<Longrightarrow> rc = int v" using Cons.prems(4) by auto
    then have "report_loop dladdr s a count rc sz out = report_loop dladdr s (al_next x) count (if v < 10 then rc + 1 else rc)
        (sz + al_size x) (out @ entry_message dladdr v (entry x))"
      using vis x cnt(1) by (subst step) (auto simp: unfold)
    moreover have "(if v < 10 then rc + 1 else rc) = int (min 10 (Suc v))" using Cons.prems(4) by auto
    ultimately show ?thesis
      using Cons.IH [OF x(3) refl cnt(3), of "if v < 10 then rc + 1 else rc" "sz + al_size x"] vis
      by (simp add: es Let_def leak_total_def entry_def add.assoc)
  qed
qed

lemma heaph_atexit_ok:
  assumes rep: "hh_rep lo hi 0 s es"
  shows "\<exists>s'. heaph_atexit dladdr s = ret (report dladdr (report_mode s) (alloc_count_total s) es, s')
    \<and> is_exit_done s' \<and> heaph_atexit dladdr s' = ret ([], s')"
proof -
  note R = rep [unfolded hh_rep_def]
  obtain tr pl where t: "table_inv s tr pl" "es = entries_of s tr" using R by blast
  have again: "is_exit_done s' \<Longrightarrow> heaph_atexit dladdr s' = ret ([], s')" for s' by (simp add: heaph_atexit_def)
  show ?thesis
  proof (cases "report_mode s = MODE_QUIET")
    case True
    with R again show ?thesis by (simp add: heaph_atexit_def report_def Let_def)
  next
    case mode: False
    let ?s = "s\<lparr>is_exit_done := True, allocs_lock := True\<rparr>"
    have len: "length es = length tr" using t(2) by (simp add: entries_of_def)
    have tab: "slist (alloc_objs ?s) (allocs s) tr" "es = entries_of ?s tr"
      using t by (simp_all add: table_inv_def entries_of_def)
    show ?thesis
    proof (cases "es = []")
      case True
      then have "alloc_count s = 0" using R by simp
      with R mode True again show ?thesis
        by (simp add: heaph_atexit_def report_def Let_def allocs_acq_def allocs_rel_def spinlock_acq_def spinlock_rel_def)
    next
      case False
      have cnt: "alloc_count s = int (length tr + 0)" "alloc_count s \<noteq> 0" using R len False by auto
      have loop: "report_loop dladdr ?s (allocs s) (alloc_count s) 0 0 [] =
          ret (let vis = filter (visible dladdr) es in
            (int (length vis), int (min 10 (length vis)), leak_total vis, entry_messages dladdr 0 es))"
        using report_loop_ok [OF tab cnt(1), of 0 dladdr 0 "[]"] by (simp add: Let_def)
      let ?vis = "filter (visible dladdr) es"
      have "(int (min 10 (length ?vis)) < int (length ?vis)) = (10 < length ?vis)" by auto
      moreover have "10 < length ?vis \<Longrightarrow> int (min 10 (length ?vis)) = 10" by simp
      ultimately show ?thesis
        using R mode False again loop cnt len
        by (simp add: heaph_atexit_def report_def Let_def allocs_acq_def allocs_rel_def spinlock_acq_def spinlock_rel_def
            del: of_nat_min)
    qed
  qed
qed

section \<open>Examples\<close>

lemma malloc_tracked:
  assumes rep: "hh_rep lo hi 0 s es" and p: "user_ptr lo hi p" "p \<notin> fst ` set es"
  shows "\<exists>s'. hh_malloc sz p bt s = ret (p, s') \<and> hh_rep lo hi 0 s' ((p, sz, take MAX_BACKTRACE_LEN bt) # es)
    \<and> report_mode s' = report_mode s"
proof -
  note E = enter [OF rep]
  from alloc_trace_new_ok [OF E p, of sz bt] obtain s' where
    "alloc_trace_new p sz bt (s\<lparr>depth := depth s + 1\<rparr>) = ret s'"
    "hh_rep lo hi 1 s' ((p, sz, take MAX_BACKTRACE_LEN bt) # es)" "report_mode s' = report_mode s" by auto
  with leave [OF this(2)] touch_done [OF rep] library_done(2) [OF rep] user_nonzero [OF p(1)] show ?thesis
    by (simp add: hh_malloc_def malloc_body_def Let_def)
qed

text \<open>When \<open>dlsym\<close> allocates, the static buffer is used and bounds the addresses that are tracked.\<close>

lemma static_touch:
  assumes "unat sz < 16 * 1024" "0 < b"
  shows "\<exists>s. heaph_touch (heaph_start [sz] None (Some b)) = ret s \<and> hh_rep b (b + 16 * 1024) 0 s []"
  using first_touch [of "[sz]" b None] assms by auto

end
