(* ===== verification/Heap_Threads.thy ===== *)
theory Heap_Threads
  imports Heap_Threads_Model Heap_Report
begin

text \<open>
  With several threads no assertion of the heap checker fails, no object is used twice, and the
  addresses in the table are exactly those of the program's blocks, in every interleaving, but for
  the blocks whose \<open>realloc\<close> has failed; when no thread is inside a wrapper they are the live blocks
  of the library without those.
\<close>

section \<open>The invariant\<close>

text \<open>What a thread in a wrapper holds: blocks of the library, entries of the table, an object.\<close>

fun t_live :: "hh_thread \<Rightarrow> nat multiset" where
  "t_live Idle = {#}"
| "t_live (Got p sz bt) = {#p#}"
| "t_live (Filled p a) = {#p#}"
| "t_live (Freeing p) = {#p#}"
| "t_live (Freed p) = {#p#}"
| "t_live (Moving p q sz bt) = {#q#}"
| "t_live (Nulled p gone) = (if gone then {#} else {#p#})"

fun t_table :: "hh_thread \<Rightarrow> nat multiset" where
  "t_table (Freeing p) = {#p#}"
| "t_table (Moving p q sz bt) = {#p#}"
| "t_table (Nulled p gone) = {#p#}"
| "t_table _ = {#}"

fun t_objs :: "hh_thread \<Rightarrow> nat multiset" where
  "t_objs (Filled p a) = ptr_mset a"
| "t_objs _ = {#}"

fun t_good :: "heaph \<Rightarrow> hh_thread \<Rightarrow> bool" where
  "t_good s (Filled p a) \<longleftrightarrow> (\<exists>b x. a = Ptr b \<and> alloc_objs s b = Some x \<and> fst (entry x) = p)"
| "t_good s _ \<longleftrightarrow> True"

definition all_of :: "(hh_thread \<Rightarrow> nat multiset) \<Rightarrow> hh_sys \<Rightarrow> nat multiset" where
  "all_of f c = sum_list (map f (threads c))"

definition table_addrs :: "heaph \<Rightarrow> nat list \<Rightarrow> nat multiset" where
  "table_addrs s tr = mset (map fst (entries_of s tr))"

lemma table_addrs_simps [simp]:
  "table_addrs s (us @ vs) = table_addrs s us + table_addrs s vs"
  "table_addrs s (a # us) = add_mset (fst (entry (the (alloc_objs s a)))) (table_addrs s us)"
  by (simp_all add: table_addrs_def entries_of_def)

lemma table_addrs_same: "entries_of s' tr = entries_of s tr \<Longrightarrow> table_addrs s' tr = table_addrs s tr"
  by (simp add: table_addrs_def)

definition blocks_inv :: "nat \<Rightarrow> nat \<Rightarrow> hh_sys \<Rightarrow> bool" where
  "blocks_inv lo hi c \<longleftrightarrow> finite (live c) \<and> mset_set (live c) = owned c + lost c + all_of t_live c
     \<and> (\<forall>p \<in># owned c + all_of t_live c + all_of t_table c. user_ptr lo hi p)"

definition objects_inv :: "hh_sys \<Rightarrow> nat list \<Rightarrow> nat list \<Rightarrow> bool" where
  "objects_inv c tr pl \<longleftrightarrow> table_inv (hh c) tr pl \<and> alloc_count (hh c) = int (length tr)
     \<and> (\<forall>a. count (all_of t_objs c) a \<le> 1)
     \<and> (\<forall>a \<in># all_of t_objs c. a < object_limit (hh c) \<and> a \<notin> set (tr @ pl))
     \<and> (\<forall>t \<in> set (threads c). t_good (hh c) t)"

definition sys_inv :: "nat \<Rightarrow> nat \<Rightarrow> hh_sys \<Rightarrow> bool" where
  "sys_inv lo hi c \<longleftrightarrow> calm lo hi (hh c) \<and> blocks_inv lo hi c
     \<and> (\<exists>tr pl. objects_inv c tr pl \<and> table_addrs (hh c) tr = owned c + all_of t_table c)"

lemma sys_invI:
  "calm lo hi (hh c) \<Longrightarrow> blocks_inv lo hi c \<Longrightarrow> objects_inv c tr pl \<Longrightarrow>
    table_addrs (hh c) tr = owned c + all_of t_table c \<Longrightarrow> sys_inv lo hi c"
  unfolding sys_inv_def by blast

text \<open>One thread among the others: \<open>R\<close> is what the others hold.\<close>

lemma set_thread_simps [simp]:
  "hh (set_thread i t c) = hh c" "live (set_thread i t c) = live c" "owned (set_thread i t c) = owned c"
  "lost (set_thread i t c) = lost c"
  "threads (set_thread i t c) = (threads c)[i := t]"
  by (simp_all add: set_thread_def)

lemma thread_frame:
  assumes "i < length (threads c)"
  obtains R where "\<And>f. all_of f c = f (threads c ! i) + R f"
    "\<And>f t c'. threads c' = threads c \<Longrightarrow> all_of f (set_thread i t c') = f t + R f"
proof -
  let ?R = "\<lambda>f. sum_list (map f (take i (threads c))) + sum_list (map f (drop (Suc i) (threads c)))"
  have "all_of f c = f (threads c ! i) + ?R f" for f
    unfolding all_of_def by (subst (1) id_take_nth_drop [OF assms]) (simp add: ac_simps)
  moreover have "all_of f (set_thread i t c') = f t + ?R f" if "threads c' = threads c" for f t c'
    using that assms by (simp add: all_of_def upd_conv_take_nth_drop ac_simps)
  ultimately show ?thesis by (rule that)
qed

lemma all_of_mem: "t \<in> set (threads c) \<Longrightarrow> a \<in># f t \<Longrightarrow> a \<in># all_of f c"
  by (auto simp: all_of_def)

lemma t_good_frame:
  assumes "t_good s t" "\<And>b. b \<in># t_objs t \<Longrightarrow> map_option entry (alloc_objs s' b) = map_option entry (alloc_objs s b)"
  shows "t_good s' t"
proof (cases t)
  case (Filled p a)
  with assms(1) obtain b x where b: "a = Ptr b" "alloc_objs s b = Some x" "fst (entry x) = p" by auto
  with assms(2) [of b] Filled obtain y where "alloc_objs s' b = Some y" "entry y = entry x" by auto
  with b Filled show ?thesis by simp
qed simp_all

text \<open>The other threads keep their objects when a thread's step leaves those alone.\<close>

lemma good_threads:
  assumes good: "\<forall>t \<in> set (threads c). t_good (hh c) t" and t: "t_good s' t"
    and same: "\<And>b. b \<in># all_of t_objs c \<Longrightarrow> map_option entry (alloc_objs s' b) = map_option entry (alloc_objs (hh c) b)"
  shows "\<forall>u \<in> set ((threads c)[i := t]). t_good s' u"
proof
  fix u assume "u \<in> set ((threads c)[i := t])"
  then consider "u = t" | "u \<in> set (threads c)" using set_update_subset_insert by fastforce
  then show "t_good s' u"
  proof cases
    case 2
    show ?thesis by (rule t_good_frame [OF good [rule_format, OF 2] same]) (rule all_of_mem [OF 2])
  qed (use t in simp)
qed

section \<open>The steps\<close>

lemma begin_step:
  assumes inv: "sys_inv lo hi c" and i: "i < length (threads c)" "threads c ! i = Got p sz bt"
  shows "\<exists>c'. thread_step i c = ret c' \<and> sys_inv lo hi c'"
proof -
  obtain tr pl where o: "objects_inv c tr pl" "table_addrs (hh c) tr = owned c + all_of t_table c"
    and calm: "calm lo hi (hh c)" and b: "blocks_inv lo hi c" using inv by (auto simp: sys_inv_def)
  obtain R where R: "\<And>f. all_of f c = f (Got p sz bt) + R f"
    "\<And>f t c'. threads c' = threads c \<Longrightarrow> all_of f (set_thread i t c') = f t + R f"
    using thread_frame [OF i(1)] unfolding i(2) by blast
  have p: "user_ptr lo hi p" using b R(1) by (simp add: blocks_inv_def)
  have tab: "table_inv (hh c) tr pl" and cnt: "alloc_count (hh c) = int (length tr)" using o(1) by (simp_all add: objects_inv_def)
  from alloc_trace_begin_ok [OF calm tab p, of sz bt] obtain a x s' pl' where
    s': "alloc_trace_begin p sz bt (hh c) = ret (Some (Ptr a), s')" "calm lo hi s'" "table_inv s' tr pl'"
      "alloc_objs s' a = Some x" "entry x = (p, sz, take MAX_BACKTRACE_LEN bt)" "a \<notin> set (tr @ pl')" "a < object_limit s'"
      "object_limit (hh c) \<le> object_limit s'" "set pl' \<subseteq> set pl"
      "\<forall>b. b < object_limit (hh c) \<longrightarrow> b \<notin> set pl \<longrightarrow> b \<noteq> a \<and> alloc_objs s' b = alloc_objs (hh c) b"
      "alloc_count s' = alloc_count (hh c)" by blast
  let ?c = "set_thread i (Filled p (Ptr a)) (c\<lparr>hh := s'\<rparr>)"
  have run: "thread_step i c = ret ?c" using s'(1) i(2) by (simp add: thread_step_def)
  have R': "all_of f ?c = f (Filled p (Ptr a)) + R f" for f by (rule R(2)) simp
  have others: "b < object_limit (hh c) \<and> b \<notin> set tr \<and> b \<notin> set pl" if "b \<in># all_of t_objs c" for b
    using o(1) that by (simp add: objects_inv_def)
  have keep: "b \<noteq> a \<and> alloc_objs s' b = alloc_objs (hh c) b" if "b \<in># all_of t_objs c" for b
    using s'(10) others [OF that] by blast
  have "\<forall>u \<in> set (threads ?c). t_good (hh ?c) u"
    using o(1) good_threads [of c s' "Filled p (Ptr a)" i] s'(4,5) keep by (simp add: objects_inv_def)
  moreover have "all_of t_objs ?c = add_mset a (all_of t_objs c)" using R(1) R' by simp
  moreover have "count (all_of t_objs c) a = 0" using keep by (metis not_in_iff)
  moreover have "count (all_of t_objs c) b \<le> 1" for b using o(1) by (simp add: objects_inv_def)
  moreover have "b < object_limit s' \<and> b \<notin> set (tr @ pl')" if "b \<in># all_of t_objs c" for b
    using others [OF that] s'(8,9) by auto
  ultimately have "objects_inv ?c tr pl'"
    using s'(3,6,7,11) cnt unfolding objects_inv_def by simp
  moreover have "table_addrs s' tr = owned ?c + all_of t_table ?c"
  proof -
    have "entries_of s' tr = entries_of (hh c) tr"
      using s'(10) tab unfolding entries_of_def by (intro map_cong) (auto simp: table_inv_def)
    from table_addrs_same [OF this] show ?thesis using o(2) R(1) R' by simp
  qed
  moreover have "blocks_inv lo hi ?c" using b R(1) R' by (simp add: blocks_inv_def)
  ultimately have "sys_inv lo hi ?c" by (intro sys_invI [of _ _ _ tr pl']) (use s'(2) in simp_all)
  with run show ?thesis by blast
qed

lemma end_step:
  assumes inv: "sys_inv lo hi c" and i: "i < length (threads c)" "threads c ! i = Filled p q"
  shows "\<exists>c'. thread_step i c = ret c' \<and> sys_inv lo hi c'"
proof -
  obtain tr pl where o: "objects_inv c tr pl" "table_addrs (hh c) tr = owned c + all_of t_table c"
    and calm: "calm lo hi (hh c)" and b: "blocks_inv lo hi c" using inv by (auto simp: sys_inv_def)
  obtain R where R: "\<And>f. all_of f c = f (Filled p q) + R f"
    "\<And>f t c'. threads c' = threads c \<Longrightarrow> all_of f (set_thread i t c') = f t + R f"
    using thread_frame [OF i(1)] unfolding i(2) by blast
  have "t_good (hh c) (Filled p q)" using o(1) nth_mem [OF i(1)] i(2) by (force simp: objects_inv_def)
  then obtain a x where a: "q = Ptr a" "alloc_objs (hh c) a = Some x" "fst (entry x) = p" by auto
  have tab: "table_inv (hh c) tr pl" and cnt: "alloc_count (hh c) = int (length tr)" using o(1) by (simp_all add: objects_inv_def)
  have fresh: "a \<notin> set (tr @ pl)" "a < object_limit (hh c)" using o(1) R(1) a(1) by (simp_all add: objects_inv_def)
  from alloc_trace_end_ok [OF calm tab a(2) fresh] obtain s' where
    s': "alloc_trace_end (Ptr a) (hh c) = ret s'" "calm lo hi s'" "table_inv s' (a # tr) pl" "same_entries (hh c) s'"
      "object_limit s' = object_limit (hh c)" "alloc_count s' = alloc_count (hh c) + 1" by blast
  let ?c = "set_thread i Idle (c\<lparr>hh := s', owned := add_mset p (owned c)\<rparr>)"
  have run: "thread_step i c = ret ?c" using s'(1) i(2) a(1) by (simp add: thread_step_def)
  have R': "all_of f ?c = f Idle + R f" for f by (rule R(2)) simp
  have cnt1: "count (add_mset a (R t_objs)) b \<le> 1" for b
    using o(1) R(1) [of t_objs] a(1) by (simp add: objects_inv_def)
  have once: "count (R t_objs) b \<le> 1" for b by (rule order_trans [OF _ cnt1 [of b]]) simp
  have "a \<notin># R t_objs" using cnt1 [of a] by (simp add: not_in_iff)
  moreover have "b < object_limit (hh c) \<and> b \<notin> set (tr @ pl)" if "b \<in># R t_objs" for b
    using o(1) R(1) [of t_objs] a(1) that by (simp add: objects_inv_def)
  ultimately have others: "b < object_limit s' \<and> b \<notin> set ((a # tr) @ pl)" if "b \<in># R t_objs" for b
    using that s'(5) by auto
  have "\<forall>u \<in> set (threads ?c). t_good (hh ?c) u"
    using o(1) good_threads [of c s' Idle i] s'(4) by (simp add: objects_inv_def same_entries_def)
  then have "objects_inv ?c (a # tr) pl"
    using s'(3,6) cnt R' once others unfolding objects_inv_def by simp
  moreover have "table_addrs s' (a # tr) = owned ?c + all_of t_table ?c"
  proof -
    have "entries_of s' tr = entries_of (hh c) tr"
      using same_entries_of [OF s'(4)] tab by (auto simp: table_inv_def)
    note table_addrs_same [OF this]
    moreover have "entry (the (alloc_objs s' a)) = entry x"
      using s'(4) [unfolded same_entries_def, rule_format, of a] a(2) by auto
    ultimately have "table_addrs s' (a # tr) = add_mset p (table_addrs (hh c) tr)"
      using a(3) by simp
    then show ?thesis using o(2) R(1) R' by simp
  qed
  moreover have "blocks_inv lo hi ?c" using b R(1) R' by (simp add: blocks_inv_def)
  ultimately have "sys_inv lo hi ?c" by (intro sys_invI [of _ _ _ "a # tr" pl]) (use s'(2) in simp_all)
  with run show ?thesis by blast
qed

text \<open>\<open>alloc_free\<close> of an address that the thread has to remove.\<close>

lemma remove_step:
  assumes inv: "sys_inv lo hi c" and i: "i < length (threads c)" "t_table (threads c ! i) = {#p#}" "t_objs (threads c ! i) = {#}"
    and t: "t_table t = {#}" "t_objs t = {#}" "L + t_live t = lost c + t_live (threads c ! i)" "t_good s t"
      "set_mset (t_live t) \<subseteq> set_mset (t_live (threads c ! i))"
  shows "\<exists>s'. alloc_free p (hh c) = ret s' \<and> sys_inv lo hi (set_thread i t (c\<lparr>hh := s', lost := L\<rparr>))"
proof -
  obtain tr pl where o: "objects_inv c tr pl" "table_addrs (hh c) tr = owned c + all_of t_table c"
    and calm: "calm lo hi (hh c)" and b: "blocks_inv lo hi c" using inv by (auto simp: sys_inv_def)
  obtain R where R: "\<And>f. all_of f c = f (threads c ! i) + R f"
    "\<And>f t c'. threads c' = threads c \<Longrightarrow> all_of f (set_thread i t c') = f t + R f"
    using thread_frame [OF i(1)] by blast
  have tab: "table_inv (hh c) tr pl" and cnt: "alloc_count (hh c) = int (length tr)" using o(1) by (simp_all add: objects_inv_def)
  have p: "user_ptr lo hi p" using b R(1) i(2) by (simp add: blocks_inv_def)
  have "p \<in># table_addrs (hh c) tr" using o(2) R(1) i(2) by simp
  then have "p \<in> fst ` set (entries_of (hh c) tr)" by (auto simp: table_addrs_def)
  from alloc_free_takes [OF calm tab cnt p this] obtain us b' vs s' where
    s': "tr = us @ b' # vs" "fst (entry (the (alloc_objs (hh c) b'))) = p" "alloc_free p (hh c) = ret s'" "calm lo hi s'"
      "table_inv s' (us @ vs) (b' # pl)" "same_entries (hh c) s'" "object_limit s' = object_limit (hh c)"
      "alloc_count s' = alloc_count (hh c) - 1" by blast
  let ?c = "set_thread i t (c\<lparr>hh := s', lost := L\<rparr>)"
  have R': "all_of f ?c = f t + R f" for f by (rule R(2)) simp
  have "t_good s' t" using t(2,4) by (rule_tac t_good_frame [of s]) auto
  then have "\<forall>u \<in> set (threads ?c). t_good (hh ?c) u"
    using o(1) good_threads [of c s' t i] s'(6) by (simp add: objects_inv_def same_entries_def)
  moreover have objs: "all_of t_objs ?c = all_of t_objs c" using R(1) R' i(3) t(2) by simp
  moreover have "b < object_limit s' \<and> b \<notin> set ((us @ vs) @ b' # pl)" if "b \<in># all_of t_objs c" for b
    using o(1) that s'(1,7) by (auto simp: objects_inv_def)
  moreover have "count (all_of t_objs c) b \<le> 1" for b using o(1) by (simp add: objects_inv_def)
  ultimately have "objects_inv ?c (us @ vs) (b' # pl)"
    using s'(1,5,8) cnt unfolding objects_inv_def by simp
  moreover have "table_addrs s' (us @ vs) = owned ?c + all_of t_table ?c"
  proof -
    have "entries_of s' tr = entries_of (hh c) tr"
      using same_entries_of [OF s'(6)] tab by (auto simp: table_inv_def)
    then have "entries_of s' (us @ vs) = entries_of (hh c) (us @ vs)" unfolding s'(1) by (simp add: entries_of_def)
    from table_addrs_same [OF this] have "add_mset p (table_addrs s' (us @ vs)) = table_addrs (hh c) tr"
      using s'(1,2) by simp
    then show ?thesis using o(2) R(1) R' i(2) t(1) by simp
  qed
  moreover have "L + (t_live t + R t_live) = lost c + (t_live (threads c ! i) + R t_live)"
    using t(3) by (metis add.assoc)
  then have "blocks_inv lo hi ?c" using b R(1) R' t(1,5) i(2) by (auto simp: blocks_inv_def add.assoc)
  ultimately have "sys_inv lo hi ?c" by (intro sys_invI [of _ _ _ "us @ vs" "b' # pl"]) (use s'(4) in simp_all)
  with s'(3) show ?thesis by blast
qed

text \<open>Steps that do not touch the table.\<close>

lemma quiet_step:
  assumes inv: "sys_inv lo hi c" and i: "i < length (threads c)"
    and c': "hh c' = hh c" "threads c' = threads c"
    and t: "t_objs (threads c ! i) = {#}" "t_objs t = {#}" "\<And>s. t_good s t"
    and R: "\<And>R. all_of t_table c = t_table (threads c ! i) + R \<Longrightarrow> owned c' + t_table t + R = owned c + t_table (threads c ! i) + R"
    and b: "blocks_inv lo hi (set_thread i t c')"
  shows "sys_inv lo hi (set_thread i t c')"
proof -
  obtain tr pl where o: "objects_inv c tr pl" "table_addrs (hh c) tr = owned c + all_of t_table c"
    and calm: "calm lo hi (hh c)" using inv by (auto simp: sys_inv_def)
  obtain R where R': "\<And>f. all_of f c = f (threads c ! i) + R f"
    "\<And>f t c'. threads c' = threads c \<Longrightarrow> all_of f (set_thread i t c') = f t + R f"
    using thread_frame [OF i] by blast
  note set = R'(2) [OF c'(2)]
  have "\<forall>u \<in> set ((threads c)[i := t]). t_good (hh c) u"
    using o(1) t(3) by (intro good_threads) (simp_all add: objects_inv_def)
  then have "objects_inv (set_thread i t c') tr pl"
    using o(1) set R'(1) [of t_objs] t(1,2) c' by (simp add: objects_inv_def)
  moreover have "table_addrs (hh c) tr = owned c' + all_of t_table (set_thread i t c')"
    using o(2) R [OF R'(1)] R'(1) [of t_table] set by (simp add: ac_simps)
  ultimately show ?thesis by (intro sys_invI [of _ _ _ tr pl]) (use calm b c' in simp_all)
qed

lemma calm_library: "calm lo hi s \<Longrightarrow> library s = ret s" "calm lo hi s \<Longrightarrow> heaph_touch s = ret s"
  by (simp_all add: calm_def library_def heaph_touch_def)

lemma mset_set_drop: "finite A \<Longrightarrow> p \<in> A \<Longrightarrow> mset_set (A - {p}) = mset_set A - {#p#}"
  by (simp add: mset_set_Diff)

lemma free_step_threads:
  assumes inv: "sys_inv lo hi c" and i: "i < length (threads c)" "threads c ! i = Freed p"
  shows "\<exists>c'. thread_step i c = ret c' \<and> sys_inv lo hi c'"
proof -
  have b: "blocks_inv lo hi c" and calm: "calm lo hi (hh c)" using inv by (auto simp: sys_inv_def)
  obtain R where R: "\<And>f. all_of f c = f (Freed p) + R f"
    "\<And>f t c'. threads c' = threads c \<Longrightarrow> all_of f (set_thread i t c') = f t + R f"
    using thread_frame [OF i(1)] unfolding i(2) by blast
  let ?c = "c\<lparr>live := live c - {p}\<rparr>"
  have fin: "finite (live c)" and eq: "mset_set (live c) = owned c + lost c + add_mset p (R t_live)" using b R(1) by (simp_all add: blocks_inv_def)
  then have p: "p \<in> live c" by (metis elem_mset_set union_iff union_single_eq_member)
  have R': "all_of f (set_thread i Idle ?c) = f Idle + R f" for f by (rule R(2)) simp
  have "mset_set (live c - {p}) = owned c + lost c + R t_live"
    unfolding mset_set_drop [OF fin p] eq by simp
  then have "blocks_inv lo hi (set_thread i Idle ?c)"
    using b R(1) R' fin by (simp add: blocks_inv_def)
  then have "sys_inv lo hi (set_thread i Idle ?c)"
    by (intro quiet_step [OF inv i(1)]) (simp_all add: i(2))
  moreover have "thread_step i c = ret (set_thread i Idle ?c)"
    using i(2) p calm_library(1) [OF calm] by (simp add: thread_step_def)
  ultimately show ?thesis by blast
qed

lemma continue_step:
  assumes inv: "sys_inv lo hi c" and i: "i < length (threads c)" "threads c ! i \<noteq> Idle"
  shows "\<exists>c'. thread_step i c = ret c' \<and> sys_inv lo hi c'"
proof (cases "threads c ! i")
  case (Freeing p)
  with remove_step [OF inv i(1), of p "Freed p" "lost c"] show ?thesis by (auto simp: thread_step_def)
next
  case (Moving p q sz bt)
  with remove_step [OF inv i(1), of p "Got q sz bt" "lost c"] show ?thesis by (auto simp: thread_step_def)
next
  case (Nulled p gone)
  with remove_step [OF inv i(1), of p Idle "if gone then lost c else add_mset p (lost c)"] show ?thesis
    by (auto simp: thread_step_def)
qed (use inv i begin_step end_step free_step_threads in blast)+

lemma get_step:
  assumes inv: "sys_inv lo hi c" and ok: "act_allowed lo hi (GetBlock i p sz bt) c"
  shows "\<exists>c'. hh_act_do (GetBlock i p sz bt) c = ret c' \<and> sys_inv lo hi c'"
proof -
  have b: "blocks_inv lo hi c" and calm: "calm lo hi (hh c)" using inv by (auto simp: sys_inv_def)
  have i: "i < length (threads c)" "threads c ! i = Idle" "user_ptr lo hi p" "p \<notin> live c" using ok by simp_all
  obtain R where R: "\<And>f. all_of f c = f Idle + R f"
    "\<And>f t c'. threads c' = threads c \<Longrightarrow> all_of f (set_thread i t c') = f t + R f"
    using thread_frame [OF i(1)] unfolding i(2) by blast
  let ?c = "c\<lparr>live := insert p (live c)\<rparr>"
  have R': "all_of f (set_thread i (Got p sz bt) ?c) = f (Got p sz bt) + R f" for f by (rule R(2)) simp
  have "blocks_inv lo hi (set_thread i (Got p sz bt) ?c)"
    using b R(1) R' i(3,4) by (simp add: blocks_inv_def)
  then have "sys_inv lo hi (set_thread i (Got p sz bt) ?c)"
    by (intro quiet_step [OF inv i(1)]) (simp_all add: i(2))
  with calm_library [OF calm] show ?thesis by simp
qed

lemma owned_part: "p \<in># M \<Longrightarrow> M = add_mset p (M - {#p#})"
  by simp

lemma give_step:
  assumes inv: "sys_inv lo hi c" and ok: "act_allowed lo hi (FreeBlock i p) c"
  shows "\<exists>c'. hh_act_do (FreeBlock i p) c = ret c' \<and> sys_inv lo hi c'"
proof -
  have b: "blocks_inv lo hi c" and calm: "calm lo hi (hh c)" using inv by (auto simp: sys_inv_def)
  have i: "i < length (threads c)" "threads c ! i = Idle" "p \<in># owned c" using ok by simp_all
  obtain R where R: "\<And>f. all_of f c = f Idle + R f"
    "\<And>f t c'. threads c' = threads c \<Longrightarrow> all_of f (set_thread i t c') = f t + R f"
    using thread_frame [OF i(1)] unfolding i(2) by blast
  define N where "N = owned c - {#p#}"
  have N: "owned c = add_mset p N" using owned_part [OF i(3)] by (simp add: N_def)
  let ?c = "c\<lparr>owned := N\<rparr>"
  have R': "all_of f (set_thread i (Freeing p) ?c) = f (Freeing p) + R f" for f by (rule R(2)) simp
  have "blocks_inv lo hi (set_thread i (Freeing p) ?c)"
    using b R(1) R' N by (simp add: blocks_inv_def)
  then have "sys_inv lo hi (set_thread i (Freeing p) ?c)"
    by (intro quiet_step [OF inv i(1)]) (simp_all add: i(2) N)
  moreover have "user_ptr lo hi p" using b i(3) by (simp add: blocks_inv_def)
  ultimately show ?thesis using calm_library [OF calm] calm_static [OF calm] by (simp add: N_def)
qed

lemma move_step:
  assumes inv: "sys_inv lo hi c" and ok: "act_allowed lo hi (MoveBlock i p q sz bt) c"
  shows "\<exists>c'. hh_act_do (MoveBlock i p q sz bt) c = ret c' \<and> sys_inv lo hi c'"
proof -
  have b: "blocks_inv lo hi c" and calm: "calm lo hi (hh c)" using inv by (auto simp: sys_inv_def)
  have i: "i < length (threads c)" "threads c ! i = Idle" "p \<in># owned c" "user_ptr lo hi q" "q \<notin> live c" using ok by simp_all
  obtain R where R: "\<And>f. all_of f c = f Idle + R f"
    "\<And>f t c'. threads c' = threads c \<Longrightarrow> all_of f (set_thread i t c') = f t + R f"
    using thread_frame [OF i(1)] unfolding i(2) by blast
  define N where "N = owned c - {#p#}"
  have N: "owned c = add_mset p N" using owned_part [OF i(3)] by (simp add: N_def)
  let ?t = "Moving p q sz bt" and ?c = "c\<lparr>live := insert q (live c - {p}), owned := N\<rparr>"
  have R': "all_of f (set_thread i ?t ?c) = f ?t + R f" for f by (rule R(2)) simp
  have fin: "finite (live c)" and eq: "mset_set (live c) = add_mset p (N + lost c + R t_live)" using b R(1) N by (simp_all add: blocks_inv_def)
  then have p: "p \<in> live c" by (metis elem_mset_set union_single_eq_member)
  have "mset_set (insert q (live c - {p})) = add_mset q (N + lost c + R t_live)"
    using fin i(5) by (simp add: mset_set_drop [OF fin p] eq)
  then have "blocks_inv lo hi (set_thread i ?t ?c)"
    using b R(1) R' N fin i(4) by (auto simp: blocks_inv_def)
  then have "sys_inv lo hi (set_thread i ?t ?c)"
    by (intro quiet_step [OF inv i(1)]) (simp_all add: i(2) N)
  with calm_library [OF calm] show ?thesis by (simp add: N_def)
qed

lemma null_step:
  assumes inv: "sys_inv lo hi c" and ok: "act_allowed lo hi (NullBlock i p gone) c"
  shows "\<exists>c'. hh_act_do (NullBlock i p gone) c = ret c' \<and> sys_inv lo hi c'"
proof -
  have b: "blocks_inv lo hi c" and calm: "calm lo hi (hh c)" using inv by (auto simp: sys_inv_def)
  have i: "i < length (threads c)" "threads c ! i = Idle" "p \<in># owned c" using ok by simp_all
  obtain R where R: "\<And>f. all_of f c = f Idle + R f"
    "\<And>f t c'. threads c' = threads c \<Longrightarrow> all_of f (set_thread i t c') = f t + R f"
    using thread_frame [OF i(1)] unfolding i(2) by blast
  define N where "N = owned c - {#p#}"
  have N: "owned c = add_mset p N" using owned_part [OF i(3)] by (simp add: N_def)
  let ?t = "Nulled p gone" and ?c = "c\<lparr>live := if gone then live c - {p} else live c, owned := N\<rparr>"
  have R': "all_of f (set_thread i ?t ?c) = f ?t + R f" for f by (rule R(2)) simp
  have fin: "finite (live c)" and eq: "mset_set (live c) = add_mset p (N + lost c + R t_live)" using b R(1) N by (simp_all add: blocks_inv_def)
  then have p: "p \<in> live c" by (metis elem_mset_set union_single_eq_member)
  have "mset_set (if gone then live c - {p} else live c) = N + lost c + (t_live ?t + R t_live)"
    by (simp add: mset_set_drop [OF fin p] eq)
  then have "blocks_inv lo hi (set_thread i ?t ?c)"
    using b R(1) R' N fin by (auto simp: blocks_inv_def)
  then have "sys_inv lo hi (set_thread i ?t ?c)"
    by (intro quiet_step [OF inv i(1)]) (simp_all add: i(2) N)
  with calm_library [OF calm] show ?thesis by (simp add: N_def)
qed

lemma all_of_idle: "\<forall>t \<in> set (threads c). t = Idle \<Longrightarrow> f Idle = {#} \<Longrightarrow> all_of f c = {#}"
  proof -
  assume "\<forall>t \<in> set (threads c). t = Idle" "f Idle = {#}"
  then have "sum_list (map f us) = {#}" if "set us \<subseteq> set (threads c)" for us
    using that by (induction us) auto
  then show ?thesis by (simp add: all_of_def)
qed

lemma act_ok:
  assumes "sys_inv lo hi c" "act_allowed lo hi act c"
  shows "\<exists>c'. hh_act_do act c = ret c' \<and> sys_inv lo hi c'"
proof (cases act)
  case (Continue i)
  with continue_step [OF assms(1), of i] assms(2) show ?thesis by simp
next
  case (GetBlock i p sz bt)
  show ?thesis using get_step [OF assms(1)] assms(2) unfolding GetBlock by blast
next
  case (FreeBlock i p)
  show ?thesis using give_step [OF assms(1)] assms(2) unfolding FreeBlock by blast
next
  case (NullBlock i p gone)
  show ?thesis using null_step [OF assms(1)] assms(2) unfolding NullBlock by blast
next
  case (NoChange i)
  have "calm lo hi (hh c)" using assms(1) by (simp add: sys_inv_def)
  with assms(1) NoChange show ?thesis by (simp add: calm_library)
next
  case (MoveBlock i p q sz bt)
  show ?thesis using move_step [OF assms(1)] assms(2) unfolding MoveBlock by blast
qed

lemma start_inv_threads:
  assumes "hh_rep lo hi 0 s []"
  shows "sys_inv lo hi (hh_sys_start s n)"
proof -
  let ?c = "hh_sys_start s n"
  have none: "all_of f ?c = {#}" if "f Idle = {#}" for f
    using that by (intro all_of_idle) (simp_all add: hh_sys_start_def)
  have rep: "hh_rep lo hi 1 (hh ?c) []" using hh_rep_depth [OF assms, of 1] by (simp add: hh_sys_start_def)
  then obtain pl where t: "table_inv (hh ?c) [] pl" "calm lo hi (hh ?c)" "alloc_count (hh ?c) = 0"
    by (auto simp: hh_rep_calm entries_of_def)
  have "objects_inv ?c [] pl"
    using t none by (auto simp: objects_inv_def hh_sys_start_def)
  moreover have "blocks_inv lo hi ?c" using none by (simp add: blocks_inv_def) (simp add: hh_sys_start_def)
  ultimately show ?thesis
    using t(2) none by (intro sys_invI [of _ _ _ "[]" pl]) (simp_all add: table_addrs_def entries_of_def hh_sys_start_def)
qed

section \<open>Every interleaving\<close>

lemma hh_reach_inv: "hh_reach lo hi n c \<Longrightarrow> sys_inv lo hi c"
proof (induction rule: hh_reach.induct)
  case (start s)
  then show ?case by (rule start_inv_threads)
next
  case (step c act c')
  with act_ok [OF step.IH step.hyps(2)] show ?case by auto
qed

lemma threads_never_fail:
  assumes "hh_reach lo hi n c" "act_allowed lo hi act c"
  shows "\<exists>c'. hh_act_do act c = ret c' \<and> hh_reach lo hi n c'"
  using act_ok [OF hh_reach_inv [OF assms(1)] assms(2)] hh_reach.step [OF assms] by blast

text \<open>Between calls the table has the live blocks of the library, each once, but for the lost ones.\<close>

lemma table_is_live:
  assumes reach: "hh_reach lo hi n c" and idle: "\<forall>t \<in> set (threads c). t = Idle"
  shows "\<exists>tr pl. table_inv (hh c) tr pl \<and> mset_set (live c) = owned c + lost c
    \<and> mset (map fst (entries_of (hh c) tr)) = owned c
    \<and> alloc_count (hh c) = int (card (live c)) - int (size (lost c))"
proof -
  have none: "all_of f c = {#}" if "f Idle = {#}" for f
    using idle that by (rule all_of_idle)
  obtain tr pl where o: "objects_inv c tr pl" "table_addrs (hh c) tr = owned c" and b: "blocks_inv lo hi c"
    using hh_reach_inv [OF reach] none by (auto simp: sys_inv_def)
  then have own: "mset_set (live c) = owned c + lost c" using none by (simp add: blocks_inv_def)
  have "length tr = size (owned c)" unfolding o(2) [symmetric] by (simp add: table_addrs_def entries_of_def)
  moreover have "card (live c) = size (owned c) + size (lost c)" using arg_cong [OF own, of size] by simp
  ultimately show ?thesis using o own by (auto simp: objects_inv_def table_addrs_def)
qed

section \<open>Two races\<close>

text \<open>
  A library \<open>realloc\<close> that moves a block frees the old address before the checker removes its entry. When
  another thread gets that address in between, the wrong entry is removed.
\<close>

lemma realloc_removes_newer:
  assumes reach: "hh_reach lo hi n c"
    and ij: "i < length (threads c)" "j < length (threads c)" "i \<noteq> j" "threads c ! i = Idle" "threads c ! j = Idle"
    and p: "p \<in># owned c" and q: "user_ptr lo hi q" "q \<notin> live c"
  shows "\<exists>tr pl c' pl'. table_inv (hh c) tr pl \<and> p \<in> fst ` set (entries_of (hh c) tr)
    \<and> hh_acts [MoveBlock i p q sz bt, GetBlock j p sz' bt', Continue j, Continue j, Continue i] c = ret c'
    \<and> hh_reach lo hi n c' \<and> p \<in># owned c' \<and> threads c' ! i = Got q sz bt
    \<and> table_inv (hh c') tr pl' \<and> entries_of (hh c') tr = entries_of (hh c) tr"
proof -
  note inv = hh_reach_inv [OF reach]
  obtain tr pl where o: "objects_inv c tr pl" "table_addrs (hh c) tr = owned c + all_of t_table c"
    and calm: "calm lo hi (hh c)" and b: "blocks_inv lo hi c" using inv by (auto simp: sys_inv_def)
  have tab: "table_inv (hh c) tr pl" and cnt: "alloc_count (hh c) = int (length tr)" using o(1) by (simp_all add: objects_inv_def)
  have user: "user_ptr lo hi p" using b p by (simp add: blocks_inv_def)
  have "p \<in># mset_set (live c)" using b p by (simp add: blocks_inv_def)
  then have live: "p \<in> live c" by (metis elem_mset_set infinite_set_mset_mset_set empty_iff)
  have mem: "p \<in> fst ` set (entries_of (hh c) tr)"
  proof -
    have "p \<in># table_addrs (hh c) tr" using o(2) p by simp
    then show ?thesis by (auto simp: table_addrs_def)
  qed
  from alloc_trace_begin_ok [OF calm tab user, of sz' bt'] obtain a x s3 pl3 where
    s3: "alloc_trace_begin p sz' bt' (hh c) = ret (Some (Ptr a), s3)" "calm lo hi s3" "table_inv s3 tr pl3"
      "alloc_objs s3 a = Some x" "entry x = (p, sz', take MAX_BACKTRACE_LEN bt')" "a \<notin> set (tr @ pl3)" "a < object_limit s3"
      "\<forall>b. b < object_limit (hh c) \<longrightarrow> b \<notin> set pl \<longrightarrow> b \<noteq> a \<and> alloc_objs s3 b = alloc_objs (hh c) b"
      "alloc_count s3 = alloc_count (hh c)" by blast
  have e3: "entries_of s3 tr = entries_of (hh c) tr"
    using s3(8) tab unfolding entries_of_def by (intro map_cong) (auto simp: table_inv_def)
  from alloc_trace_end_ok [OF s3(2,3,4,6,7)] obtain s4 where
    s4: "alloc_trace_end (Ptr a) s3 = ret s4" "calm lo hi s4" "table_inv s4 (a # tr) pl3" "same_entries s3 s4"
      "alloc_count s4 = alloc_count s3 + 1" by blast
  have e4: "entries_of s4 tr = entries_of s3 tr" "fst (entry (the (alloc_objs s4 a))) = p"
    using same_entries_of [OF s4(4)] s3(3) s4(4) [unfolded same_entries_def, rule_format, of a] s3(4,5) by (auto simp: table_inv_def)
  have "alloc_count s4 = int (length (a # tr))" "p \<in> fst ` set (entries_of s4 (a # tr))"
    using s4(5) s3(9) cnt e4(2) by (simp_all add: entries_of_def)
  from alloc_free_takes [OF s4(2,3) this(1) user this(2)] obtain us f vs s5 where
    s5: "a # tr = us @ f # vs" "alloc_free p s4 = ret s5" "table_inv s5 (us @ vs) (f # pl3)" "same_entries s4 s5"
      "\<forall>d \<in> set us. fst (entry (the (alloc_objs s4 d))) \<noteq> p" by blast
  have us: "us = []" "vs = tr" using s5(1,5) e4(2) by (cases us; simp)+
  have e5: "entries_of s5 tr = entries_of s4 tr"
    using same_entries_of [OF s5(4)] s4(3) by (auto simp: table_inv_def)
  let ?c1 = "set_thread i (Moving p q sz bt) (c\<lparr>live := insert q (live c - {p}), owned := owned c - {#p#}\<rparr>)"
  let ?c2 = "set_thread j (Got p sz' bt') (?c1\<lparr>live := insert p (live ?c1)\<rparr>)"
  let ?c3 = "set_thread j (Filled p (Ptr a)) (?c2\<lparr>hh := s3\<rparr>)"
  let ?c4 = "set_thread j Idle (?c3\<lparr>hh := s4, owned := add_mset p (owned ?c3)\<rparr>)"
  let ?c5 = "set_thread i (Got q sz bt) (?c4\<lparr>hh := s5\<rparr>)"
  have "q \<noteq> p" using live q(2) by blast
  then have ok: "act_allowed lo hi (MoveBlock i p q sz bt) c" "act_allowed lo hi (GetBlock j p sz' bt') ?c1"
    "act_allowed lo hi (Continue j) ?c2" "act_allowed lo hi (Continue j) ?c3" "act_allowed lo hi (Continue i) ?c4"
    using ij p q user by simp_all
  have run: "hh_act_do (MoveBlock i p q sz bt) c = ret ?c1" "hh_act_do (GetBlock j p sz' bt') ?c1 = ret ?c2"
    "hh_act_do (Continue j) ?c2 = ret ?c3" "hh_act_do (Continue j) ?c3 = ret ?c4" "hh_act_do (Continue i) ?c4 = ret ?c5"
    using calm_library [OF calm] s3(1) s4(1) s5(2) ij by (simp_all add: thread_step_def)
  have "hh_reach lo hi n ?c5"
    using hh_reach.step [OF hh_reach.step [OF hh_reach.step [OF hh_reach.step [OF hh_reach.step [OF reach
      ok(1) run(1)] ok(2) run(2)] ok(3) run(3)] ok(4) run(4)] ok(5) run(5)] .
  moreover have "hh_acts [MoveBlock i p q sz bt, GetBlock j p sz' bt', Continue j, Continue j, Continue i] c = ret ?c5"
    using run by (simp del: hh_act_do.simps)
  moreover have "p \<in># owned ?c5" "threads ?c5 ! i = Got q sz bt" using ij by simp_all
  moreover have "table_inv (hh ?c5) tr (f # pl3)" "entries_of (hh ?c5) tr = entries_of (hh c) tr"
    using s5(3) us e3 e4(1) e5 by simp_all
  ultimately show ?thesis using tab mem by blast
qed

fun guarded_acts :: "nat \<Rightarrow> nat \<Rightarrow> hh_act list \<Rightarrow> hh_sys \<Rightarrow> hh_sys res" where
  "guarded_acts lo hi [] c = ret c"
| "guarded_acts lo hi (a # as) c = (if act_allowed lo hi a c then bindR (hh_act_do a c) (guarded_acts lo hi as) else None)"

lemma guarded_acts_reach:
  "hh_reach lo hi n c \<Longrightarrow> guarded_acts lo hi as c = ret c' \<Longrightarrow> hh_reach lo hi n c' \<and> hh_acts as c = ret c'"
proof (induction as arbitrary: c)
  case (Cons a as)
  then obtain c1 where c1: "act_allowed lo hi a c" "hh_act_do a c = ret c1" "guarded_acts lo hi as c1 = ret c'"
    by (auto simp: bindR_eq_ret split: if_splits)
  with Cons.IH [OF hh_reach.step [OF Cons.prems(1) c1(1,2)]] show ?case by simp
qed simp

text \<open>Runs of two threads from the start, evaluated; what is reached is reachable.\<close>

definition after_acts :: "hh_act list \<Rightarrow> hh_sys res" where
  "after_acts acts = bindR (heaph_touch (heaph_start [] None (Some 4096))) (\<lambda>s. guarded_acts 0 0 acts (hh_sys_start s 2))"

lemma after_actsE:
  assumes "case after_acts acts of Some (Inr c) \<Rightarrow> Q c | _ \<Rightarrow> False"
  obtains c where "hh_reach 0 0 2 c" "Q c"
proof -
  obtain s lo hi where s: "heaph_touch (heaph_start [] None (Some 4096)) = ret s" "hh_rep lo hi 0 s []"
    using first_touch [of "[]" 4096 None] by auto
  have "case heaph_touch (heaph_start [] None (Some 4096)) of Some (Inr s) \<Rightarrow> static_buf s = 0 \<and> static_size s = 0 | _ \<Rightarrow> False"
    by code_simp
  with s(1) have "static_buf s = 0 \<and> static_size s = 0" by simp
  then have rep: "hh_rep 0 0 0 s []" using s(2) by (auto simp: hh_rep_def)
  obtain c where c: "after_acts acts = ret c" "Q c" using assms by (auto split: option.splits sum.splits)
  have "guarded_acts 0 0 acts (hh_sys_start s 2) = ret c" using c(1) s(1) by (simp add: after_acts_def)
  with guarded_acts_reach [OF hh_reach.start [OF rep]] c(2) that show thesis by blast
qed

text \<open>The race with the report at exit: the block of 32 bytes is reported with the 8 bytes of the one that is gone.\<close>

definition race :: "hh_act list" where
  "race = [GetBlock 0 100 8 [1], Continue 0, Continue 0, MoveBlock 0 100 200 16 [2],
     GetBlock 1 100 32 [3], Continue 1, Continue 1, Continue 0, Continue 0, Continue 0]"

lemma race_report:
  "case after_acts race of
     Some (Inr c) \<Rightarrow> live c = {100, 200} \<and> threads c = [Idle, Idle]
       \<and> map_option (map_sum id fst) (heaph_atexit (\<lambda>_. Some \<lparr>sym_file = None, sym_name = None\<rparr>) (hh c)) =
          ret [Leak 1 16 [None], Leak 2 8 [None], FoundLeaks 2 24, TotalCount 3]
   | _ \<Rightarrow> False"
  by code_simp

lemma one_block: "case after_acts (take 3 race) of
     Some (Inr c) \<Rightarrow> threads c = [Idle, Idle] \<and> owned c = {#100#} \<and> live c = {100} | _ \<Rightarrow> False"
  by code_simp

text \<open>A failed \<open>realloc\<close>: the block of the first thread is lost.\<close>

lemma lost_block: "case after_acts [GetBlock 0 100 8 [1], Continue 0, GetBlock 1 200 32 [3], Continue 0, NullBlock 0 100 False,
      Continue 1, Continue 0, Continue 1] of
     Some (Inr c) \<Rightarrow> threads c = [Idle, Idle] \<and> live c = {100, 200} \<and> lost c = {#100#} | _ \<Rightarrow> False"
  by code_simp

text \<open>
  The checks of \<open>heaph_touch\<close> are made before the lock is taken, and not again: a second thread that
  passed them while the first one initialises the wrappers initialises them again, and aborts.
\<close>

lemma second_init:
  assumes "is_init_done s" "\<not> init_lock s" "init_lock_count s = 0"
  shows "heaph_touch_slow s = fail Aborted"
proof -
  let ?s = "s\<lparr>init_lock := True, init_lock_count := 1, defaults := StaticFunctions\<rparr>"
  have lock: "heaph_lock s = ret (s\<lparr>init_lock := True, init_lock_count := 1\<rparr>)"
    using assms(2,3) by (simp add: heaph_lock_def spinlock_acq_def)
  show ?thesis
  proof (cases "os_dlsym_mallocs s")
    case Nil
    with lock assms(1) show ?thesis
      by (cases "os_hhreport s")
        (simp_all add: heaph_touch_slow_def heaph_init_def Let_def heaph_unlock_def heaph_assert_def spinlock_rel_def)
  next
    case (Cons sz szs)
    with lock assms(1) show ?thesis
      by (simp add: heaph_touch_slow_def heaph_init_def malloc_body_def static_malloc_def heaph_assert_def Let_def)
  qed
qed

end
