(* ===== verification/Spec2Isabelle.thy ===== *)
theory Spec2Isabelle
  imports Ufs_Example Sort_Main Tp_Run Heap_Threads
begin

text \<open>
  A verification development for the C programs of this repository: the in-memory file system of
  src/homework03/userfs.c, the coroutine library src/homework01/libcoro.c with the sorting program
  src/homework01/solution.c on top of it, the thread pool src/homework04/thread_pool.c, and the
  heap checker src/utils/heap_help/heap_help.c that the tests of all of them are linked with. The
  programs share no state; what they share is a style: objects allocated by hand and linked
  into lists through \<open>next\<close> and \<open>prev\<close> pointers. This theory holds the properties (C1 to C40,
  numbered by importance); each is proved from the lemmas of the library below it.

  Shared parts.
  \<^item> \<open>Prelude\<close>: C pointers, the kinds of undefined behaviour (\<open>ub\<close>) and the result type \<open>'a res\<close> of
    a C function: it returns, reaches undefined behaviour, or does not return. Every kind of object
    has a heap of its own (a map from addresses); reads, writes and \<open>free\<close> of a pointer that is
    null, never written or already freed are results, not assumptions. Loops are
    \<open>partial_function (option)\<close>, so that a theorem about a result also says that the loop ends; no
    fuel is used.
  \<^item> \<open>Linked_List\<close>: when a list of addresses describes a chain of nodes, and what pushing, appending,
    cutting and unlinking do to it, once for all node types (locale \<open>dnode\<close>, interpreted on the file
    blocks, the files, the coroutines and the pushes of the thread pool).

  The file system. \<open>Ufs_Model\<close> has one definition per function and loop of userfs.c, on a record
  of the static variables (\<open>ufs\<close>) and the heaps of blocks, files and descriptors; sizes are 64-bit
  words, the number of open descriptors and the file number are integers, and \<open>heap_fill\<close> is what
  \<open>malloc\<close> leaves in the descriptor array and in the \<open>prev\<close> of a block. Where \<open>ufs_open\<close> is called the theorems
  assume that this is zeroed memory (\<open>heap_fill s = Null\<close>), and say so. \<open>Ufs_Spec\<close> is the abstract file system: names, files as
  byte lists with the space they have left, descriptors with a position. \<open>Ufs_Inv\<close> relates the two
  (\<open>refines\<close>); \<open>Ufs_Blocks\<close>, \<open>Ufs_Write\<close> and \<open>Ufs_Resize\<close> treat the block lists, \<open>Ufs_Refine\<close>,
  \<open>Ufs_Io\<close> and \<open>Ufs_Names\<close> prove that every function implements its specification on every branch,
  \<open>Ufs_Faults\<close> what is left at the end, \<open>ufs_destroy\<close>, and the calls that loop or fail. \<open>Ufs_Client\<close> states the
  interface (locale \<open>file_system\<close>), proves sequences of calls from it, interprets it on the model, lists the results
  and errors of each call, and shows where descriptors are after a truncation; \<open>Ufs_Example\<close> has the
  states most witnesses start from. The specification is what the code does; where userfs.h says something else
  (first descriptor, positions after a truncation, errors) the property says so.

  Coroutines and sorting. \<open>Signals\<close> is the part of POSIX that libcoro.c relies on (one signal, its mask
  and action, the alternate stack); \<open>Coro_Model\<close> has every function of libcoro.c: the list, the making of a
  first context by a signal on a new stack (\<open>coro_new\<close>, \<open>coro_body\<close>), the switch and the scheduler. What a
  coroutine does between two switches is a parameter, and \<open>Coro\<close> proves in the
  locale \<open>cooperative\<close> that with any invariant and measure of the turns the scheduler returns finished
  coroutines and ends; \<open>own_stacks\<close> says that every unfinished coroutine has a live stack of its own.
  \<open>Msort_Model\<close> and \<open>Msort\<close> are the merge sort, reading and writing of files and
  the clock arithmetic of solution.c; \<open>Sort_Main_Model\<close> has its coroutine and \<open>main\<close>, with the heaps of
  contexts and time objects. \<open>Owned_Heap\<close> says which objects of a heap a set of pointers owns;
  \<open>Sort_Memory\<close> uses it for the contexts and time objects of the coroutines. \<open>Sort_Main\<close>
  interprets \<open>cooperative\<close> (as \<open>sorters\<close>): every interleaving that the scheduler makes ends with
  all files sorted and all objects freed; \<open>main\<close> as a whole depends on what \<open>malloc\<close> gives and leaves in
  memory, which C3 tells apart.

  The thread pool. \<open>Tp_Model\<close> has one function per critical section of thread_pool.c: the mutex makes
  it atomic; what a function reads before it takes the lock is a step of its own (\<open>join_lookup\<close>). The worker threads are
  part of the state, each at a point between two critical sections or blocked in the wait for \<open>work_cond\<close>, and so is
  the client that deletes the pool (\<open>deleter\<close>); a blocked thread takes no step until \<open>broadcast_work\<close>,
  \<open>signal_finish\<close> or \<open>signal_end\<close> wakes it, and locking the mutex of a freed pool is a use after free.
  \<open>Tp_Inv\<close> is the
  invariant (queue, ownership of the pushes by the tasks, workers, counters); \<open>Tp_Work\<close>, \<open>Tp_Push\<close>
  and \<open>Tp_Delete\<close> prove it for each operation with what the operation does; \<open>Tp_Run\<close> puts workers and
  clients together as steps in any order (\<open>tp_reach\<close>), spurious wake-ups included, with the rules clients follow
  (\<open>tp_allowed\<close>). It shows that no step fails, that every schedule of the workers and of the deletion is
  bounded and where it ends, and what calls outside the rules do: a push to a freed pool, deleting a task after a
  timed join on it gave up, detaching an unfinished task, a spurious wake-up of a join
  (\<open>push_after_delete\<close>, \<open>timed_join_fault\<close>, \<open>detach_unfinished\<close>, \<open>spurious_wakeup\<close>); of two clients that join the
  same push one is never woken (\<open>second_join_sleeps\<close>).

  The heap checker. \<open>Heap_Model\<close> has the table of allocations, the wrappers, the static allocator,
  the initialisation and the report of heap_help.c; what the C library returns is an argument.
  \<open>Heap\<close> proves that the table is an association list; \<open>Heap_Calls\<close> states what the wrappers rely on
  (locale \<open>tracker\<close>, interpreted on the table), proves for sequences of calls that the table is the list of the
  blocks that are allocated (\<open>hh_spec\<close>), leaving out the calls after which it is not (\<open>hh_allowed\<close>), and
  shows what happens after those; \<open>Heap_Report\<close> treats the start and the report at exit. \<open>Heap_Threads_Model\<close> has
  several threads in the wrappers, each at a point between two critical sections, in any interleaving
  (\<open>hh_reach\<close>), with the blocks whose \<open>realloc\<close> failed kept apart (\<open>lost\<close>); \<open>Heap_Threads\<close> proves that no step
  fails and that the table agrees with the library's live blocks but for these,
  and shows two races (the moved block of a \<open>realloc\<close>, and the first calls of two threads).

  Bounds. File sizes, the 64-bit sizes and their conversions to signed values keep their width. The
  counters of the pool stay below 20 and 100000 by its invariant (C18), so they are integers; indices and
  lengths of the sorting program are integers. A read asks for less than \<open>2 ^ 63\<close> bytes (the return
  type is signed).

  Granularity. What is read outside a lock is one atomic step (the unlocked reads of the flags of a push, and
  the lookup of a task's last push, race with the workers in the C program); which of the blocked clients is in a
  timed join is not recorded, so that any of them may give up.

  Not modelled: terminal output (but the time \<open>main\<close> shows and the report of the heap checker are results),
  the free calls for the arrays of numbers of solution.c (an array is a value with one owner) and for the
  names of the coroutines, exhaustion of memory (\<open>malloc\<close> returning null), client handlers that call
  into libcoro.c, several pools that share a task, task functions that call the pool, threads that
  initialise the heap checker at the same time (but for the race above), coroutines that make
  coroutines or wait for them (here only \<open>main\<close> does), and the test
  drivers and scripts.
\<close>

chapter \<open>The file system\<close>

text \<open>C1: When \<open>malloc\<close> returns zeroed memory (\<open>heap_fill = Null\<close>; without it the second \<open>ufs_open\<close> reads
  uninitialised cells, lemma \<open>second_open_fails\<close>), every sequence of file system calls in the range of \<open>op_ok\<close> (no
  empty write, sizes below \<open>2 ^ 63\<close>, no resize to 0 or to a size that is neither a multiple of the block size nor
  smaller than the file) returns, reaches no undefined
  behaviour, gives the results the abstract file system gives, and leads to a well-formed state
  that represents the abstract one (induction over the calls, one refinement per function). The abstract file
  system is that of the code, which is not in every point that of userfs.h: the first descriptor is 0 (C8), and a
  truncation leaves the positions of the descriptors behind the new end alone (C11).\<close>

theorem ufs_calls_refine:
  assumes "refines s A" "heap_fill s = Null" "ops_ok A cs"
  shows "\<exists>rs s' A'. run_ops cs s = ret (rs, s') \<and> spec_ops A cs rs A' \<and> refines s' A'"
  using run_ops_refines [OF assms(1,3)] refines_fill [OF assms(1)] assms(2) by simp

theorem ufs_calls_refine_witness:
  "\<exists>rs s' A'. run_ops [Open ''f'' 1, Write 0 [7], Delete ''f'', Close 0] (ufs_init Null) = ret (rs, s')
    \<and> spec_ops afs_init [Open ''f'' 1, Write 0 [7], Delete ''f'', Close 0] rs A' \<and> refines s' A'"
  by (rule ufs_calls_refine [OF refines_init]) (auto simp: ufs_init_def op_ok_def intro!: ops_ok.intros)

text \<open>C6: \<open>ufs_write\<close> of a nonempty buffer checks descriptor, permission and space in this order,
  writes the bytes at the descriptor's position (or at the end, when it lies beyond), moves the
  position and charges the bytes to the file's budget; nothing else changes.\<close>

theorem write_correct:
  assumes "refines s A" "sz \<noteq> 0" "unat sz \<le> length buf"
  shows "\<exists>s'. ufs_write fd buf sz s = ret (fst (spec_write fd (take (unat sz) buf) A), s')
    \<and> refines s' (snd (spec_write fd (take (unat sz) buf) A))"
  using assms by (rule ufs_write_refines)

theorem write_correct_witness:
  "\<exists>s f s'. refines s (example_fs f) \<and> ufs_write 0 [1, 2] 2 s = ret (2, s')
    \<and> refines s' (snd (spec_write 0 [1, 2] (example_fs f)))"
proof -
  obtain s f where s: "refines s (example_fs f)" using example_reached by blast
  have "fst (spec_write 0 [1, 2] (example_fs f)) = 2"
    by (simp add: spec_write_def afd_at_def example_fs_def max_size_def)
  with s write_correct [OF s, of 2 "[1, 2]" 0] show ?thesis by auto
qed

text \<open>C7: \<open>ufs_read\<close> returns the bytes from the descriptor's position up to the requested size or
  the end of the file, and moves the position past them; an invalid descriptor or a missing
  permission is reported by -1 and the error code.\<close>

theorem read_correct:
  assumes "refines s A" "unat sz < 2 ^ 63"
  shows "\<exists>s'. ufs_read fd sz s = (let (n, out, A') = spec_read fd (unat sz) A in ret (n, map Some out, s'))
    \<and> refines s' (snd (snd (spec_read fd (unat sz) A)))"
  using assms by (rule ufs_read_refines)

theorem read_correct_witness:
  "\<exists>s f s'. refines s (example_fs f) \<and> ufs_read 1 2 s = ret (2, [Some 7, Some 8], s')"
proof -
  obtain s f where s: "refines s (example_fs f)" using example_reached by blast
  have "fst (spec_read 1 2 (example_fs f)) = 2" "fst (snd (spec_read 1 2 (example_fs f))) = [7, 8]"
    by (simp_all add: spec_read_def afd_at_def example_fs_def Let_def numeral_2_eq_2)
  with s read_correct [OF s, of 2 1] show ?thesis by (auto simp: case_prod_beta Let_def)
qed

text \<open>C8: When \<open>malloc\<close> returns zeroed memory, \<open>ufs_open\<close> opens the named file, creates it when it is missing
  and \<open>UFS_CREATE\<close> is given, and fails with \<open>UFS_ERR_NO_FILE\<close> otherwise; the descriptor is the lowest free number
  (so the first one is 0, where userfs.h documents results above 0) and starts at position 0.\<close>

theorem open_correct:
  assumes "refines s A" "heap_fill s = Null"
  shows "\<exists>new s'. a_files A new = None
    \<and> ufs_open name flags s = ret (fst (spec_open name flags new A), s')
    \<and> refines s' (snd (spec_open name flags new A))"
  using ufs_open_refines [OF assms(1)] refines_fill [OF assms(1)] assms(2) by simp

theorem open_correct_witness:
  "\<exists>s1 f s2 s3. ufs_open ''f'' UFS_CREATE (ufs_init Null) = ret (0, s1) \<and> refines s1 (one_file_fs f)
    \<and> ufs_open ''f'' 0 s1 = ret (1, s2) \<and> ufs_open ''g'' 0 s1 = ret (-1, s3)"
proof -
  have init: "heap_fill (ufs_init Null) = Null" by (simp add: ufs_init_def)
  from open_correct [OF refines_init init, of "''f''" UFS_CREATE] obtain f s1 where
    s1: "ufs_open ''f'' UFS_CREATE (ufs_init Null) = ret (0, s1)" "refines s1 (one_file_fs f)"
    by (auto simp: one_file_open)
  have fill: "heap_fill s1 = Null" using refines_fill [OF s1(2)] by (simp add: one_file_fs_def)
  have "fst (spec_open ''f'' 0 new (one_file_fs f)) = 1" "fst (spec_open ''g'' 0 new (one_file_fs f)) = -1" for new
    by (simp_all add: spec_open_def attach_def one_file_fs_def first_free_1 is_permitted_def UFS_CREATE_def)
  with open_correct [OF s1(2) fill, of "''f''" 0] open_correct [OF s1(2) fill, of "''g''" 0] s1
  show ?thesis by metis
qed

text \<open>C9: \<open>ufs_close\<close> frees the descriptor and, when the file has neither a name nor another
  descriptor, the file with all its blocks.\<close>

theorem close_correct:
  assumes "refines s A"
  shows "\<exists>s'. ufs_close fd s = ret (fst (spec_close fd A), s') \<and> refines s' (snd (spec_close fd A))"
  using assms by (rule ufs_close_refines)

theorem close_correct_witness:
  "\<exists>s f s'. refines s (example_fs f) \<and> ufs_close 0 s = ret (0, s') \<and> refines s' (snd (spec_close 0 (example_fs f)))"
proof -
  obtain s f where s: "refines s (example_fs f)" using example_reached by blast
  have "fst (spec_close 0 (example_fs f)) = 0" by (simp add: spec_close_def afd_at_def example_fs_def)
  with s close_correct [OF s, of 0] show ?thesis by auto
qed

text \<open>C10: \<open>ufs_delete\<close> removes the name; the file stays as long as a descriptor is open on it and is
  freed at once otherwise; an unknown name is reported.\<close>

theorem delete_correct:
  assumes "refines s A"
  shows "\<exists>s'. ufs_delete name s = ret (fst (spec_delete name A), s') \<and> refines s' (snd (spec_delete name A))"
  using assms by (rule ufs_delete_refines)

theorem delete_correct_witness:
  "\<exists>s f s'. refines s (example_fs f) \<and> ufs_delete ''f'' s = ret (0, s')
    \<and> refines s' (snd (spec_delete ''f'' (example_fs f)))"
proof -
  obtain s f where s: "refines s (example_fs f)" using example_reached by blast
  have "fst (spec_delete ''f'' (example_fs f)) = 0" by (simp add: spec_delete_def example_fs_def)
  with s delete_correct [OF s, of "''f''"] show ?thesis by auto
qed

text \<open>C11: \<open>ufs_resize\<close> to a positive size that is a multiple of the block size or smaller than the
  file truncates the file to that size (growing leaves the content alone) and recomputes the
  budget; too large sizes, missing permission and invalid descriptors are reported. No position changes: userfs.h
  says that descriptors behind the new end proceed from it, but after another descriptor has let the file grow
  again they proceed from their old position (lemma \<open>resize_keeps_position\<close>).\<close>

theorem resize_correct:
  assumes "refines s A"
    and "\<And>d. afd_at A fd = Some d \<Longrightarrow> a_write d \<Longrightarrow> unat sz \<le> max_size \<Longrightarrow>
      0 < unat sz \<and> (BLOCK_SIZE dvd unat sz \<or> unat sz < length (a_data (the (a_files A (a_file d)))))"
  shows "\<exists>s'. ufs_resize fd sz s = ret (fst (spec_resize fd (unat sz) A), s')
    \<and> refines s' (snd (spec_resize fd (unat sz) A))"
  using assms by (rule ufs_resize_refines)

theorem resize_correct_witness:
  "\<exists>s f s'. refines s (example_fs f) \<and> ufs_resize 0 2 s = ret (0, s')
    \<and> refines s' (snd (spec_resize 0 2 (example_fs f)))"
proof -
  obtain s f where s: "refines s (example_fs f)" using example_reached by blast
  have "\<exists>s'. ufs_resize 0 2 s = ret (fst (spec_resize 0 (unat (2 :: size_t)) (example_fs f)), s')
      \<and> refines s' (snd (spec_resize 0 (unat (2 :: size_t)) (example_fs f)))"
    by (rule resize_correct [OF s]) (auto simp: afd_at_def example_fs_def)
  moreover have "fst (spec_resize 0 2 (example_fs f)) = 0"
    by (simp add: spec_resize_def afd_at_def example_fs_def max_size_def Let_def)
  ultimately show ?thesis using s by auto
qed

text \<open>C19: When \<open>malloc\<close> returns zeroed memory, every call in the range of \<open>op_ok\<close> returns, with one of its
  \<open>possible\<close> results. A call that fails returns -1, leaves one of its possible errors in
  \<open>ufs_errno\<close> and changes nothing else; a call that succeeds leaves \<open>ufs_errno\<close> alone. (The possible results are
  those of the code: userfs.h documents results above 0 for \<open>ufs_open\<close>, where 0 is possible, and no
  \<open>UFS_ERR_NO_PERMISSION\<close> for \<open>ufs_write\<close> and \<open>ufs_read\<close>, where it is.)\<close>

theorem call_results_possible:
  assumes "refines s A" "heap_fill s = Null" "op_ok A c"
  shows "\<exists>r out s' A'. run_op c s = ret ((r, out), s') \<and> refines s' A'
    \<and> (if r = -1 then ufs_errno s' \<in> possible_errors c \<and> A' = A\<lparr>a_err := ufs_errno s'\<rparr>
       else possible_result c r out \<and> ufs_errno s' = ufs_errno s)"
  using assms by (rule run_op_result)

theorem call_results_possible_witness:
  "\<exists>s f r out s'. refines s (example_fs f) \<and> run_op (Read 1 2) s = ret ((r, out), s')
    \<and> (r = -1 \<and> ufs_errno s' \<in> {UFS_ERR_NO_FILE, UFS_ERR_NO_PERMISSION} \<or> r = int (length out) \<and> None \<notin> set out)"
proof -
  obtain s f where s: "refines s (example_fs f)" using example_reached by blast
  have ok: "op_ok (example_fs f) (Read 1 2)" by (simp add: op_ok_def)
  from call_results_possible [OF s example_fill [OF s] ok] s show ?thesis by (fastforce split: if_splits)
qed

text \<open>C20: What is written through one descriptor is read back through another one that is at the
  same position of the file (the round trip of the data through the block list).\<close>

theorem write_read_roundtrip:
  assumes "refines s A" "afd_at A fd = Some d" "a_write d" "afd_at A fd' = Some e" "a_read e"
    "a_file e = a_file d" "a_pos e = a_pos d" "fd' \<noteq> fd"
    "a_pos d \<le> length (a_data (the (a_files A (a_file d))))"
    "w \<noteq> []" "length w \<le> a_left (the (a_files A (a_file d)))"
  shows "\<exists>s1 s2. ufs_write fd w (word_of_nat (length w)) s = ret (int (length w), s1)
    \<and> ufs_read fd' (word_of_nat (length w)) s1 = ret (int (length w), map Some w, s2)"
  using assms by (rule ufs.read_after_write)

theorem write_read_roundtrip_witness:
  "\<exists>s0 f s n s1 s2. refines s0 (example_fs f) \<and> ufs_read 1 3 s0 = ret (3, [Some 7, Some 8, Some 9], s)
    \<and> ufs_write 0 [1, 2] (word_of_nat (length [1, 2 :: byte])) s = ret (n, s1)
    \<and> ufs_read 1 (word_of_nat (length [1, 2 :: byte])) s1 = ret (n, [Some 1, Some 2], s2)"
proof -
  obtain s0 f where s0: "refines s0 (example_fs f)" using example_reached by blast
  let ?d = "\<lparr>a_file = f, a_pos = 3, a_read = True, a_write = True\<rparr>"
  let ?A = "(example_fs f)\<lparr>a_fds := [0 \<mapsto> ?d, 1 \<mapsto> ?d]\<rparr>"
  have "snd (snd (spec_read 1 3 (example_fs f))) = ?A"
    by (simp add: spec_read_def afd_at_def example_fs_def Let_def numeral_3_eq_3)
  with ufs_read_refines [OF s0, of 3 1] obtain s where
    s: "ufs_read 1 3 s0 = ret (3, [Some 7, Some 8, Some 9], s)" "refines s ?A"
    by (auto simp: spec_read_def afd_at_def example_fs_def Let_def)
  have "\<exists>s1 s2. ufs_write 0 [1, 2] (word_of_nat (length [1, 2 :: byte])) s = ret (int (length [1, 2 :: byte]), s1)
    \<and> ufs_read 1 (word_of_nat (length [1, 2 :: byte])) s1 = ret (int (length [1, 2 :: byte]), map Some [1, 2], s2)"
    by (rule write_read_roundtrip [OF s(2), of 0 ?d 1 ?d])
      (simp_all add: afd_at_def example_fs_def max_size_def)
  with s0 s(1) show ?thesis by auto
qed

text \<open>C26: After a deletion the name can be created again (when \<open>malloc\<close> returns zeroed memory): the new
  descriptor is on a new, empty file, while the old descriptor still reads the old content.\<close>

theorem recreate_is_fresh:
  assumes "refines s A" "heap_fill s = Null" "afd_at A fd = Some d" "a_dir A name = Some f"
  shows "\<exists>s1 fd' s2 A2. ufs_delete name s = ret (0, s1) \<and> ufs_open name UFS_CREATE s1 = ret (fd', s2) \<and> refines s2 A2
    \<and> fd' \<noteq> fd \<and> unread A2 fd' = [] \<and> unread A2 fd = unread A fd"
  using ufs.recreate_after_delete [OF assms(1) _ assms(3,4)] refines_fill [OF assms(1)] assms(2) by simp

theorem recreate_is_fresh_witness:
  "\<exists>s f s1 fd' s2 A2. refines s (example_fs f) \<and> ufs_delete ''f'' s = ret (0, s1)
    \<and> ufs_open ''f'' UFS_CREATE s1 = ret (fd', s2) \<and> fd' \<noteq> 1 \<and> unread A2 fd' = [] \<and> unread A2 1 = [7, 8, 9]"
proof -
  obtain s f where s: "refines s (example_fs f)" using example_reached by blast
  have "unread (example_fs f) 1 = [7, 8, 9]" by (simp add: unread_def afd_at_def example_fs_def)
  with s recreate_is_fresh [OF s example_fill [OF s], of 1 "\<lparr>a_file = f, a_pos = 0, a_read = True, a_write = True\<rparr>" "''f''" f]
  show ?thesis by (simp add: afd_at_def example_fs_def) metis
qed

text \<open>C27: No leaks: run any calls in the range of \<open>op_ok\<close> (with zeroed memory from \<open>malloc\<close>); when afterwards the
  file list is empty and the number of open descriptors is 0, no block, file or descriptor object is allocated.\<close>

theorem nothing_leaks:
  assumes "refines s A" "heap_fill s = Null" "ops_ok A cs" "run_ops cs s = ret (rs, s')"
    "file_list s' = Null" "fd_count s' = 0"
  shows "blocks s' = Map.empty \<and> files s' = Map.empty \<and> filedescs s' = Map.empty"
  using assms by (rule run_ops_no_leak)

theorem nothing_leaks_witness:
  "\<exists>rs s'. run_ops [Open ''f'' 1, Write 0 [7], Delete ''f'', Close 0] (ufs_init Null) = ret (rs, s')
    \<and> blocks s' = Map.empty \<and> files s' = Map.empty \<and> filedescs s' = Map.empty"
proof -
  let ?cs = "[Open ''f'' 1, Write 0 [7], Delete ''f'', Close 0]"
  have ok: "ops_ok afs_init ?cs" by (auto simp: op_ok_def intro!: ops_ok.intros)
  have fill: "heap_fill (ufs_init Null) = Null" by (simp add: ufs_init_def)
  from used_and_closed obtain rs s' where run: "run_ops ?cs (ufs_init Null) = ret (rs, s')"
    and none: "file_list s' = Null" "fd_count s' = 0" by blast
  from nothing_leaks [OF refines_init fill ok run none] run show ?thesis by blast
qed

text \<open>C34: What \<open>ufs_destroy\<close> does when no file has a name: if no two descriptors are open on the same file it
  frees everything; if two are, it frees the file with the first of them and uses it again with the second.\<close>

theorem destroy_releases:
  assumes "refines s A" "a_dir A = Map.empty"
  shows "if \<forall>i j d e. a_fds A i = Some d \<longrightarrow> a_fds A j = Some e \<longrightarrow> a_file d = a_file e \<longrightarrow> i = j
    then \<exists>s'. ufs_destroy s = ret s' \<and> blocks s' = Map.empty \<and> files s' = Map.empty
      \<and> filedescs s' = Map.empty \<and> (\<forall>xs. file_descriptors s' \<noteq> FdArray xs)
    else ufs_destroy s = fail UseAfterFree"
  using destroy_ok [OF assms] destroy_shared_file [OF assms] by (smt (verit))

theorem destroy_releases_witness:
  "\<exists>s1 s A d s'. ufs_destroy s1 = fail UseAfterFree \<and> ufs_close 0 s1 = ret (0, s) \<and> refines s A \<and> a_fds A 1 = Some d
    \<and> ufs_destroy s = ret s' \<and> files s' = Map.empty \<and> blocks s' = Map.empty"
proof -
  obtain s0 f where s0: "refines s0 (example_fs f)" using example_reached by blast
  let ?d = "\<lparr>a_file = f, a_pos = 0, a_read = True, a_write = True\<rparr>"
  let ?A1 = "snd (spec_delete ''f'' (example_fs f))" and ?A2 = "snd (spec_close 0 (snd (spec_delete ''f'' (example_fs f))))"
  have A1: "a_dir ?A1 = Map.empty" "a_fds ?A1 0 = Some \<lparr>a_file = f, a_pos = 3, a_read = True, a_write = True\<rparr>" "a_fds ?A1 1 = Some ?d"
    by (auto simp: spec_delete_def reclaim_def example_fs_def fun_eq_iff)
  have A2: "a_dir ?A2 = Map.empty" "a_fds ?A2 = [1 \<mapsto> ?d]" "fst (spec_close 0 ?A1) = 0"
    by (auto simp: spec_delete_def spec_close_def reclaim_def afd_at_def example_fs_def fun_eq_iff)
  from ufs_delete_refines [OF s0, of "''f''"] obtain s1 where s1: "refines s1 ?A1" by blast
  from ufs_close_refines [OF this, of 0] A2(3) obtain s2 where s2: "ufs_close 0 s1 = ret (0, s2)" "refines s2 ?A2" by auto
  have "\<not> (\<forall>i j d e. a_fds ?A1 i = Some d \<longrightarrow> a_fds ?A1 j = Some e \<longrightarrow> a_file d = a_file e \<longrightarrow> i = j)"
    using A1(2,3) by (metis afd.select_convs(1) zero_neq_one)
  with destroy_releases [OF s1 A1(1)] have fail1: "ufs_destroy s1 = fail UseAfterFree" by argo
  have "\<forall>i j d e. a_fds ?A2 i = Some d \<longrightarrow> a_fds ?A2 j = Some e \<longrightarrow> a_file d = a_file e \<longrightarrow> i = j"
    by (simp add: A2(2))
  with destroy_releases [OF s2(2) A2(1)] have "\<exists>s'. ufs_destroy s2 = ret s' \<and> blocks s' = Map.empty \<and> files s' = Map.empty"
    by auto
  moreover have "a_fds ?A2 1 = Some ?d" by (simp add: A2(2))
  ultimately show ?thesis using fail1 s2 by blast
qed

text \<open>C37: \<open>ufs_destroy\<close> frees the first file twice whenever a named file is left (here with all
  descriptors closed): the head of the list is freed by the loop and again at the end.\<close>

theorem destroy_frees_twice:
  assumes "refines s A" "a_dir A \<noteq> Map.empty" "a_fds A = Map.empty"
  shows "ufs_destroy s = fail DoubleFree"
  using assms by (rule destroy_double_free)

theorem destroy_frees_twice_witness:
  "\<exists>s A. refines s A \<and> a_dir A ''f'' \<noteq> None \<and> ufs_destroy s = fail DoubleFree"
proof -
  obtain s0 f where s0: "refines s0 (example_fs f)" using example_reached by blast
  let ?A = "snd (spec_close 1 (snd (spec_close 0 (example_fs f))))"
  from ufs_close_refines [OF s0, of 0] obtain s1 where "refines s1 (snd (spec_close 0 (example_fs f)))" by blast
  from ufs_close_refines [OF this, of 1] obtain s2 where s2: "refines s2 ?A" by blast
  have A: "a_dir ?A = [''f'' \<mapsto> f]" "a_fds ?A = Map.empty"
    by (auto simp: spec_close_def reclaim_def afd_at_def example_fs_def fun_eq_iff)
  have "ufs_destroy s2 = fail DoubleFree" by (rule destroy_frees_twice [OF s2]) (simp_all add: A fun_eq_iff)
  with s2 A(1) show ?thesis by (intro exI [of _ s2] exI [of _ ?A]) auto
qed

text \<open>C36: Resizing a file to a size that is not a multiple of 512 and not smaller than the file never
  returns.\<close>

theorem resize_does_not_return:
  assumes "refines s A" "afd_at A fd = Some d" "a_write d" "unat sz \<le> max_size"
    "length (a_data (the (a_files A (a_file d)))) \<le> unat sz" "\<not> BLOCK_SIZE dvd unat sz"
  shows "ufs_resize fd sz s = None"
  using assms by (rule resize_hangs)

theorem resize_does_not_return_witness:
  "\<exists>s f. refines s (example_fs f) \<and> ufs_resize 0 100 s = None"
proof -
  obtain s f where s: "refines s (example_fs f)" using example_reached by blast
  have "ufs_resize 0 100 s = None"
    by (rule resize_does_not_return [OF s, of 0 "\<lparr>a_file = f, a_pos = 3, a_read = True, a_write = True\<rparr>"])
      (simp_all add: afd_at_def example_fs_def max_size_def)
  with s show ?thesis by blast
qed

chapter \<open>The sorting program\<close>

text \<open>C22: \<open>get_sorted_numbers\<close> returns the sorted numbers, in memory of its own, whatever the
  allocator's memory holds, and yields once for every call of the recursion.\<close>

theorem sort_correct:
  assumes "0 < n" "n \<le> length xs"
  shows "\<exists>events. get_sorted_numbers fill timed xs (int n) = ret (\<lparr>arr = sort (take n xs), len = int n\<rparr>, events)
    \<and> count_list events CoroYield = sort_yields n"
  using assms by (rule get_sorted_numbers_ok)

theorem sort_correct_witness:
  "\<exists>events. get_sorted_numbers (\<lambda>_. 0) True [5, 3, 9] 3 = ret (\<lparr>arr = [3, 5, 9], len = 3\<rparr>, events)"
  using sort_correct [of 3 "[5, 3, 9]" "\<lambda>_. 0" True] by (auto simp: numeral_3_eq_3)

text \<open>C32: \<open>merge_sorted_arrays\<close> is the merge of the two lists, whatever its new buffer holds; for sorted arrays
  that is the sorted list of all elements.\<close>

theorem merge_correct:
  assumes "len a = int (length (arr a))" "len b = int (length (arr b))"
  shows "merge_sorted_arrays fill a b = ret \<lparr>arr = merge (arr a) (arr b), len = len a + len b\<rparr>
    \<and> (sorted (arr a) \<longrightarrow> sorted (arr b) \<longrightarrow> merge (arr a) (arr b) = sort (arr a @ arr b))"
  using merge_sorted_arrays_ok [OF assms] merge_is_sort by blast

theorem merge_correct_witness:
  "merge_sorted_arrays (\<lambda>_. 0) \<lparr>arr = [1, 4], len = 2\<rparr> \<lparr>arr = [2], len = 1\<rparr> = ret \<lparr>arr = [1, 2, 4], len = 2 + 1\<rparr>"
  using merge_correct [of "\<lparr>arr = [1, 4], len = 2\<rparr>" "\<lparr>arr = [2], len = 1\<rparr>" "\<lambda>_. 0"] by simp

text \<open>C35: \<open>read_numbers_from_file\<close> stores the numbers of the file in order, the buffer growing as
  needed, but counts one element more: the last one is an unwritten cell of the buffer.\<close>

theorem read_counts_one_more:
  assumes "\<not> ends_with_junk f"
  shows "\<exists>ys. read_numbers_from_file fill f =
    ret \<lparr>arr = numbers_left f @ fill (length (numbers_left f)) # ys, len = int (length (numbers_left f)) + 1\<rparr>"
  using assms by (rule read_numbers_ok)

theorem read_counts_one_more_witness:
  "\<exists>ys. read_numbers_from_file (\<lambda>_. 42) \<lparr>numbers_left = [5, 3], ends_with_junk = False\<rparr> =
    ret \<lparr>arr = 5 # 3 # 42 # ys, len = 3\<rparr>"
  using read_counts_one_more [of "\<lparr>numbers_left = [5, 3], ends_with_junk = False\<rparr>" "\<lambda>_. 42"] by simp

text \<open>C33: The clock arithmetic is exact: the work time grows by the time since the last time stamp,
  and its nanoseconds stay below one second.\<close>

theorem work_time_correct:
  assumes "normal_time prev" "normal_time now" "normal_time work"
  shows "normal_time (update_coro_work_time prev now work)
    \<and> nanos (update_coro_work_time prev now work) = nanos work + (nanos now - nanos prev)"
  using update_coro_work_time_ok [OF assms] by simp

theorem work_time_correct_witness:
  "normal_time (update_coro_work_time \<lparr>tv_sec = 1, tv_nsec = 900000000\<rparr> \<lparr>tv_sec = 3, tv_nsec = 100000000\<rparr> \<lparr>tv_sec = 0, tv_nsec = 900000000\<rparr>)"
  using work_time_correct [of "\<lparr>tv_sec = 1, tv_nsec = 900000000\<rparr>" "\<lparr>tv_sec = 3, tv_nsec = 100000000\<rparr>" "\<lparr>tv_sec = 0, tv_nsec = 900000000\<rparr>"]
  by (simp add: normal_time_def)

text \<open>C3: What the program does with readable files and at least one coroutine. It depends on \<open>malloc\<close> beyond what
  \<open>malloc\<close> promises. The time objects of 16 bytes are stored in memory that was requested for a pointer: when
  \<open>malloc\<close> gives less than 16 bytes, the program writes beyond the object. The first time stamp is freed before it was ever
  written: when the memory is not initialised, that reads an undefined value. Only when \<open>malloc\<close> rounds up to 16 bytes and
  returns zeroed memory does the program end, for any number of coroutines and whatever the clock says. Then it
  frees every coroutine, stack, context and time object and writes, sorted, the numbers of all files together with
  one cell per file that was never written (so not the sorted numbers alone, see C35).\<close>

theorem sort_main_sorts:
  assumes "0 < coros_total" "names \<noteq> []" "files_ok names dsk" "kernel_ok ker" "\<not> on_altstack MainStack ker"
    "left_over = Null \<or> left_over = Junk"
  shows "if usable < 16 then sort_main ker coros_total names dsk fil clk usable left_over = fail OutOfBounds
    else if left_over = Junk then sort_main ker coros_total names dsk fil clk usable left_over = fail UninitRead
    else \<exists>shown s. sort_main ker coros_total names dsk fil clk usable left_over =
      ret (sort (concat (map (\<lambda>name. let xs = numbers_left (the (dsk name)) in xs @ [fil (length xs)]) names)), shown, s)
    \<and> coro_heap s = Map.empty \<and> stacks s = Map.empty \<and> times (shared s) = Map.empty \<and> contexts (shared s) = Map.empty"
  using sort_main_overflow [OF _ assms(1)] sort_main_junk_timestamp [OF _ assms(1,4,5)]
    sort_main_ok [OF assms(1-3) _ assms(4,5)] assms(6) by (auto simp: numbers_read_def Let_def)

theorem sort_main_sorts_witness:
  "\<exists>shown s. sort_main plain_kernel 2 [''a'', ''b''] [''a'' \<mapsto> \<lparr>numbers_left = [5, 3], ends_with_junk = False\<rparr>,
      ''b'' \<mapsto> \<lparr>numbers_left = [4], ends_with_junk = False\<rparr>]
    (\<lambda>_. 7) (\<lambda>_. \<lparr>tv_sec = 0, tv_nsec = 0\<rparr>) 24 Null = ret ([3, 4, 5, 7, 7], shown, s) \<and> stacks s = Map.empty"
  using sort_main_sorts [of 2 "[''a'', ''b'']" "[''a'' \<mapsto> \<lparr>numbers_left = [5, 3], ends_with_junk = False\<rparr>,
      ''b'' \<mapsto> \<lparr>numbers_left = [4], ends_with_junk = False\<rparr>]" plain_kernel Null 24 "\<lambda>_. 7" "\<lambda>_. \<lparr>tv_sec = 0, tv_nsec = 0\<rparr>"]
  by (auto simp: files_ok_def)

section \<open>The scheduler\<close>

text \<open>C12: \<open>coro_sched_wait\<close> gives turns to the coroutines of the sorting program, in rounds, until one
  has finished; it always returns, that one, taken out of the list, while the others and the invariant of
  the program's data stay. \<open>coro_delete\<close> then frees exactly this coroutine and its stack, and the library is
  ready for the next call.\<close>

theorem sched_wait_correct:
  assumes "coros_ok s cs" "cs \<noteq> []" "program_inv names dsk fil (conts s cs) (shared s)" "coro_this_ptr s = Sched"
  shows "\<exists>us f vs s1 s2. cs = us @ f # vs \<and> coro_sched_wait coroutine_func_f s = ret (Ptr f, s1)
    \<and> coros_ok s1 (us @ vs) \<and> is_finished (coro_at s1 f) \<and> c_ret (coro_at s1 f) = 0
    \<and> coro_delete (Ptr f) s1 = ret s2 \<and> coros_ok s2 (us @ vs)
    \<and> program_inv names dsk fil (conts s2 (us @ vs)) (shared s2) \<and> coro_this_ptr s2 = Sched
    \<and> work_left (conts s2 (us @ vs)) (shared s2) < work_left (conts s cs) (shared s)
    \<and> dom (coro_heap s2) = dom (coro_heap s) - {f} \<and> dom (stacks s2) = dom (stacks s) - {f}"
  using assms by (rule sorters.wait_and_delete)

theorem sched_wait_correct_witness:
  "\<exists>s s1 c c' f s2. create_coros 2 24 Null (coro_sched_init (coro_static plain_kernel example_program)) = ret s
    \<and> coro_sched_wait coroutine_func_f s = ret (Ptr f, s1) \<and> f \<in> {c, c'} \<and> coro_delete (Ptr f) s1 = ret s2"
proof -
  obtain s c c' where s: "create_coros 2 24 Null (coro_sched_init (coro_static plain_kernel example_program)) = ret s"
    "coros_ok s [c, c']" "program_inv [''a''] (disk example_program) (\<lambda>_. 7) (conts s [c, c']) (shared s)" "coro_this_ptr s = Sched"
    using example_start by blast
  from sched_wait_correct [OF s(2) _ s(3,4)] obtain us f vs s1 s2 where
    f: "[c, c'] = us @ f # vs" "coro_sched_wait coroutine_func_f s = ret (Ptr f, s1)" "coro_delete (Ptr f) s1 = ret s2" by auto
  have "f \<in> set [c, c']" unfolding f(1) by simp
  then have "f \<in> {c, c'}" by simp
  with s(1) f(2,3) show ?thesis by blast
qed

text \<open>C29: One round of the scheduler is fair: control passes along the list, and back in the scheduler
  either every coroutine has had exactly one turn or one of them has finished.\<close>

theorem round_is_fair:
  assumes "coro_chain s (c # cs)" "coro_this_ptr s = Running (Ptr c)" "is_sched_waiting s" "unfinished s (c # cs)"
    "program_inv names dsk fil (conts s (c # cs)) (shared s)" "own_stacks s (c # cs)"
  shows "\<exists>s'. run_coros coroutine_func_f s = ret s' \<and> coro_this_ptr s' = Sched
    \<and> ((unfinished s' (c # cs) \<and> (\<forall>a \<in> set (c # cs). switch_count (coro_at s' a) = switch_count (coro_at s a) + 1))
      \<or> (\<exists>f \<in> set (c # cs). is_finished (coro_at s' f) \<and> unfinished s' (filter (\<lambda>a. a \<noteq> f) (c # cs))))"
proof -
  have ch: "chain c_next c_prev (coro_heap s) Null (Ptr c) (c # cs) Null" using assms(1) by simp
  have d: "distinct (c # cs)" by (rule chain_distinct [OF ch])
  have "program_inv names dsk fil ({#} + conts s (c # cs)) (shared s)" using assms(5) by simp
  from sorters.run_coros_pass [OF ch assms(2-4) this assms(6)] obtain s' where
    s': "run_coros coroutine_func_f s = ret s'" "coro_this_ptr s' = Sched" "sorters.passed names dsk fil s s' (c # cs) {#}"
    by blast
  have fil: "filter (\<lambda>a. a \<noteq> f) (c # cs) = us @ vs" if "c # cs = us @ f # vs" for us f vs
    proof -
    from d that have "distinct (us @ f # vs)" by simp
    then have "filter (\<lambda>a. a \<noteq> f) us = us" "filter (\<lambda>a. a \<noteq> f) vs = vs" by (auto simp: filter_id_conv)
    then show ?thesis unfolding that by simp
  qed
  from s'(3) have "(unfinished s' (c # cs) \<and> (\<forall>a \<in> set (c # cs). switch_count (coro_at s' a) = switch_count (coro_at s a) + 1))
      \<or> (\<exists>f \<in> set (c # cs). is_finished (coro_at s' f) \<and> unfinished s' (filter (\<lambda>a. a \<noteq> f) (c # cs)))"
    unfolding sorters.passed_def
  proof (elim disjE conjE exE)
    fix us f vs
    assume eq: "c # cs = us @ f # vs" and f: "is_finished (coro_at s' f)" "unfinished s' (us @ vs)"
    have "f \<in> set (c # cs)" unfolding eq by simp
    with f show ?thesis unfolding fil [OF eq, symmetric] by blast
  qed blast
  with s' show ?thesis by blast
qed

theorem round_is_fair_witness:
  "\<exists>s s' c c'. create_coros 2 24 Null (coro_sched_init (coro_static plain_kernel example_program)) = ret s \<and> coro_chain s [c, c']
    \<and> run_coros coroutine_func_f (s\<lparr>coro_this_ptr := Running (Ptr c), is_sched_waiting := True\<rparr>) = ret s'
    \<and> coro_this_ptr s' = Sched"
proof -
  obtain s c c' where s: "create_coros 2 24 Null (coro_sched_init (coro_static plain_kernel example_program)) = ret s" "coro_chain s [c, c']"
    "unfinished s [c, c']" "program_inv [''a''] (disk example_program) (\<lambda>_. 7) (conts s [c, c']) (shared s)"
    "own_stacks s [c, c']"
    using example_start by blast
  let ?s = "s\<lparr>coro_this_ptr := Running (Ptr c), is_sched_waiting := True\<rparr>"
  have "conts ?s [c, c'] = conts s [c, c']" by (simp add: conts_def)
  with s(4) have "program_inv [''a''] (disk example_program) (\<lambda>_. 7) (conts ?s [c, c']) (shared ?s)" by simp
  then have "\<exists>s'. run_coros coroutine_func_f ?s = ret s' \<and> coro_this_ptr s' = Sched
    \<and> ((unfinished s' [c, c'] \<and> (\<forall>a \<in> set [c, c']. switch_count (coro_at s' a) = switch_count (coro_at ?s a) + 1))
      \<or> (\<exists>f \<in> set [c, c']. is_finished (coro_at s' f) \<and> unfinished s' (filter (\<lambda>a. a \<noteq> f) [c, c'])))"
    using s by (intro round_is_fair) (simp_all add: unfinished_def own_stacks_def)
  with s(1,2) show ?thesis by blast
qed

text \<open>C13: \<open>coro_new\<close> makes a coroutine with a live stack of its own, on which its context lies, puts it
  at the head of the list and restores the signal state (a pending SIGUSR2 is lost); the states of the library stay
  well-formed. On the alternate stack itself the process exits.\<close>

theorem coro_new_correct:
  assumes "coros_ok s cs" "caller_stack s = ret cur"
  shows "if on_altstack cur (sigs s) then coro_new fn s = fail Aborted
    else \<exists>s'. coro_new fn s = ret (Ptr (next_coro s), s') \<and> coros_ok s' (next_coro s # cs)
      \<and> conts s' (next_coro s # cs) = add_mset fn (conts s cs)
      \<and> sigs s' = (sigs s)\<lparr>usr2_pending := False\<rparr> \<and> shared s' = shared s \<and> coro_this s' = coro_this s"
  using coros_ok_new [OF assms] coro_new_on_altstack [OF assms(2)] by simp

theorem coro_new_correct_witness:
  "\<exists>s'. coro_new (Begin Null) (coro_sched_init (coro_static plain_kernel example_program)) = ret (Ptr 0, s')
    \<and> coros_ok s' [0] \<and> sigs s' = plain_kernel"
proof -
  let ?s = "coro_sched_init (coro_static plain_kernel example_program) :: (cont, program) coros"
  have s: "coros_ok ?s []" "caller_stack ?s = ret MainStack" "next_coro ?s = 0" "sigs ?s = plain_kernel"
    using coros_ok_init [of plain_kernel example_program]
    by (simp_all add: coro_sched_init_def coro_static_def caller_stack_def)
  have "plain_kernel\<lparr>usr2_pending := False\<rparr> = plain_kernel" by (simp add: plain_kernel_def)
  with coro_new_correct [OF s(1,2), of "Begin Null"] s(3,4) show ?thesis by auto
qed

chapter \<open>The thread pool\<close>

text \<open>C2: No fault: from every configuration that the workers and clients can reach by the rules of
  \<open>tp_allowed\<close>, each allowed step is possible and leads to a configuration of that kind (no use after free,
  no double free, no null dereference, no access outside an array, in any interleaving, up to and beyond the
  end of \<open>thread_pool_delete\<close>, which frees the pool). The rules forbid what would fail: a push once the
  deletion of the pool has begun, deleting a task while a join on it is open or was given up before the end,
  detaching it before its end, and a spurious wake-up of a join before the end.\<close>

theorem pool_never_faults:
  assumes "tp_reach n c" "tp_allowed oper c"
  shows "\<exists>c'. tp_do oper c = ret c' \<and> tp_reach n c'"
  using assms by (rule reach_step)

theorem pool_never_faults_witness:
  "\<exists>s W s' W'. tp_reach 2 (s, W) \<and> tasks_cnt s = 2 \<and> tp_do (Work 0) (s, W) = ret (s', W')"
proof -
  obtain s W where s: "tp_reach 2 (s, W)" "length (workers s) = 1" "workers s ! 0 = AtTop" "tasks_cnt s = 2"
    by (rule after_exampleE [OF example_state]) auto
  from pool_never_faults [OF s(1), of "Work 0"] s show ?thesis by fastforce
qed

text \<open>C18: The counters: the active threads are among the threads, these are at most the number the pool
  was created for (at most 20), and the task counter is the number of pushes in the queue.\<close>

theorem pool_counters:
  assumes "tp_reach n (s, W)"
  shows "0 \<le> active_threads_cnt s \<and> active_threads_cnt s \<le> threads_cnt s \<and> threads_cnt s \<le> n \<and> n \<le> TPOOL_MAX_THREADS
    \<and> tasks_cnt s = int (card (dom (tps s))) \<and> tasks_cnt s \<le> TPOOL_MAX_TASKS"
  using assms by (rule reach_counters)

theorem pool_counters_witness:
  "\<exists>s W. tp_reach 2 (s, W) \<and> card (dom (tps s)) = 2 \<and> threads_cnt s \<le> 2"
proof -
  obtain s W where s: "tp_reach 2 (s, W)" "tasks_cnt s = 2" by (rule after_exampleE [OF example_state]) auto
  with pool_counters [OF s(1)] show ?thesis by auto
qed

text \<open>C14: A push that has finished holds the value of its task's function on the task's argument, and a
  join that wakes up returns that value.\<close>

theorem finished_result:
  assumes "tp_reach n (s, W)" "tps s a = Some x" "t_finished x"
  shows "\<exists>k t. thread_task x = Ptr k \<and> ttasks s k = Some t \<and> t_result x = Some (t_function t (t_arg t))
    \<and> join_end (Ptr a) s = ret (Inl (TpOk, Some (t_function t (t_arg t))))"
  using assms by (rule reach_result)

theorem finished_result_witness:
  "\<exists>s W x k t. tp_reach 2 (s, W) \<and> tps s 1 = Some x \<and> thread_task x = Ptr k \<and> ttasks s k = Some t
    \<and> t_function t (t_arg t) = 42"
proof -
  obtain s W x where s: "tp_reach 2 (s, W)" "tps s 1 = Some x" "t_finished x" "t_result x = Some 42"
    by (rule after_exampleE [OF example_state]) auto
  from finished_result [OF s(1-3)] s show ?thesis by auto
qed

text \<open>C15: Progress: in an active pool the workers, left alone, take only a bounded number of steps, in whatever
  order; when none of them can take another step (each is blocked), every push has finished, and a client that waited
  alone in a join for a push has been woken. A blocked worker steps only after a broadcast, so a lost wake-up would
  leave a push behind.\<close>

theorem work_gets_done:
  assumes "tp_reach n (s, W)" "is_active s" "set ops \<subseteq> range Work" "tp_path ops (s, W) (s', W')"
  shows "int (length ops) \<le> 4 * (tasks_cnt s + threads_cnt s) \<and> tp_reach n (s', W')
    \<and> dom (tps s') = dom (tps s) \<and> ttasks s' = ttasks s
    \<and> ((\<forall>i. \<not> tp_allowed (Work i) (s', W')) \<longrightarrow> (\<forall>a x. tps s' a = Some x \<longrightarrow> t_finished x)
      \<and> (\<forall>p. count W (Waits p) = 1 \<longrightarrow> \<not> finished_at s p \<longrightarrow> Waits p \<notin># W' \<and> Woken p \<in># W'))"
  using assms by (rule reach_progress)

theorem work_gets_done_witness:
  "\<exists>s W s' W'. tp_reach 2 (s, W) \<and> tp_path (replicate 4 (Work 0)) (s, W) (s', W') \<and> 4 \<le> 4 * (tasks_cnt s + threads_cnt s)
    \<and> (\<forall>a x. tps s' a = Some x \<longrightarrow> t_finished x) \<and> Woken (Ptr 3) \<in># W'"
proof -
  obtain s W s' W' where s: "tp_reach 2 (s, W)" "is_active s" "W = {#Waits (Ptr 3)#}" "map_option t_finished (tps s 3) = Some False"
    "tp_path (replicate 4 (Work 0)) (s, W) (s', W')" "workers s' = [Waiting]"
    by (rule example_path [OF example_waits example_rest]) auto
  have "set (replicate 4 (Work 0)) \<subseteq> range Work" by auto
  note P = work_gets_done [OF s(1,2) this s(5)]
  have "\<forall>i. \<not> tp_allowed (Work i) (s', W')" using s(6) by (auto simp: less_Suc_eq)
  moreover have "count W (Waits (Ptr 3)) = 1" "\<not> finished_at s (Ptr 3)" using s(3,4) by (auto simp: finished_at_def)
  ultimately show ?thesis using P s(1,5) by (intro exI [of _ s] exI [of _ W] exI [of _ s'] exI [of _ W']) simp
qed

text \<open>C23: The waiting pushes are taken last in, first out: the next worker takes the push just made.\<close>

theorem newest_push_first:
  assumes "tp_reach n (s, W)" "is_active s" "thread_pool_push_task (Ptr k) s = ret (TpOk, s1)" "ttasks s k \<noteq> None"
    "i < length (workers s1)" "ready (workers s1 ! i)"
  shows "\<exists>a s2. worker_take i s1 = ret s2 \<and> workers s2 = (workers s1)[i := Executing (Ptr a)]
    \<and> tps s a = None \<and> map_option thread_task (tps s2 a) = Some (Ptr k)"
  using assms by (rule newest_first)

theorem newest_push_first_witness:
  "\<exists>s W s1 a s2. tp_reach 2 (s, W) \<and> thread_pool_push_task (Ptr 0) s = ret (TpOk, s1) \<and> worker_take 0 s1 = ret s2
    \<and> workers s2 = (workers s1)[0 := Executing (Ptr a)] \<and> tps s a = None"
proof -
  obtain s W where s: "tp_reach 2 (s, W)" "is_active s" "ttasks s 0 \<noteq> None"
    "case thread_pool_push_task (Ptr 0) s of Some (Inr (TpOk, s1)) \<Rightarrow> 0 < length (workers s1) \<and> workers s1 ! 0 = AtTop | _ \<Rightarrow> False"
    by (rule after_exampleE [OF example_push]) auto
  from s(4) obtain s1 where s1: "thread_pool_push_task (Ptr 0) s = ret (TpOk, s1)" "0 < length (workers s1)" "ready (workers s1 ! 0)"
    by (auto simp: ready_def split: option.splits sum.splits prod.splits tp_code.splits)
  from newest_push_first [OF s(1,2) s1(1) s(3) s1(2,3)] s(1) s1(1) show ?thesis by blast
qed

text \<open>C24: A push of an existing task in a pool that is not full and not being deleted succeeds; it starts a new thread only when all
  threads are busy and the limit is not reached, and there is a thread afterwards.\<close>

theorem push_starts_threads:
  assumes "tp_reach n (s, W)" "ttasks s k \<noteq> None" "tasks_cnt s < TPOOL_MAX_TASKS" "is_active s"
  shows "\<exists>s'. thread_pool_push_task (Ptr k) s = ret (TpOk, s') \<and> tasks_cnt s' = tasks_cnt s + 1
    \<and> threads_cnt s' = (if active_threads_cnt s = threads_cnt s \<and> threads_cnt s < n then threads_cnt s + 1 else threads_cnt s)
    \<and> thread_task_is_finished s' (Ptr k) = ret False \<and> 0 < threads_cnt s'"
  using assms by (rule push_threads)

theorem push_starts_threads_witness:
  "\<exists>s W s'. tp_reach 2 (s, W) \<and> thread_pool_push_task (Ptr 0) s = ret (TpOk, s') \<and> tasks_cnt s' = 3"
proof -
  obtain s W where s: "tp_reach 2 (s, W)" "tasks_cnt s = 2" "ttasks s 0 \<noteq> None" "is_active s"
    by (rule after_exampleE [OF example_state]) auto
  have "tasks_cnt s < TPOOL_MAX_TASKS" using s(2) by (simp add: TPOOL_MAX_TASKS_def)
  from push_starts_threads [OF s(1,3) this s(4)] s(1,2) show ?thesis by auto
qed

text \<open>C21: Deleting a task on which no join is open: when every push of it was joined, or was detached and has
  finished, the task and exactly its pushes are removed; otherwise the deletion is refused and changes nothing.\<close>

theorem delete_task_exact:
  assumes "tp_reach n (s, W)" "ttasks s k \<noteq> None" "released (s, W) k"
  shows "\<exists>code s'. thread_task_delete (Ptr k) s = ret (code, s')
    \<and> (if \<forall>a x. tps s a = Some x \<longrightarrow> thread_task x = Ptr k \<longrightarrow> droppable x
       then code = TpOk \<and> ttasks s' = (ttasks s)(k := None)
         \<and> (\<forall>a. map_option core (tps s' a) = map_option core (if map_option thread_task (tps s a) = Some (Ptr k) then None else tps s a))
       else code = TASK_IN_POOL \<and> s' = s)"
  using assms by (rule delete_exact)

theorem delete_task_exact_witness:
  "\<exists>s W. tp_reach 2 (s, W) \<and> thread_task_delete (Ptr 0) s = ret (TASK_IN_POOL, s)"
proof -
  obtain s W x where s: "tp_reach 2 (s, W)" "ttasks s 0 \<noteq> None" "W = {#}" "tps s 1 = Some x" "thread_task x = Ptr 0"
    "\<not> droppable x" "\<forall>a x. tps s a = Some x \<longrightarrow> \<not> is_joined x"
    using example_unjoined by blast
  have "released (s, W) 0" using s(3,7) by (auto simp: released_def)
  from delete_task_exact [OF s(1,2) this] s show ?thesis by (auto split: if_splits)
qed

text \<open>C28: Nothing leaks: when no task is left, no push and no list cell is allocated.\<close>

theorem pool_nothing_leaks:
  assumes "tp_reach n (s, W)" "ttasks s = Map.empty"
  shows "tps s = Map.empty \<and> cells s = Map.empty \<and> tasks_cnt s = 0"
  using assms by (rule pool_no_leak)

theorem pool_nothing_leaks_witness:
  "\<exists>s W. guarded_run example_done (new_conf 2) = Some (s, W) \<and> tps s = Map.empty \<and> cells s = Map.empty \<and> tasks_cnt s = 0"
proof -
  obtain s W where s: "tp_reach 2 (s, W)" "guarded_run example_done (new_conf 2) = Some (s, W)" "next_addr s = 3"
    "\<forall>a < 3. ttasks s a = None"
    by (rule after_exampleE [OF example_deleted]) (auto simp: list_all_iff)
  then have "ttasks s a = None" for a using reach_fresh [OF s(1), of a] by (cases "a < 3") auto
  then have "ttasks s = Map.empty" by auto
  with pool_nothing_leaks [OF s(1)] s(2) show ?thesis by blast
qed

text \<open>C25: The end of the pool: \<open>thread_pool_delete\<close> of a pool with pushes is refused. Without pushes the workers and
  the deleting client together take a bounded number of steps, in whatever order, and when none of them can take
  another one, all threads have ended and the pool is freed. A blocked worker or a blocked client steps only after it
  was woken, so without the broadcast or the signal of an ending thread the end would not be reached.\<close>

theorem pool_stops:
  assumes "tp_reach n (s, W)" "deleter s = NotDeleting"
  shows "if tps s \<noteq> Map.empty then pool_delete_begin s = ret (Some HAS_TASKS, s)
    else \<exists>s1. pool_delete_begin s = ret (if threads_cnt s \<noteq> 0 then None else Some TpOk, s1)
      \<and> (\<forall>ops s' W'. set ops \<subseteq> pool_steps \<longrightarrow> tp_path ops (s1, W) (s', W') \<longrightarrow>
          int (length ops) \<le> 2 * threads_cnt s
          \<and> ((\<forall>oper \<in> pool_steps. \<not> tp_allowed oper (s', W')) \<longrightarrow> deleter s' = PoolFreed \<and> threads_cnt s' = 0))"
  using reach_delete [OF assms] reach_has_tasks [OF assms] by simp

theorem pool_stops_witness:
  "\<exists>s W s1. tp_reach 2 (s, W) \<and> threads_cnt s = 1 \<and> pool_delete_begin s = ret (None, s1)
    \<and> (\<forall>ops s' W'. set ops \<subseteq> pool_steps \<longrightarrow> tp_path ops (s1, W) (s', W') \<longrightarrow> length ops \<le> 2)"
proof -
  obtain s W where s: "tp_reach 2 (s, W)" "deleter s = NotDeleting" "threads_cnt s = 1" "next_addr s = 3" "\<forall>a < 3. tps s a = None"
    by (rule after_exampleE [OF example_deleted]) (auto simp: list_all_iff)
  then have "tps s a = None" for a using reach_fresh [OF s(1), of a] by (cases "a < 3") auto
  then have "tps s = Map.empty" by auto
  with pool_stops [OF s(1,2)] s(3) have "\<exists>s1. pool_delete_begin s = ret (None, s1)
    \<and> (\<forall>ops s' W'. set ops \<subseteq> pool_steps \<longrightarrow> tp_path ops (s1, W) (s', W') \<longrightarrow> length ops \<le> 2)" by simp blast
  with s(1,3) show ?thesis by blast
qed



chapter \<open>The heap checker\<close>

text \<open>C4: The table of live allocations is exact: after any sequence of the calls that \<open>hh_allowed\<close> admits it
  holds the blocks that are allocated (address, size and call stack, the newest first), and
  \<open>heaph_get_alloc_count\<close> is their number; no call fails. Not admitted, because the table is wrong after them:
  a \<open>realloc\<close> to a positive size that fails (C39), a \<open>realloc\<close> that stays in place with another size
  (\<open>realloc_in_place\<close>: the old size stays), and a \<open>getline\<close> that stays in place with a longer line.\<close>

theorem heap_calls_correct:
  assumes "hh_rep lo hi 0 s es" "hh_all_allowed lo hi ops es"
  shows "\<exists>s' s''. hh_run ops s = ret s' \<and> hh_rep lo hi 0 s' (hh_spec_run lo hi ops es)
    \<and> heaph_get_alloc_count s' = ret (word_of_nat (length (hh_spec_run lo hi ops es)), s'')"
  using hh_run_ok [OF assms] alloc_count_ok by blast

theorem heap_calls_correct_witness:
  "\<exists>s s' s''. heaph_touch (heaph_start [32] None (Some 4096)) = ret s
    \<and> hh_run [Malloc 10 100000 [7], Malloc 20 200000 [8], Free 100000, Realloc 200000 30 300000 [9]] s = ret s'
    \<and> heaph_get_alloc_count s' = ret (1, s'')"
proof -
  obtain s lo hi where s: "heaph_touch (heaph_start [32] None (Some 4096)) = ret s" "hh_rep lo hi 0 s []"
    "lo = 0 \<and> hi = 0 \<or> lo = 4096 \<and> hi = 4096 + 16 * 1024"
    using first_touch [of "[32]" 4096 None] by auto
  let ?ops = "[Malloc 10 100000 [7], Malloc 20 200000 [8], Free 100000, Realloc 200000 30 300000 [9]]"
  have u: "user_ptr lo hi 100000" "user_ptr lo hi 200000" "user_ptr lo hi 300000"
    using s(3) by (auto simp: user_ptr_def)
  have "hh_all_allowed lo hi ?ops []" using u by (simp add: fresh_ptr_def add_entry_def drop_entry_def)
  from heap_calls_correct [OF s(2) this] s(1) u show ?thesis by (simp add: add_entry_def drop_entry_def) blast
qed

text \<open>C17: The report at exit lists the first ten leaks with their call stacks, counts the others, leaves out
  what the library itself keeps, and prints nothing more when it is called again. (An address of a call stack
  that has no symbol is announced by a message of its own, before the leak.)\<close>

theorem report_correct:
  assumes "hh_rep lo hi 0 s es"
  shows "\<exists>s'. heaph_atexit dladdr s = ret (report dladdr (report_mode s) (alloc_count_total s) es, s')
    \<and> is_exit_done s' \<and> heaph_atexit dladdr s' = ret ([], s')"
  using assms by (rule heaph_atexit_ok)

theorem report_correct_witness:
  "\<exists>s s' s'' n. heaph_touch (heaph_start [] None (Some 4096)) = ret s \<and> hh_run [Malloc 10 100000 [7]] s = ret s'
    \<and> heaph_atexit (\<lambda>_. Some \<lparr>sym_file = None, sym_name = Some ''main''\<rparr>) s' =
        ret ([Leak 1 10 [Some ''main''], FoundLeaks 1 10, TotalCount n], s'')"
proof -
  obtain s lo hi where s: "heaph_touch (heaph_start [] None (Some 4096)) = ret s" "hh_rep lo hi 0 s []"
    "lo = 0 \<and> hi = 0 \<or> lo = 4096 \<and> hi = 4096 + 16 * 1024" "report_mode s = MODE_LEAKS"
    using first_touch [of "[]" 4096 None] by auto
  have u: "user_ptr lo hi 100000" using s(3) by (auto simp: user_ptr_def)
  then obtain s' where s': "hh_malloc 10 100000 [7] s = ret (100000, s')" "hh_rep lo hi 0 s' [(100000, 10, [7])]" "report_mode s' = MODE_LEAKS"
    using malloc_tracked [OF s(2), of 100000 10 "[7]"] s(4) by (auto simp: MAX_BACKTRACE_LEN_def)
  let ?d = "\<lambda>_ :: nat. Some \<lparr>sym_file = None, sym_name = Some ''main''\<rparr>"
  have "visible ?d (100000, 10, [7])"
    by (simp add: visible_def trace_sym_is_internal_def trace_sym_is_func_def trace_sym_file_starts_with_def)
  then have "report ?d MODE_LEAKS n [(100000, 10, [7])] = [Leak 1 10 [Some ''main''], FoundLeaks 1 10, TotalCount n]" for n
    by (simp add: report_def entry_message_def leak_total_def)
  with report_correct [OF s'(2), of ?d] s(1) s'(1,3) show ?thesis by auto
qed

text \<open>C30: A second \<open>free\<close> of the same address is found out: the checker aborts.\<close>

theorem double_free_detected:
  assumes "hh_rep lo hi 0 s es" "user_ptr lo hi p" "p \<in> fst ` set es"
  shows "\<exists>s'. hh_free p s = ret s' \<and> hh_free p s' = fail Aborted"
proof -
  from free_step [OF assms(1), of p] assms(2,3) obtain s' where
    s': "hh_free p s = ret s'" "hh_rep lo hi 0 s' (drop_entry p es)" by auto
  have "p \<notin> fst ` set (drop_entry p es)" using user_nonzero [OF assms(2)] by (auto simp: drop_entry_def)
  with bad_free [OF s'(2) assms(2)] s'(1) show ?thesis by blast
qed

theorem double_free_detected_witness:
  "\<exists>s s' s''. hh_malloc 10 100000 [7] s = ret (100000, s') \<and> hh_free 100000 s' = ret s'' \<and> hh_free 100000 s'' = fail Aborted"
proof -
  obtain s lo hi where s: "hh_rep lo hi 0 s []" "lo = 0 \<and> hi = 0 \<or> lo = 4096 \<and> hi = 4096 + 16 * 1024"
    using first_touch [of "[]" 4096 None] by auto
  have u: "user_ptr lo hi 100000" using s(2) by (auto simp: user_ptr_def)
  then obtain s' where "hh_malloc 10 100000 [7] s = ret (100000, s')" "hh_rep lo hi 0 s' [(100000, 10, take MAX_BACKTRACE_LEN [7])]"
    using malloc_tracked [OF s(1), of 100000 10 "[7]"] by auto
  with double_free_detected [OF this(2) u] show ?thesis by auto
qed

text \<open>C31: The static allocator gives out consecutive pieces of its buffer of 16 kB, and aborts when the
  buffer is full: no two requests overlap and none reaches beyond the buffer.\<close>

theorem static_allocator_bounds:
  assumes "starting b u s" "u \<le> 16 * 1024"
  shows "if u + unat sz < 16 * 1024
    then \<exists>s'. malloc_body sz lib bt s = ret (b + u, s') \<and> starting b (u + unat sz) s'
    else malloc_body sz lib bt s = fail Aborted"
  using static_malloc_ok [OF assms(1)] static_malloc_full [OF assms(1) _ assms(2)] by auto

theorem static_allocator_bounds_witness:
  "\<exists>s'. malloc_body 100 0 [] ((heaph_start [] None (Some 4096))\<lparr>init_lock := True, defaults := StaticFunctions\<rparr>) = ret (4096, s')
    \<and> starting 4096 100 s'"
  using static_allocator_bounds [of 4096 0 "(heaph_start [] None (Some 4096))\<lparr>init_lock := True, defaults := StaticFunctions\<rparr>" 100 0 "[]"]
  by (simp add: starting_def heaph_start_def)

text \<open>C39: After a failed \<open>realloc\<close> the old block is still the caller's, but the checker has forgotten it: the
  correct \<open>free\<close> of it aborts the program.\<close>

theorem failed_realloc_loses_block:
  assumes "hh_rep lo hi 0 s es" "user_ptr lo hi p" "p \<in> fst ` set es"
  shows "\<exists>s'. hh_realloc p sz 0 bt s = ret (0, s') \<and> hh_free p s' = fail Aborted"
  using assms by (rule failed_realloc)

theorem failed_realloc_loses_block_witness:
  "\<exists>s s' s''. hh_malloc 10 100000 [7] s = ret (100000, s') \<and> hh_realloc 100000 20 0 [7] s' = ret (0, s'')
    \<and> hh_free 100000 s'' = fail Aborted"
proof -
  obtain s lo hi where s: "hh_rep lo hi 0 s []" "lo = 0 \<and> hi = 0 \<or> lo = 4096 \<and> hi = 4096 + 16 * 1024"
    using first_touch [of "[]" 4096 None] by auto
  have u: "user_ptr lo hi 100000" using s(2) by (auto simp: user_ptr_def)
  then obtain s' where "hh_malloc 10 100000 [7] s = ret (100000, s')" "hh_rep lo hi 0 s' [(100000, 10, take MAX_BACKTRACE_LEN [7])]"
    using malloc_tracked [OF s(1), of 100000 10 "[7]"] by auto
  with failed_realloc_loses_block [OF this(2) u, of 20 "[7]"] show ?thesis by auto
qed

section \<open>Several threads\<close>

text \<open>C5: Several threads in the wrappers: in any interleaving of the critical sections and the calls of the
  library no step fails, as long as the threads free and reallocate only blocks that they hold, and none that
  they hold after a \<open>realloc\<close> of it has failed (the entry of such a block is gone, and freeing it would
  abort, see C39).\<close>

theorem heap_threads_safe:
  assumes "hh_reach lo hi n c" "act_allowed lo hi act c"
  shows "\<exists>c'. hh_act_do act c = ret c' \<and> hh_reach lo hi n c'"
  using assms by (rule threads_never_fail)

theorem heap_threads_safe_witness:
  "\<exists>s c' lo hi. heaph_touch (heaph_start [32] None (Some 4096)) = ret s
    \<and> hh_act_do (GetBlock 1 100000 10 [7]) (hh_sys_start s 2) = ret c' \<and> hh_reach lo hi 2 c'"
proof -
  obtain s lo hi where s: "heaph_touch (heaph_start [32] None (Some 4096)) = ret s" "hh_rep lo hi 0 s []"
    "lo = 0 \<and> hi = 0 \<or> lo = 4096 \<and> hi = 4096 + 16 * 1024"
    using first_touch [of "[32]" 4096 None] by auto
  have "act_allowed lo hi (GetBlock 1 100000 10 [7]) (hh_sys_start s 2)"
    using s(3) by (auto simp: hh_sys_start_def user_ptr_def)
  from heap_threads_safe [OF hh_reach.start [OF s(2)] this] s(1) show ?thesis by blast
qed

text \<open>C16: When no thread is in a wrapper, the table holds each live block of the library exactly once, but for
  those whose \<open>realloc\<close> has failed: these are live and not in the table. The counter is the number of the
  entries.\<close>

theorem table_matches_library:
  assumes "hh_reach lo hi n c" "\<forall>t \<in> set (threads c). t = Idle"
  shows "\<exists>tr pl. table_inv (hh c) tr pl \<and> mset_set (live c) = owned c + lost c
    \<and> mset (map fst (entries_of (hh c) tr)) = owned c
    \<and> alloc_count (hh c) = int (card (live c)) - int (size (lost c))"
  using assms by (rule table_is_live)

theorem table_matches_library_witness:
  "\<exists>c. hh_reach 0 0 2 c \<and> live c = {100, 200} \<and> lost c = {#100#} \<and> owned c = {#200#} \<and> alloc_count (hh c) = 1"
proof -
  obtain c where c: "hh_reach 0 0 2 c" "threads c = [Idle, Idle]" "live c = {100, 200}" "lost c = {#100#}"
    by (rule after_actsE [OF lost_block]) blast
  have "{#100, 200#} = owned c + {#100#}" "alloc_count (hh c) = 1"
    using table_matches_library [OF c(1)] c(2-4) by auto
  then have "owned c = {#200#}" by (simp add: add_mset_commute)
  with c \<open>alloc_count (hh c) = 1\<close> show ?thesis by blast
qed

text \<open>C40: A \<open>realloc\<close> that moves a block removes the old entry only after the library has freed the old address. From
  every reachable configuration: when another thread gets that address in between, it is the new entry of its block
  that is removed, and the old entry stays with the size and call stack of the block that is gone. (The report then
  shows a block of 32 bytes as one of 8, lemma \<open>race_report\<close>.)\<close>

theorem realloc_race:
  assumes "hh_reach lo hi n c" "i < length (threads c)" "j < length (threads c)" "i \<noteq> j"
    "threads c ! i = Idle" "threads c ! j = Idle" "p \<in># owned c" "user_ptr lo hi q" "q \<notin> live c"
  shows "\<exists>tr pl c' pl'. table_inv (hh c) tr pl \<and> p \<in> fst ` set (entries_of (hh c) tr)
    \<and> hh_acts [MoveBlock i p q sz bt, GetBlock j p sz' bt', Continue j, Continue j, Continue i] c = ret c'
    \<and> hh_reach lo hi n c' \<and> p \<in># owned c' \<and> threads c' ! i = Got q sz bt
    \<and> table_inv (hh c') tr pl' \<and> entries_of (hh c') tr = entries_of (hh c) tr"
  using assms by (rule realloc_removes_newer)

theorem realloc_race_witness:
  "\<exists>c tr c' pl'. hh_reach 0 0 2 c
    \<and> hh_acts [MoveBlock 0 100 200 16 [2], GetBlock 1 100 32 [3], Continue 1, Continue 1, Continue 0] c = ret c'
    \<and> 100 \<in># owned c' \<and> table_inv (hh c') tr pl' \<and> entries_of (hh c') tr = entries_of (hh c) tr"
proof -
  obtain c where c: "hh_reach 0 0 2 c" "threads c = [Idle, Idle]" "owned c = {#100#}" "live c = {100}"
    by (rule after_actsE [OF one_block]) blast
  then have "0 < length (threads c)" "1 < length (threads c)" "(0 :: nat) \<noteq> 1" "threads c ! 0 = Idle" "threads c ! 1 = Idle"
    "100 \<in># owned c" "user_ptr 0 0 200" "200 \<notin> live c" by (simp_all add: user_ptr_def)
  from realloc_race [OF c(1) this, of 16 "[2]" 32 "[3]"] c(1) show ?thesis by blast
qed

end
